(* ===== verification/Prelude.thy ===== *)
theory Prelude
  imports Main "HOL-Library.Char_ord" "HOL-Library.List_Lexorder" "HOL-Library.Sublist"
begin

text \<open>
  What the components of the masker share.  A Go string and a Go byte slice are
  both a list of bytes, here \<^typ>\<open>string\<close> (Isabelle's \<^typ>\<open>char\<close> is exactly one
  byte), and an index into one is a \<^typ>\<open>nat\<close>.  Go's \<open>int\<close> is \<^typ>\<open>int\<close> where
  it can be negative or is subtracted from.  The theory holds the slice and
  \<open>strings\<close> functions the sources use, the index loop
  \<open>for i < n && p(i) { i++ }\<close> with its rules, and the collections the component
  proofs extend.
\<close>

section \<open>Collections\<close>

named_theorems byte_class_defs "definitions of the predicates on single bytes"
named_theorems bounds "results of the scanning functions lie inside the text"
named_theorems fail_defs "the functions that record a failure"

section \<open>Bytes\<close>

type_synonym bytes = string

abbreviation byte :: "char \<Rightarrow> nat" where
  "byte c \<equiv> of_char c"

abbreviation chr :: "nat \<Rightarrow> char" where
  "chr n \<equiv> char_of n"

lemma byte_less_256 [simp]: "byte c < 256"
  by (metis UNIV_char_of_nat atLeastLessThan_iff char_of_char imageE of_char_mod_256 mod_less_divisor zero_less_numeral)

lemma byte_chr [simp]: "n < 256 \<Longrightarrow> byte (chr n) = n"
  by (simp add: of_char_of)

lemma char_le_byte: "c \<le> d \<longleftrightarrow> byte c \<le> byte d"
  by (simp add: less_eq_char_def)

lemma char_less_byte: "c < d \<longleftrightarrow> byte c < byte d"
  by (simp add: less_char_def)

lemma char_eq_byte: "c = d \<longleftrightarrow> byte c = byte d"
  by (simp add: of_char_eq_iff)

lemmas char_to_byte = char_le_byte char_less_byte char_eq_byte

abbreviation within :: "char \<Rightarrow> char \<Rightarrow> char \<Rightarrow> bool" where
  "within lo hi c \<equiv> lo \<le> c \<and> c \<le> hi"

text \<open>The value of a hexadecimal digit.\<close>

definition hex_value :: "char \<Rightarrow> nat option" where
  "hex_value c =
     (if within CHR ''0'' CHR ''9'' c then Some (byte c - 48)
      else if within CHR ''a'' CHR ''f'' c then Some (byte c - 87)
      else if within CHR ''A'' CHR ''F'' c then Some (byte c - 55)
      else None)"

section \<open>Slices and searches\<close>

text \<open>\<open>s[a:b]\<close>, for \<open>a \<le> b \<le> len(s)\<close>.\<close>

definition slice :: "'a list \<Rightarrow> nat \<Rightarrow> nat \<Rightarrow> 'a list" where
  "slice s a b = take (b - a) (drop a s)"

lemma slice_append_left: "b \<le> length xs \<Longrightarrow> slice (xs @ ys) a b = slice xs a b"
  by (cases "a \<le> length xs") (auto simp: slice_def)

lemma length_slice: "b \<le> length s \<Longrightarrow> length (slice s a b) = b - a"
  by (simp add: slice_def)

lemma nth_slice: "b \<le> length s \<Longrightarrow> i < b - a \<Longrightarrow> slice s a b ! i = s ! (a + i)"
  by (simp add: slice_def)

lemma slice_middle: "slice (pre @ v @ post) (length pre) (length pre + length v) = v"
  by (simp add: slice_def)

lemma slice_whole: "slice s 0 (length s) = s"
  by (simp add: slice_def)

lemma slice_full_prefix: "slice s 0 n = take n s"
  by (simp add: slice_def)

lemma slice_snoc:
  assumes "a \<le> i" and "i < length s"
  shows "slice s a (Suc i) = slice s a i @ [s ! i]"
proof -
  have "Suc i - a = Suc (i - a)" using assms by simp
  then show ?thesis using assms by (simp add: slice_def take_Suc_conv_app_nth)
qed

lemma slice_append: "a \<le> b \<Longrightarrow> b \<le> c \<Longrightarrow> slice s a b @ slice s b c = slice s a c"
proof -
  assume le: "a \<le> b" "b \<le> c"
  then have "slice s a c = take ((b - a) + (c - b)) (drop a s)" by (simp add: slice_def)
  also have "\<dots> = take (b - a) (drop a s) @ take (c - b) (drop (b - a) (drop a s))"
    by (rule take_add)
  finally show ?thesis using le by (simp add: slice_def)
qed

text \<open>\<open>strings.IndexByte\<close>, with \<open>None\<close> for \<open>-1\<close>.\<close>

fun index_byte :: "bytes \<Rightarrow> char \<Rightarrow> nat option" where
  "index_byte [] c = None"
| "index_byte (x # xs) c = (if x = c then Some 0 else map_option Suc (index_byte xs c))"

lemma index_byte_None: "index_byte s c = None \<longleftrightarrow> c \<notin> set s"
  by (induction s) auto

lemma index_byte_Some: "index_byte s c = Some i \<Longrightarrow> i < length s \<and> s ! i = c \<and> c \<notin> set (take i s)"
  by (induction s arbitrary: i) (auto split: if_splits)

text \<open>\<open>strings.Cut\<close> at one separator byte: before, after, found.\<close>

definition cut :: "char \<Rightarrow> bytes \<Rightarrow> bytes \<times> bytes \<times> bool" where
  "cut c s = (case index_byte s c of
     None \<Rightarrow> (s, [], False)
   | Some i \<Rightarrow> (take i s, drop (Suc i) s, True))"

lemma cut_shorter: "s \<noteq> [] \<Longrightarrow> cut c s = (p, r, f) \<Longrightarrow> length r < length s"
  by (cases "index_byte s c") (auto simp: cut_def dest: index_byte_Some)

lemma cut_append: "c \<notin> set p \<Longrightarrow> cut c (p @ c # r) = (p, r, True)"
proof (induction p)
  case Nil
  then show ?case by (simp add: cut_def)
next
  case (Cons a p)
  then show ?case by (auto simp: cut_def split: option.splits)
qed

lemma cut_absent: "c \<notin> set s \<Longrightarrow> cut c s = (s, [], False)"
  using index_byte_None [of s c] by (simp add: cut_def)

text \<open>\<open>strings.Contains\<close> and \<open>strings.HasPrefix\<close>.\<close>

definition has_prefix :: "bytes \<Rightarrow> bytes \<Rightarrow> bool" where
  "has_prefix s p \<longleftrightarrow> take (length p) s = p"

fun contains :: "bytes \<Rightarrow> bytes \<Rightarrow> bool" where
  "contains [] p \<longleftrightarrow> p = []"
| "contains (x # xs) p \<longleftrightarrow> has_prefix (x # xs) p \<or> contains xs p"

section \<open>The index loop\<close>

text \<open>
  \<open>for i < n && p(i) { i++ }\<close>, the loop most scanners of the program are made
  of: the first index from \<open>i\<close> on that is not below \<open>n\<close> or does not satisfy \<open>p\<close>.
\<close>

function advance :: "(nat \<Rightarrow> bool) \<Rightarrow> nat \<Rightarrow> nat \<Rightarrow> nat" where
  "advance p n i = (if i < n \<and> p i then advance p n (Suc i) else i)"
  by pat_completeness auto
termination
  by (relation "measure (\<lambda>(p, n, i). n - i)") auto

declare advance.simps [simp del]

lemma advance_step: "i < n \<Longrightarrow> p i \<Longrightarrow> advance p n i = advance p n (Suc i)"
  by (simp add: advance.simps [of p n i])

lemma advance_stop: "\<not> (i < n \<and> p i) \<Longrightarrow> advance p n i = i"
  by (subst advance.simps) auto

lemma advance_ge [bounds]: "i \<le> advance p n i"
proof (induction p n i rule: advance.induct)
  case (1 p n i)
  then show ?case by (cases "i < n \<and> p i") (auto simp: advance.simps [of p n i])
qed

lemma advance_le [bounds]: "i \<le> n \<Longrightarrow> advance p n i \<le> n"
proof (induction p n i rule: advance.induct)
  case (1 p n i)
  then show ?case by (cases "i < n \<and> p i") (auto simp: advance.simps [of p n i])
qed

lemma advance_all: "i \<le> j \<Longrightarrow> j < advance p n i \<Longrightarrow> p j"
proof (induction p n i rule: advance.induct)
  case (1 p n i)
  show ?case
  proof (cases "i < n \<and> p i")
    case True
    with "1.prems" have "i = j \<or> Suc i \<le> j" by auto
    with True "1.IH" "1.prems" show ?thesis by (auto simp: advance.simps [of p n i])
  next
    case False
    with "1.prems" show ?thesis by (auto simp: advance.simps [of p n i])
  qed
qed

lemma advance_end: "advance p n i < n \<Longrightarrow> \<not> p (advance p n i)"
proof (induction p n i rule: advance.induct)
  case (1 p n i)
  then show ?case by (cases "i < n \<and> p i") (auto simp: advance.simps [of p n i])
qed

lemma advance_eqI:
  assumes "i \<le> j" and "j \<le> n" and "\<And>k. i \<le> k \<Longrightarrow> k < j \<Longrightarrow> p k" and "j < n \<Longrightarrow> \<not> p j"
  shows "advance p n i = j"
proof (rule antisym)
  show "advance p n i \<le> j"
  proof (rule ccontr)
    assume "\<not> advance p n i \<le> j"
    then have "j < advance p n i" by simp
    moreover have "advance p n i \<le> n" using assms(1,2) by (intro advance_le) simp
    ultimately show False using assms(1,4) advance_all [of i j p n] by simp
  qed
  show "j \<le> advance p n i"
  proof (rule ccontr)
    assume "\<not> j \<le> advance p n i"
    then have "advance p n i < j" by simp
    then show False
      using assms(2,3) advance_ge [of i p n] advance_end [of p n i] by auto
  qed
qed

lemma advance_between: "i \<le> j \<Longrightarrow> j \<le> advance p n i \<Longrightarrow> advance p n j = advance p n i"
proof (induction p n i rule: advance.induct)
  case (1 p n i)
  show ?case
  proof (cases "i < n \<and> p i")
    case True
    show ?thesis
    proof (cases "i = j")
      case False
      with True "1.prems" "1.IH" show ?thesis by (auto simp: advance.simps [of p n i])
    qed simp
  next
    case False
    with "1.prems" show ?thesis by (auto simp: advance.simps [of p n i])
  qed
qed

lemma advance_cong:
  assumes "\<And>k. i \<le> k \<Longrightarrow> k < n \<Longrightarrow> p k = q k"
  shows "advance p n i = advance q n i"
  using assms
proof (induction p n i rule: advance.induct)
  case (1 p n i)
  then show ?case
    by (cases "i < n \<and> p i") (auto simp: advance.simps [of p n i] advance.simps [of q n i])
qed

section \<open>Numbers as text\<close>

text \<open>\<open>strconv.Itoa\<close>.\<close>

fun digits_of :: "nat \<Rightarrow> string" where
  "digits_of n = (if n < 10 then [chr (48 + n)] else digits_of (n div 10) @ [chr (48 + n mod 10)])"

declare digits_of.simps [simp del]

definition itoa :: "int \<Rightarrow> string" where
  "itoa n = (if n < 0 then CHR ''-'' # digits_of (nat (- n)) else digits_of (nat n))"

lemma digits_of_range: "c \<in> set (digits_of n) \<Longrightarrow> CHR ''0'' \<le> c \<and> c \<le> CHR ''9''"
proof (induction n rule: digits_of.induct)
  case (1 n)
  have digit: "CHR ''0'' \<le> chr (48 + d) \<and> chr (48 + d) \<le> CHR ''9''" if "d < 10" for d :: nat
    using that by (simp add: char_le_byte)
  from "1.prems" show ?case
    using "1.IH" digit [of n] digit [of "n mod 10"]
    by (subst (asm) digits_of.simps) (auto split: if_splits)
qed

lemma digits_of_nonempty: "digits_of n \<noteq> []"
  by (subst digits_of.simps) simp

section \<open>Lists\<close>

lemma sorted_distinct_unique:
  "sorted (map f xs) \<Longrightarrow> sorted (map f ys) \<Longrightarrow> distinct (map f xs) \<Longrightarrow> set xs = set ys
    \<Longrightarrow> distinct (map f ys) \<Longrightarrow> xs = ys"
  by (metis distinct_map inj_on_Un map_sorted_distinct_set_unique sup_idem)

lemma list_update_map_of_key:
  "distinct (map fst xs) \<Longrightarrow> i < length xs \<Longrightarrow> fst (xs ! i) = k
    \<Longrightarrow> map_of (xs[i := (k, v)]) = (map_of xs)(k \<mapsto> v)"
proof (induction xs arbitrary: i)
  case (Cons x xs)
  show ?case
  proof (cases i)
    case (Suc j)
    with Cons.prems have "xs ! j \<in> set xs" and "fst (xs ! j) = k" by auto
    then have "k \<in> fst ` set xs" by force
    moreover have "fst x \<notin> fst ` set xs" using Cons.prems(1) by simp
    ultimately have "fst x \<noteq> k" by blast
    with Suc Cons show ?thesis by (cases x) (auto simp: fun_upd_twist)
  qed (use Cons.prems in \<open>auto simp: fun_upd_def\<close>)
qed simp

end
