(* ===== verification/Utf8.thy ===== *)
theory Utf8
  imports Prelude
begin

text \<open>
  The part of the standard package \<open>unicode/utf8\<close> the sources use, on byte
  strings: decoding one rune with the acceptance ranges of the Unicode standard
  (an invalid byte is \<open>RuneError\<close> of size 1), encoding a rune (an invalid rune
  encodes \<open>RuneError\<close>), validity, and the two conversions between a string and
  its runes.  The general categories the masking rules ask for are the ranges
  of the Unicode character database; what a release of Go ships as larger
  tables is the record \<open>unicode_tables\<close>, an argument of its users.
\<close>

section \<open>Decoding and encoding one rune\<close>

definition rune_error :: nat where
  "rune_error = 65533"

definition cont_byte :: "char \<Rightarrow> bool" where
  "cont_byte c \<longleftrightarrow> 128 \<le> byte c \<and> byte c < 192"

definition rune_start :: "char \<Rightarrow> bool" where
  "rune_start c \<longleftrightarrow> \<not> cont_byte c"

text \<open>The range of the second byte of a sequence that starts with \<open>b\<close>.\<close>

definition second_ok :: "nat \<Rightarrow> char \<Rightarrow> bool" where
  "second_ok b c \<longleftrightarrow> cont_byte c
     \<and> (b = 224 \<longrightarrow> 160 \<le> byte c) \<and> (b = 237 \<longrightarrow> byte c < 160)
     \<and> (b = 240 \<longrightarrow> 144 \<le> byte c) \<and> (b = 244 \<longrightarrow> byte c < 144)"

fun decode_rune :: "bytes \<Rightarrow> nat \<times> nat" where
  "decode_rune [] = (rune_error, 0)"
| "decode_rune (c # cs) = (let b = byte c in
     if b < 128 then (b, 1)
     else if b < 194 \<or> 244 < b then (rune_error, 1)
     else case cs of
       [] \<Rightarrow> (rune_error, 1)
     | c1 # cs1 \<Rightarrow>
         if \<not> second_ok b c1 then (rune_error, 1)
         else if b < 224 then ((b - 192) * 64 + (byte c1 - 128), 2)
         else (case cs1 of
           [] \<Rightarrow> (rune_error, 1)
         | c2 # cs2 \<Rightarrow>
             if \<not> cont_byte c2 then (rune_error, 1)
             else if b < 240 then
               (((b - 224) * 64 + (byte c1 - 128)) * 64 + (byte c2 - 128), 3)
             else (case cs2 of
               [] \<Rightarrow> (rune_error, 1)
             | c3 # _ \<Rightarrow>
                 if \<not> cont_byte c3 then (rune_error, 1)
                 else ((((b - 240) * 64 + (byte c1 - 128)) * 64 + (byte c2 - 128)) * 64
                       + (byte c3 - 128), 4))))"

definition valid_rune :: "nat \<Rightarrow> bool" where
  "valid_rune r \<longleftrightarrow> r < 55296 \<or> 57344 \<le> r \<and> r \<le> 1114111"

definition encode_valid :: "nat \<Rightarrow> bytes" where
  "encode_valid r =
     (if r < 128 then [chr r]
      else if r < 2048 then [chr (192 + r div 64), chr (128 + r mod 64)]
      else if r < 65536 then
        [chr (224 + r div 4096), chr (128 + r div 64 mod 64), chr (128 + r mod 64)]
      else [chr (240 + r div 262144), chr (128 + r div 4096 mod 64),
            chr (128 + r div 64 mod 64), chr (128 + r mod 64)])"

definition encode_rune :: "nat \<Rightarrow> bytes" where
  "encode_rune r = encode_valid (if valid_rune r then r else rune_error)"

lemma decode_rune_size:
  "s \<noteq> [] \<Longrightarrow> 1 \<le> snd (decode_rune s) \<and> snd (decode_rune s) \<le> length s"
  by (cases s) (auto simp: Let_def split: list.splits)

lemma decode_rune_progress [simp]: "0 < snd (decode_rune (c # cs))"
  using decode_rune_size [of "c # cs"] by simp

lemma decode_rune_size_le4: "snd (decode_rune s) \<le> 4"
  by (cases s) (auto simp: Let_def split: list.splits)

lemma decode_ascii [simp]: "byte c < 128 \<Longrightarrow> decode_rune (c # cs) = (byte c, 1)"
  by simp

lemma valid_rune_error [simp]: "valid_rune rune_error"
  by (simp add: valid_rune_def rune_error_def)

text \<open>The accepted shapes, with the payload bits of each byte as variables.\<close>

lemma decode_cases [consumes 2, case_names ascii bad two three four]:
  assumes "decode_rune s = (r, n)" and "s \<noteq> []"
  obtains c cs where "s = c # cs" "byte c < 128" "r = byte c" "n = 1"
  | "r = rune_error" "n = 1"
  | c c1 cs x y where "s = c # c1 # cs" "byte c = 192 + x" "byte c1 = 128 + y"
      "2 \<le> x" "x < 32" "y < 64" "r = x * 64 + y" "n = 2"
  | c c1 c2 cs x y z where "s = c # c1 # c2 # cs" "byte c = 224 + x" "byte c1 = 128 + y"
      "byte c2 = 128 + z" "x < 16" "y < 64" "z < 64" "x = 0 \<longrightarrow> 32 \<le> y" "x = 13 \<longrightarrow> y < 32"
      "r = (x * 64 + y) * 64 + z" "n = 3"
  | c c1 c2 c3 cs x y z v where "s = c # c1 # c2 # c3 # cs" "byte c = 240 + x"
      "byte c1 = 128 + y" "byte c2 = 128 + z" "byte c3 = 128 + v" "x < 5" "y < 64" "z < 64"
      "v < 64" "x = 0 \<longrightarrow> 16 \<le> y" "x = 4 \<longrightarrow> y < 16"
      "r = ((x * 64 + y) * 64 + z) * 64 + v" "n = 4"
proof -
  obtain c cs where s: "s = c # cs" using assms(2) by (cases s) auto
  have cont: "cont_byte d \<Longrightarrow> byte d = 128 + (byte d - 128) \<and> byte d - 128 < 64" for d
    by (auto simp: cont_byte_def)
  consider "byte c < 128" | "128 \<le> byte c" "byte c < 194 \<or> 244 < byte c"
    | "194 \<le> byte c" "byte c < 224" | "224 \<le> byte c" "byte c < 240"
    | "240 \<le> byte c" "byte c \<le> 244" by linarith
  then show ?thesis
  proof cases
    case 1
    with assms s show ?thesis by (intro that(1) [of c cs]) auto
  next
    case 2
    with assms s show ?thesis by (intro that(2)) auto
  next
    case 3
    show ?thesis
    proof (cases "\<exists>c1 cs1. cs = c1 # cs1 \<and> second_ok (byte c) c1")
      case True
      then obtain c1 cs1 where cs: "cs = c1 # cs1" "second_ok (byte c) c1" by blast
      with 3 assms s cont [of c1] show ?thesis
        by (intro that(3) [of c c1 cs1 "byte c - 192" "byte c1 - 128"]) (auto simp: second_ok_def)
    next
      case False
      with 3 assms s show ?thesis by (intro that(2)) (auto simp: Let_def split: list.splits)
    qed
  next
    case 4
    show ?thesis
    proof (cases "\<exists>c1 c2 cs1. cs = c1 # c2 # cs1 \<and> second_ok (byte c) c1 \<and> cont_byte c2")
      case True
      then obtain c1 c2 cs1 where cs: "cs = c1 # c2 # cs1" "second_ok (byte c) c1" "cont_byte c2"
        by blast
      with 4 assms s cont [of c1] cont [of c2] show ?thesis
        by (intro that(4) [of c c1 c2 cs1 "byte c - 224" "byte c1 - 128" "byte c2 - 128"])
           (auto simp: second_ok_def)
    next
      case False
      with 4 assms s show ?thesis by (intro that(2)) (auto simp: Let_def split: list.splits if_splits)
    qed
  next
    case 5
    show ?thesis
    proof (cases "\<exists>c1 c2 c3 cs1. cs = c1 # c2 # c3 # cs1 \<and> second_ok (byte c) c1
        \<and> cont_byte c2 \<and> cont_byte c3")
      case True
      then obtain c1 c2 c3 cs1 where cs: "cs = c1 # c2 # c3 # cs1" "second_ok (byte c) c1"
        "cont_byte c2" "cont_byte c3" by blast
      with 5 assms s cont [of c1] cont [of c2] cont [of c3] show ?thesis
        by (intro that(5) [of c c1 c2 c3 cs1 "byte c - 240" "byte c1 - 128" "byte c2 - 128" "byte c3 - 128"])
           (auto simp: second_ok_def)
    next
      case False
      with 5 assms s show ?thesis by (intro that(2)) (auto simp: Let_def split: list.splits if_splits)
    qed
  qed
qed

lemma decode_valid_rune: "valid_rune (fst (decode_rune s))"
proof (cases "s = []")
  case False
  have "decode_rune s = (fst (decode_rune s), snd (decode_rune s))" by simp
  from this False show ?thesis
  proof (cases rule: decode_cases)
    case (three c c1 c2 cs x y z)
    then have "x < 13 \<or> x = 13 \<and> y < 32 \<or> 14 \<le> x" by linarith
    with three show ?thesis by (auto simp: valid_rune_def)
  next
    case (four c c1 c2 c3 cs x y z v)
    then have "x = 0 \<and> 16 \<le> y \<or> 1 \<le> x \<and> x < 4 \<or> x = 4 \<and> y < 16" by linarith
    with four show ?thesis by (auto simp: valid_rune_def)
  qed (auto simp: valid_rune_def rune_error_def)
qed simp

lemma decode_not_ascii:
  assumes "128 \<le> byte c" shows "128 \<le> fst (decode_rune (c # cs))"
proof -
  have "decode_rune (c # cs) = (fst (decode_rune (c # cs)), snd (decode_rune (c # cs)))" by simp
  then show ?thesis
    by (cases rule: decode_cases) (use assms in \<open>auto simp: rune_error_def simp del: decode_rune.simps\<close>)
qed

text \<open>Dividing by the powers of 64 that separate the payload bits.\<close>

lemma div_4096: "(n :: nat) div 4096 = n div 64 div 64"
  by (simp flip: div_mult2_eq)

lemma div_262144: "(n :: nat) div 262144 = n div 64 div 64 div 64"
  by (simp flip: div_mult2_eq)

lemma base64: "z < 64 \<Longrightarrow> (a * 64 + z) div 64 = (a :: nat)" "z < 64 \<Longrightarrow> (a * 64 + z) mod 64 = (z :: nat)"
  by simp_all

lemma base64_join: "r div 64 * 64 + r mod 64 = (r :: nat)"
  by simp

lemma mod_64: "n mod 64 < (64 :: nat)"
  by simp

lemmas base64_digits = div_4096 div_262144 base64 base64_join

text \<open>Decoding a rune that is not an error gives back the bytes it was read from.\<close>

lemma encode_decode:
  assumes "decode_rune s = (r, n)" and "\<not> (r = rune_error \<and> n \<le> 1)"
  shows "encode_valid r = take n s"
proof (cases "s = []")
  case True
  with assms show ?thesis by simp
next
  case False
  from assms(1) False show ?thesis
  proof (cases rule: decode_cases)
    case (two c c1 cs x y)
    then have "r div 64 = x" "r mod 64 = y" "128 \<le> r" "r < 2048" by auto
    with two show ?thesis by (simp add: encode_valid_def char_eq_byte of_char_of)
  next
    case (three c c1 c2 cs x y z)
    have d: "r div 64 = x * 64 + y" "r mod 64 = z" "(x * 64 + y) div 64 = x" "(x * 64 + y) mod 64 = y"
      using three(6,7) by (simp_all only: three(10) base64)
    have "2048 \<le> r" "r < 65536" using three by auto
    with d three(1-7) \<open>n = 3\<close> show ?thesis
      by (simp add: encode_valid_def char_eq_byte of_char_of div_4096)
  next
    case (four c c1 c2 c3 cs x y z v)
    have d: "r div 64 = (x * 64 + y) * 64 + z" "r mod 64 = v"
      "((x * 64 + y) * 64 + z) div 64 = x * 64 + y" "((x * 64 + y) * 64 + z) mod 64 = z"
      "(x * 64 + y) div 64 = x" "(x * 64 + y) mod 64 = y"
      using four(7-9) by (simp_all only: four(12) base64)
    have "65536 \<le> r" using four by auto
    with d four(1-9) \<open>n = 4\<close> show ?thesis
      by (simp add: encode_valid_def char_eq_byte of_char_of div_4096 div_262144)
  qed (use assms(2) in \<open>auto simp: encode_valid_def\<close>)
qed

lemma encode_valid_length: "1 \<le> length (encode_valid r) \<and> length (encode_valid r) \<le> 4"
  by (simp add: encode_valid_def)

lemma encode_ascii: "r < 128 \<Longrightarrow> encode_rune r = [chr r]"
  by (simp add: encode_rune_def valid_rune_def encode_valid_def)

text \<open>The same shapes, built instead of taken apart.\<close>

lemma decode_two:
  "byte c = 192 + x \<Longrightarrow> byte c1 = 128 + y \<Longrightarrow> 2 \<le> x \<Longrightarrow> x < 32 \<Longrightarrow> y < 64
    \<Longrightarrow> decode_rune (c # c1 # cs) = (x * 64 + y, 2)"
  by (auto simp: Let_def second_ok_def cont_byte_def)

lemma decode_three:
  "byte c = 224 + x \<Longrightarrow> byte c1 = 128 + y \<Longrightarrow> byte c2 = 128 + z \<Longrightarrow> x < 16 \<Longrightarrow> y < 64 \<Longrightarrow> z < 64
    \<Longrightarrow> (x = 0 \<longrightarrow> 32 \<le> y) \<Longrightarrow> (x = 13 \<longrightarrow> y < 32)
    \<Longrightarrow> decode_rune (c # c1 # c2 # cs) = ((x * 64 + y) * 64 + z, 3)"
  by (auto simp: Let_def second_ok_def cont_byte_def)

lemma decode_four:
  "byte c = 240 + x \<Longrightarrow> byte c1 = 128 + y \<Longrightarrow> byte c2 = 128 + z \<Longrightarrow> byte c3 = 128 + v
    \<Longrightarrow> x < 5 \<Longrightarrow> y < 64 \<Longrightarrow> z < 64 \<Longrightarrow> v < 64 \<Longrightarrow> (x = 0 \<longrightarrow> 16 \<le> y) \<Longrightarrow> (x = 4 \<longrightarrow> y < 16)
    \<Longrightarrow> decode_rune (c # c1 # c2 # c3 # cs) = (((x * 64 + y) * 64 + z) * 64 + v, 4)"
  by (auto simp: Let_def second_ok_def cont_byte_def)

declare decode_rune.simps(2) [simp del]

lemma decode_encode:
  assumes "valid_rune r"
  shows "decode_rune (encode_valid r @ s) = (r, length (encode_valid r))"
proof -
  consider "r < 128" | "128 \<le> r" "r < 2048" | "2048 \<le> r" "r < 65536" | "65536 \<le> r"
    by linarith
  then show ?thesis
  proof cases
    case 1
    then show ?thesis by (simp add: encode_valid_def)
  next
    case 2
    then have "r div 64 < 32" "2 \<le> r div 64" by auto
    with 2 have "decode_rune (encode_valid r @ s) = (r div 64 * 64 + r mod 64, 2)"
      by (simp add: encode_valid_def decode_two)
    moreover have "r div 64 * 64 + r mod 64 = r" by (rule base64_join)
    moreover have "length (encode_valid r) = 2" using 2 by (simp add: encode_valid_def)
    ultimately show ?thesis by simp
  next
    case 3
    define x y z where "x = r div 4096" and "y = r div 64 mod 64" and "z = r mod 64"
    have r: "(x * 64 + y) * 64 + z = r" and "y < 64" "z < 64"
      by (simp_all only: x_def y_def z_def div_4096 base64_join mod_64)
    then have "x < 16" "x = 0 \<longrightarrow> 32 \<le> y" "x = 13 \<longrightarrow> y < 32"
      using 3 assms by (auto simp: valid_rune_def)
    with \<open>y < 64\<close> \<open>z < 64\<close> have "decode_rune (encode_valid r @ s) = ((x * 64 + y) * 64 + z, 3)"
      using 3 by (simp add: encode_valid_def decode_three flip: x_def y_def z_def)
    moreover have "length (encode_valid r) = 3" using 3 by (simp add: encode_valid_def)
    ultimately show ?thesis using r by simp
  next
    case 4
    define x y z v where "x = r div 262144" and "y = r div 4096 mod 64"
      and "z = r div 64 mod 64" and "v = r mod 64"
    have r: "((x * 64 + y) * 64 + z) * 64 + v = r" and "y < 64" "z < 64" "v < 64"
      by (simp_all only: x_def y_def z_def v_def div_262144 div_4096 base64_join mod_64)
    then have "x < 5" "x = 0 \<longrightarrow> 16 \<le> y" "x = 4 \<longrightarrow> y < 16"
      using 4 assms by (auto simp: valid_rune_def)
    with \<open>y < 64\<close> \<open>z < 64\<close> \<open>v < 64\<close>
    have "decode_rune (encode_valid r @ s) = (((x * 64 + y) * 64 + z) * 64 + v, 4)"
      using 4 by (simp add: encode_valid_def decode_four flip: x_def y_def z_def v_def)
    moreover have "length (encode_valid r) = 4" using 4 by (simp add: encode_valid_def)
    ultimately show ?thesis using r by simp
  qed
qed

lemma encode_rune_decode:
  assumes "decode_rune s = (r, n)" and "s \<noteq> []" and "\<not> (r = rune_error \<and> n = 1)"
  shows "encode_rune r = take n s"
proof -
  have "1 \<le> n" using decode_rune_size [OF assms(2)] assms(1) by simp
  then have "\<not> (r = rune_error \<and> n \<le> 1)" using assms(3) by auto
  moreover have "valid_rune r" using decode_valid_rune [of s] assms(1) by simp
  ultimately show ?thesis using encode_decode [OF assms(1)] by (simp add: encode_rune_def)
qed

text \<open>Every byte of a multi-byte rune is outside ASCII.\<close>

lemma decode_multibyte_bytes:
  assumes "decode_rune (c # cs) = (r, n)" and "\<not> byte c < 128" and "b \<in> set (take n (c # cs))"
  shows "\<not> byte b < 128"
  using assms(1) by (cases rule: decode_cases) (use assms(2,3) in auto)

lemma decode_encode_rune: "valid_rune r \<Longrightarrow> decode_rune (encode_rune r @ s) = (r, length (encode_rune r))"
  by (simp add: encode_rune_def decode_encode)

section \<open>Strings and their runes\<close>

text \<open>
  The runes of a string with the bytes each was decoded from, in order: what
  ranging over a Go string visits.
\<close>

function chunks :: "bytes \<Rightarrow> (nat \<times> bytes) list" where
  "chunks s = (if s = [] then []
     else (fst (decode_rune s), take (snd (decode_rune s)) s)
          # chunks (drop (snd (decode_rune s)) s))"
  by pat_completeness auto
termination
  by (relation "measure length") (auto dest: decode_rune_size)

declare chunks.simps [simp del]

lemma chunks_Nil [simp]: "chunks [] = []"
  by (simp add: chunks.simps)

lemma chunks_decode: "s \<noteq> [] \<Longrightarrow> chunks s = (fst (decode_rune s), take (snd (decode_rune s)) s)
    # chunks (drop (snd (decode_rune s)) s)"
  by (simp add: chunks.simps [of s])

lemma chunks_ascii [simp]: "byte c < 128 \<Longrightarrow> chunks (c # cs) = (byte c, [c]) # chunks cs"
  by (simp add: chunks_decode)

lemma concat_chunks [simp]: "concat (map snd (chunks s)) = s"
proof (induction s rule: chunks.induct)
  case (1 s)
  then show ?case by (cases "s = []") (simp_all add: chunks_decode)
qed

text \<open>\<open>[]rune(s)\<close>, \<open>string(runes)\<close>, \<open>utf8.ValidString\<close>.\<close>

definition runes :: "bytes \<Rightarrow> nat list" where
  "runes s = map fst (chunks s)"

definition string_of_runes :: "nat list \<Rightarrow> bytes" where
  "string_of_runes rs = concat (map encode_rune rs)"

definition bad_chunk :: "nat \<times> bytes \<Rightarrow> bool" where
  "bad_chunk = (\<lambda>(r, b). r = rune_error \<and> length b = 1)"

definition valid_utf8 :: "bytes \<Rightarrow> bool" where
  "valid_utf8 s \<longleftrightarrow> list_all (\<lambda>x. \<not> bad_chunk x) (chunks s)"

lemma chunks_encode: "valid_rune r \<Longrightarrow> chunks (encode_rune r @ s) = (r, encode_rune r) # chunks s"
proof -
  assume r: "valid_rune r"
  have ne: "encode_valid r @ s \<noteq> []" using encode_valid_length [of r] by auto
  show ?thesis
    by (simp add: encode_rune_def r chunks_decode [OF ne] decode_encode)
qed

lemma chunk_cases:
  "(r, b) \<in> set (chunks s) \<Longrightarrow> valid_rune r \<and> (bad_chunk (r, b) \<or> b = encode_rune r)"
proof (induction s rule: chunks.induct)
  case (1 s)
  show ?case
  proof (cases "s = []")
    case False
    have head: "valid_rune (fst (decode_rune s))"
      "bad_chunk (fst (decode_rune s), take (snd (decode_rune s)) s)
        \<or> take (snd (decode_rune s)) s = encode_rune (fst (decode_rune s))"
      using encode_decode [of s "fst (decode_rune s)" "snd (decode_rune s)"] decode_rune_size [OF False]
      by (force simp: bad_chunk_def encode_rune_def decode_valid_rune)+
    from "1.prems" False consider
      "r = fst (decode_rune s)" "b = take (snd (decode_rune s)) s"
      | "(r, b) \<in> set (chunks (drop (snd (decode_rune s)) s))"
      by (auto simp: chunks_decode)
    then show ?thesis using head "1.IH" [OF False] by cases auto
  qed (use "1.prems" in simp)
qed

lemma encode_rune_not_bad: "valid_rune r \<Longrightarrow> \<not> bad_chunk (r, encode_rune r)"
  by (auto simp: bad_chunk_def encode_rune_def encode_valid_def rune_error_def valid_rune_def)

lemma chunks_string_of_runes:
  "\<forall>r \<in> set rs. valid_rune r \<Longrightarrow> chunks (string_of_runes rs @ s) = map (\<lambda>r. (r, encode_rune r)) rs @ chunks s"
proof (induction rs)
  case (Cons r rs)
  then show ?case by (simp add: string_of_runes_def chunks_encode)
qed (simp add: string_of_runes_def)

lemma valid_utf8_string_of_runes:
  assumes "\<forall>r \<in> set rs. valid_rune r"
  shows "valid_utf8 (string_of_runes rs)"
  using chunks_string_of_runes [OF assms, of "[]"] assms
  by (auto simp: valid_utf8_def list_all_iff encode_rune_not_bad)

lemma runes_valid: "r \<in> set (runes s) \<Longrightarrow> valid_rune r"
  by (auto simp: runes_def dest: chunk_cases)

lemma valid_utf8_runes: "valid_utf8 s \<Longrightarrow> string_of_runes (runes s) = s"
proof -
  assume v: "valid_utf8 s"
  have "string_of_runes (runes s) = concat (map snd (chunks s))"
    unfolding string_of_runes_def runes_def map_map
    by (rule arg_cong [where f = concat], rule map_cong)
       (use v chunk_cases in \<open>fastforce simp: valid_utf8_def list_all_iff\<close>)+
  then show ?thesis by simp
qed

lemma runes_string_of_runes: "\<forall>r \<in> set rs. valid_rune r \<Longrightarrow> runes (string_of_runes rs) = rs"
  using chunks_string_of_runes [of rs "[]"] by (simp add: runes_def o_def)

lemma valid_utf8_append:
  assumes "valid_utf8 s" and "valid_utf8 t"
  shows "valid_utf8 (s @ t)"
proof -
  have "s @ t = string_of_runes (runes s @ runes t)"
    using assms [THEN valid_utf8_runes] by (simp add: string_of_runes_def)
  then show ?thesis
    by (metis valid_utf8_string_of_runes runes_valid set_append Un_iff)
qed

lemma chunks_append_valid:
  assumes "valid_utf8 s"
  shows "chunks (s @ t) = chunks s @ chunks t"
proof -
  have v: "\<forall>r \<in> set (runes s). valid_rune r" using runes_valid by blast
  have s: "string_of_runes (runes s) = s" by (rule valid_utf8_runes [OF assms])
  show ?thesis
    using chunks_string_of_runes [OF v, of t] chunks_string_of_runes [OF v, of "[]"] by (simp add: s)
qed

lemma valid_utf8_Nil [simp]: "valid_utf8 []"
  by (simp add: valid_utf8_def)

lemma valid_utf8_Cons_ascii [simp]: "byte c < 128 \<Longrightarrow> valid_utf8 (c # s) = valid_utf8 s"
  by (auto simp: valid_utf8_def bad_chunk_def rune_error_def)

lemma valid_utf8_ascii: "list_all (\<lambda>c. byte c < 128) s \<Longrightarrow> valid_utf8 s"
  by (induction s) auto

text \<open>An ASCII byte is a boundary: no rune is decoded across it.\<close>

lemma ascii_not_cont: "byte d < 128 \<Longrightarrow> \<not> cont_byte d \<and> \<not> second_ok b d"
  by (simp add: cont_byte_def second_ok_def)

lemma decode_before_ascii:
  assumes "byte d < 128" and "p \<noteq> []"
  shows "decode_rune (p @ d # q) = decode_rune p"
proof (cases p)
  case (Cons c p1)
  note stop = ascii_not_cont [OF assms(1)]
  show ?thesis
  proof (cases p1)
    case Nil
    then show ?thesis using stop by (simp add: Cons decode_rune.simps(2) Let_def)
  next
    case c1: (Cons c1 p2)
    show ?thesis
    proof (cases p2)
      case Nil
      then show ?thesis using stop by (simp add: Cons c1 decode_rune.simps(2) Let_def)
    next
      case c2: (Cons c2 p3)
      then show ?thesis using stop by (cases p3) (simp_all add: Cons c1 decode_rune.simps(2) Let_def)
    qed
  qed
qed (use assms in simp)

lemma chunks_at_ascii: "byte d < 128 \<Longrightarrow> chunks (p @ d # q) = chunks p @ (byte d, [d]) # chunks q"
proof (induction p rule: chunks.induct)
  case (1 p)
  show ?case
  proof (cases "p = []")
    case False
    have n: "snd (decode_rune p) \<le> length p" using decode_rune_size [OF False] by simp
    have "chunks (p @ d # q) = (fst (decode_rune p), take (snd (decode_rune p)) p)
        # chunks (drop (snd (decode_rune p)) p @ d # q)"
      using n False "1.prems" by (subst chunks_decode) (simp_all add: decode_before_ascii)
    then show ?thesis using "1.IH" [OF False] "1.prems" False by (simp add: chunks_decode [of p])
  qed (use "1.prems" in simp)
qed

lemma valid_utf8_at_ascii: "byte d < 128 \<Longrightarrow> valid_utf8 (p @ d # q) \<longleftrightarrow> valid_utf8 p \<and> valid_utf8 q"
  by (auto simp: valid_utf8_def chunks_at_ascii bad_chunk_def rune_error_def)

section \<open>Rune classes\<close>

text \<open>\<open>unicode.IsSpace\<close>, \<open>unicode.IsControl\<close>, and the categories Cf, Zl and Zp.\<close>

definition rune_is_space :: "nat \<Rightarrow> bool" where
  "rune_is_space r \<longleftrightarrow> 9 \<le> r \<and> r \<le> 13 \<or> r = 32 \<or> r = 133 \<or> r = 160 \<or> r = 5760
     \<or> 8192 \<le> r \<and> r \<le> 8202 \<or> r = 8232 \<or> r = 8233 \<or> r = 8239 \<or> r = 8287 \<or> r = 12288"

definition rune_is_control :: "nat \<Rightarrow> bool" where
  "rune_is_control r \<longleftrightarrow> r < 32 \<or> 127 \<le> r \<and> r < 160"

text \<open>
  What larger tables of the package \<open>unicode\<close> say, fixed by the Go release:
  \<open>strconv.IsPrint\<close>, the equivalence of runes under simple folding that
  \<open>strings.EqualFold\<close> uses, \<open>unicode.ToLower\<close>, and membership in category Cf.
  The package documents them on ASCII, which is \<open>ascii_tables\<close>.
\<close>

record unicode_tables =
  is_print :: "nat \<Rightarrow> bool"
  fold_eq :: "nat \<Rightarrow> nat \<Rightarrow> bool"
  to_lower :: "nat \<Rightarrow> nat"
  is_format :: "nat \<Rightarrow> bool"

definition ascii_lower :: "nat \<Rightarrow> nat" where
  "ascii_lower r = (if 65 \<le> r \<and> r \<le> 90 then r + 32 else r)"

definition ascii_tables :: "unicode_tables \<Rightarrow> bool" where
  "ascii_tables u \<longleftrightarrow>
     (\<forall>r < 128. is_print u r = (32 \<le> r \<and> r < 127))
   \<and> (\<forall>r < 128. \<forall>q < 128. fold_eq u r q = (ascii_lower r = ascii_lower q))
   \<and> (\<forall>r < 128. to_lower u r = ascii_lower r)
   \<and> (\<forall>r < 128. \<not> is_format u r)"

text \<open>Tables that know ASCII only: every rune beyond it is unprintable and folds to itself.\<close>

definition ascii_only_tables :: unicode_tables where
  "ascii_only_tables = \<lparr>is_print = (\<lambda>r. 32 \<le> r \<and> r < 127),
     fold_eq = (\<lambda>r q. ascii_lower r = ascii_lower q), to_lower = ascii_lower,
     is_format = (\<lambda>r. False)\<rparr>"

lemma ascii_only_tables_ok: "ascii_tables ascii_only_tables"
  by (simp add: ascii_tables_def ascii_only_tables_def)

end
