(* ===== verification/Types.thy ===== *)
theory Types
  imports Utf8
begin

text \<open>
  The types the components exchange: a field's source, kind and diagnostic
  context (\<open>policy.go\<close>), and the error codes and error values (\<open>errors.go\<close>).
  A nil error is \<open>None\<close>; the sentinel an error wraps is its code.
\<close>

section \<open>Fields\<close>

datatype source =
    SourceUnknown | SourceAny | SourceMap | SourceStruct | SourceJSON | SourceHeader
  | SourceURLQuery | SourceURLUserInfo | SourceURLFragment | SourceText

datatype value_kind =
    KindInvalid | KindNil | KindString | KindBool | KindNumber | KindObject | KindArray

record field =
  f_key :: bytes
  f_path :: bytes
  f_source :: source
  f_kind :: value_kind

text \<open>\<open>Field{...}\<close> with the fields that are not named left at their zero value.\<close>

definition zero_field :: field where
  "zero_field = \<lparr>f_key = [], f_path = [], f_source = SourceUnknown, f_kind = KindInvalid\<rparr>"

section \<open>Errors\<close>

datatype error_code =
    CodeInvalidConfig | CodeInvalidJSON | CodeInvalidUTF8 | CodeInputLimit | CodeDepthLimit
  | CodeNodeLimit | CodeCycle | CodeUnsupportedType | CodeUnsupportedKey | CodeFieldConflict
  | CodePolicyFailure | CodeRuleFailure | CodePanic

record mask_error =
  e_code :: error_code
  e_operation :: bytes
  e_path :: bytes
  e_field :: bytes
  e_conflicting :: bytes
  e_depth :: int
  e_rule :: bytes

text \<open>
  The errors an operation returns: a plain error that wraps a sentinel
  (\<open>fmt.Errorf("%w: ...")\<close>), one failure, or the aggregate of a walk.
\<close>

datatype go_error =
    Wrapped error_code
  | MaskError mask_error
  | MaskErrors "mask_error list"

text \<open>The outcome of a call into user code that must not panic past its caller.\<close>

datatype callback_error = CallbackFailed | CallbackPanicked

text \<open>The code a failed callback is reported under, given the code of a plain failure.\<close>

definition callback_code :: "error_code \<Rightarrow> callback_error \<Rightarrow> error_code" where
  "callback_code plain e = (if e = CallbackPanicked then CodePanic else plain)"

section \<open>The marker of the package\<close>

definition default_redaction_marker :: bytes where
  "default_redaction_marker = ''[REDACTED]''"

end
