(* ===== verification/JsonEncode.thy ===== *)
theory JsonEncode
  imports Types
begin

text \<open>
  \<open>json_encode.go\<close>: writing a JSON string and checking a JSON number; and the
  one call into \<open>encoding/json\<close> the scanners make, \<open>json.Unmarshal\<close> of a string
  token, as \<^verbatim>\<open>unquote\<close> does it: escapes are decoded, an unpaired surrogate and an
  invalid byte become U+FFFD, and a raw quote or control byte is an error.
  Decoding is a left inverse of encoding on valid UTF-8.
\<close>

abbreviation quote_char :: char where "quote_char \<equiv> CHR 0x22"
abbreviation backslash :: char where "backslash \<equiv> CHR 0x5C"

section \<open>Writing a string\<close>

definition json_hex :: "nat \<Rightarrow> char" where
  "json_hex n = ''0123456789abcdef'' ! n"

text \<open>The ASCII bytes \<open>appendJSONString\<close> copies as they are.\<close>

definition json_plain :: "char \<Rightarrow> bool" where
  "json_plain c \<longleftrightarrow> c \<ge> CHR 0x20 \<and> c \<noteq> backslash \<and> c \<noteq> quote_char
     \<and> c \<noteq> CHR ''<'' \<and> c \<noteq> CHR ''>'' \<and> c \<noteq> CHR ''&''"

definition json_escape_ascii :: "char \<Rightarrow> bytes" where
  "json_escape_ascii c =
     (if c = backslash \<or> c = quote_char then [backslash, c]
      else if c = CHR 0x08 then backslash # ''b''
      else if c = CHR 0x0C then backslash # ''f''
      else if c = CHR 0x0A then backslash # ''n''
      else if c = CHR 0x0D then backslash # ''r''
      else if c = CHR 0x09 then backslash # ''t''
      else backslash # ''u00'' @ [json_hex (byte c div 16), json_hex (byte c mod 16)])"

text \<open>
  The loop of \<open>appendJSONString\<close>.  The code copies the bytes between two escapes
  in one piece; here they are copied one rune at a time.
\<close>

function escape_json :: "bytes \<Rightarrow> bytes" where
  "escape_json [] = []"
| "escape_json (c # cs) =
     (if byte c < 128 then
        (if json_plain c then c # escape_json cs else json_escape_ascii c @ escape_json cs)
      else (let r = fst (decode_rune (c # cs)); n = snd (decode_rune (c # cs)) in
        if r = rune_error \<and> n = 1 then backslash # ''ufffd'' @ escape_json cs
        else if r = 8232 \<or> r = 8233 then
          backslash # ''u202'' @ [json_hex (r mod 16)] @ escape_json (drop n (c # cs))
        else take n (c # cs) @ escape_json (drop n (c # cs))))"
  by pat_completeness auto
termination
  by (relation "measure length") (auto simp: diff_less)

definition append_json_string :: "bytes \<Rightarrow> bytes \<Rightarrow> bytes" where
  "append_json_string dst src = dst @ quote_char # escape_json src @ [quote_char]"

text \<open>\<open>json.Marshal\<close> of a string, which writes it the same way.\<close>

definition json_marshal_string :: "bytes \<Rightarrow> bytes" where
  "json_marshal_string s = append_json_string [] s"

section \<open>Reading a string token\<close>

fun hex4 :: "bytes \<Rightarrow> (nat \<times> bytes) option" where
  "hex4 (a # b # c # d # cs) =
     (case (hex_value a, hex_value b, hex_value c, hex_value d) of
        (Some w, Some x, Some y, Some z) \<Rightarrow> Some (((w * 16 + x) * 16 + y) * 16 + z, cs)
      | _ \<Rightarrow> None)"
| "hex4 _ = None"

definition simple_escape :: "char \<Rightarrow> char option" where
  "simple_escape e =
     (if e = quote_char \<or> e = backslash \<or> e = CHR ''/'' then Some e
      else if e = CHR ''b'' then Some (CHR 0x08)
      else if e = CHR ''f'' then Some (CHR 0x0C)
      else if e = CHR ''n'' then Some (CHR 0x0A)
      else if e = CHR ''r'' then Some (CHR 0x0D)
      else if e = CHR ''t'' then Some (CHR 0x09)
      else None)"

text \<open>The low surrogate after a high one, as \<open>\uXXXX\<close>: the rune of the pair and the rest.\<close>

fun surrogate_pair :: "nat \<Rightarrow> bytes \<Rightarrow> (nat \<times> bytes) option" where
  "surrogate_pair hi (b # u # cs) =
     (if b = backslash \<and> u = CHR ''u'' then
        (case hex4 cs of
           Some (lo, rest) \<Rightarrow>
             if 55296 \<le> hi \<and> hi < 56320 \<and> 56320 \<le> lo \<and> lo < 57344
             then Some ((hi - 55296) * 1024 + (lo - 56320) + 65536, rest) else None
         | None \<Rightarrow> None)
      else None)"
| "surrogate_pair hi _ = None"

lemma hex4_shorter: "hex4 s = Some (n, r) \<Longrightarrow> length r < length s"
  by (induction s rule: hex4.induct) (auto split: option.splits)

lemma surrogate_pair_shorter: "surrogate_pair hi s = Some (n, r) \<Longrightarrow> length r < length s"
  by (induction hi s rule: surrogate_pair.induct)
     (auto split: option.splits if_splits dest: hex4_shorter)

text \<open>The bytes between the quotes of a token, decoded; \<open>None\<close> is an error.\<close>

function unquote_body :: "bytes \<Rightarrow> bytes option" where
  "unquote_body [] = Some []"
| "unquote_body (c # cs) =
     (if c = backslash then
        (case cs of
           [] \<Rightarrow> None
         | e # rest \<Rightarrow>
             if e = CHR ''u'' then
               (case hex4 rest of
                  None \<Rightarrow> None
                | Some (r, rest') \<Rightarrow>
                    if 55296 \<le> r \<and> r < 57344 then
                      (case surrogate_pair r rest' of
                         Some (p, rest'') \<Rightarrow> map_option ((@) (encode_rune p)) (unquote_body rest'')
                       | None \<Rightarrow> map_option ((@) (encode_rune rune_error)) (unquote_body rest'))
                    else map_option ((@) (encode_rune r)) (unquote_body rest'))
             else (case simple_escape e of
                     None \<Rightarrow> None
                   | Some d \<Rightarrow> map_option ((#) d) (unquote_body rest)))
      else if c = quote_char \<or> c < CHR 0x20 then None
      else if byte c < 128 then map_option ((#) c) (unquote_body cs)
      else map_option ((@) (encode_rune (fst (decode_rune (c # cs)))))
             (unquote_body (drop (snd (decode_rune (c # cs))) (c # cs))))"
  by pat_completeness auto
termination
  by (relation "measure length")
     (auto simp: diff_less dest!: hex4_shorter surrogate_pair_shorter)

declare unquote_body.simps(2) [simp del] escape_json.simps(2) [simp del]

definition unmarshal_string :: "bytes \<Rightarrow> bytes option" where
  "unmarshal_string token =
     (if length token < 2 \<or> token ! 0 \<noteq> quote_char \<or> token ! (length token - 1) \<noteq> quote_char
      then None else unquote_body (slice token 1 (length token - 1)))"

text \<open>A complete, well-formed string token.\<close>

definition string_token :: "bytes \<Rightarrow> bool" where
  "string_token t \<longleftrightarrow> unmarshal_string t \<noteq> None"

lemma unmarshal_quoted: "unmarshal_string (quote_char # b @ [quote_char]) = unquote_body b"
  by (simp add: unmarshal_string_def slice_def nth_append)

lemma unmarshal_string_Some:
  assumes "unmarshal_string t = Some d"
  obtains b where "t = quote_char # b @ [quote_char]" and "unquote_body b = Some d"
proof -
  from assms have t: "2 \<le> length t" "t ! 0 = quote_char" "t ! (length t - 1) = quote_char"
    "unquote_body (slice t 1 (length t - 1)) = Some d"
    by (auto simp: unmarshal_string_def split: if_splits)
  then obtain x u where u: "t = x # u" "u \<noteq> []" by (cases t) (auto simp: Suc_le_length_iff)
  then obtain b y where b: "u = b @ [y]" by (metis rev_exhaust)
  with t u have "t = quote_char # b @ [quote_char]" by (simp add: nth_append)
  with t that show thesis by (simp add: slice_def)
qed

section \<open>Decoding inverts encoding\<close>

lemma json_hex_value: "n < 16 \<Longrightarrow> hex_value (json_hex n) = Some n"
proof -
  assume "n < 16"
  moreover have "\<forall>n \<in> set [0..<16]. hex_value (json_hex n) = Some n" by code_simp
  ultimately show ?thesis by simp
qed

lemma unquote_escape_u:
  "hex4 ds = Some (r, rest) \<Longrightarrow> \<not> (55296 \<le> r \<and> r < 57344)
    \<Longrightarrow> unquote_body (backslash # CHR ''u'' # ds) = map_option ((@) (encode_rune r)) (unquote_body rest)"
  by (auto simp: unquote_body.simps(2))

lemma append_Cons_fun: "(@) [c] = (#) c"
  by (rule ext) simp

lemma unquote_json_escape_ascii:
  assumes "byte c < 128" and "\<not> json_plain c"
  shows "unquote_body (json_escape_ascii c @ s) = map_option ((#) c) (unquote_body s)"
proof (cases "c \<in> {backslash, quote_char, CHR 0x08, CHR 0x0C, CHR 0x0A, CHR 0x0D, CHR 0x09}")
  case True
  then show ?thesis
    by (auto simp: json_escape_ascii_def unquote_body.simps(2) simple_escape_def)
next
  case False
  have "hex4 (CHR ''0'' # CHR ''0'' # json_hex (byte c div 16) # json_hex (byte c mod 16) # s)
      = Some (byte c, s)"
    using assms(1) by (simp add: json_hex_value) (simp add: hex_value_def)
  from unquote_escape_u [OF this] show ?thesis
    using False assms(1) by (simp add: json_escape_ascii_def encode_ascii append_Cons_fun)
qed

lemma unquote_plain: "byte c < 128 \<Longrightarrow> json_plain c
    \<Longrightarrow> unquote_body (c # s) = map_option ((#) c) (unquote_body s)"
  by (auto simp: unquote_body.simps(2) json_plain_def)

lemma not_ascii_not_special: "\<not> byte c < 128 \<Longrightarrow> c \<noteq> backslash \<and> c \<noteq> quote_char \<and> \<not> c < CHR 0x20"
  by (auto simp: char_less_byte)

lemma unquote_multibyte:
  "\<not> byte c < 128 \<Longrightarrow> decode_rune (c # cs) = (r, n)
    \<Longrightarrow> unquote_body (c # cs) = map_option ((@) (encode_rune r)) (unquote_body (drop n (c # cs)))"
  using not_ascii_not_special [of c] by (simp add: unquote_body.simps(2))

text \<open>What decoding returns for any bytes: the string with invalid bytes replaced.\<close>

lemma unquote_escape_json: "unquote_body (escape_json s) = Some (string_of_runes (runes s))"
proof (induction s rule: escape_json.induct)
  case 1
  then show ?case by (simp add: runes_def string_of_runes_def)
next
  case (2 c cs)
  define r n where "r = fst (decode_rune (c # cs))" and "n = snd (decode_rune (c # cs))"
  have dec: "decode_rune (c # cs) = (r, n)" by (simp add: r_def n_def)
  have runes: "string_of_runes (runes (c # cs))
      = encode_rune r @ string_of_runes (runes (drop n (c # cs)))"
    by (simp add: runes_def string_of_runes_def chunks_decode dec)
  consider "byte c < 128" | "\<not> byte c < 128" "r = rune_error" "n = 1"
    | "\<not> byte c < 128" "\<not> (r = rune_error \<and> n = 1)" "r = 8232 \<or> r = 8233"
    | "\<not> byte c < 128" "\<not> (r = rune_error \<and> n = 1)" "r \<noteq> 8232" "r \<noteq> 8233"
    by blast
  then show ?case
  proof cases
    case 1
    then have "string_of_runes (runes (c # cs)) = c # string_of_runes (runes cs)"
      by (simp add: runes_def string_of_runes_def encode_ascii)
    with 1 2 show ?thesis
      by (cases "json_plain c") (simp_all add: escape_json.simps(2) unquote_plain unquote_json_escape_ascii)
  next
    case 2
    have "hex4 (''fffd'' @ escape_json cs) = Some (rune_error, escape_json cs)"
      by (simp add: hex_value_def rune_error_def)
    from unquote_escape_u [OF this] 2 "2.IH"(3) [OF _ refl refl] dec runes show ?thesis
      by (simp add: escape_json.simps(2) rune_error_def)
  next
    case 3
    have esc: "escape_json (c # cs)
        = backslash # ''u202'' @ [json_hex (r mod 16)] @ escape_json (drop n (c # cs))"
      using 3 by (simp add: escape_json.simps(2) dec Let_def)
    have ih: "unquote_body (escape_json (drop n (c # cs))) = Some (string_of_runes (runes (drop n (c # cs))))"
      using "2.IH"(4) [OF 3(1) r_def n_def 3(2,3)] .
    have h: "hex4 (''202'' @ json_hex (r mod 16) # escape_json (drop n (c # cs)))
        = Some (r, escape_json (drop n (c # cs)))"
      using 3(3) by (elim disjE) (simp_all add: hex_value_def json_hex_def)
    have "\<not> (55296 \<le> r \<and> r < 57344)" using 3(3) by auto
    from unquote_escape_u [OF h this] show ?thesis
      by (simp only: esc runes ih append_Cons append_Nil option.map)
  next
    case 4
    have enc: "encode_rune r = take n (c # cs)"
      using 4(2) by (intro encode_rune_decode [OF dec]) simp_all
    have "valid_rune r" using decode_valid_rune [of "c # cs"] dec by simp
    moreover obtain n' where n': "n = Suc n'"
      using decode_rune_progress [of c cs] dec by (cases n) auto
    ultimately have dec': "decode_rune (c # take n' cs @ t) = (r, n)" for t
      using decode_encode_rune [of r t] decode_rune_size [of "c # cs"] by (simp add: enc dec)
    have "unquote_body (take n (c # cs) @ t) = map_option ((@) (encode_rune r)) (unquote_body t)" for t
      using unquote_multibyte [OF 4(1) dec'] decode_rune_size [of "c # cs"] by (simp add: n' dec)
    moreover have "escape_json (c # cs) = take n (c # cs) @ escape_json (drop n (c # cs))"
      using 4 by (simp add: escape_json.simps(2) dec Let_def)
    moreover have "unquote_body (escape_json (drop n (c # cs))) = Some (string_of_runes (runes (drop n (c # cs))))"
      using "2.IH"(5) [OF 4(1) r_def n_def 4(2)] 4(3,4) by simp
    ultimately show ?thesis by (simp only: runes option.map)
  qed
qed

section \<open>What an encoded string is made of\<close>

lemma json_hex_bytes: "n < 16 \<Longrightarrow> json_plain (json_hex n) \<and> byte (json_hex n) < 128"
proof -
  assume "n < 16"
  moreover have "\<forall>n \<in> set [0..<16]. json_plain (json_hex n) \<and> byte (json_hex n) < 128" by code_simp
  ultimately show ?thesis by simp
qed

text \<open>
  The output is built of pieces that are a plain byte, a multi-byte rune other
  than U+2028 and U+2029, or an escape sequence: the shape the rules below are
  proved on.
\<close>

definition escape_piece :: "bytes \<Rightarrow> bool" where
  "escape_piece p \<longleftrightarrow>
     (\<exists>c. p = [c] \<and> byte c < 128 \<and> json_plain c)
   \<or> (\<exists>r. p = encode_rune r \<and> valid_rune r \<and> 128 \<le> r \<and> r \<noteq> 8232 \<and> r \<noteq> 8233)
   \<or> (\<exists>e. p = [backslash, e] \<and> byte e < 128 \<and> simple_escape e \<noteq> None)
   \<or> (\<exists>x y z w. p = backslash # CHR ''u'' # [json_hex x, json_hex y, json_hex z, json_hex w]
        \<and> x < 16 \<and> y < 16 \<and> z < 16 \<and> w < 16)"

lemma escape_piece_ascii:
  assumes "byte c < 128" and "\<not> json_plain c"
  shows "escape_piece (json_escape_ascii c)"
proof (cases "c \<in> {backslash, quote_char, CHR 0x08, CHR 0x0C, CHR 0x0A, CHR 0x0D, CHR 0x09}")
  case True
  then have "\<exists>e. json_escape_ascii c = [backslash, e] \<and> byte e < 128 \<and> simple_escape e \<noteq> None"
    by (auto simp: json_escape_ascii_def simple_escape_def)
  then show ?thesis by (simp add: escape_piece_def)
next
  case False
  have "json_escape_ascii c
      = backslash # CHR ''u'' # [json_hex 0, json_hex 0, json_hex (byte c div 16), json_hex (byte c mod 16)]"
    using False by (simp add: json_escape_ascii_def json_hex_def)
  then show ?thesis unfolding escape_piece_def
    by (intro disjI2 exI [of _ 0] exI [of _ "byte c div 16"] exI [of _ "byte c mod 16"])
       (use assms(1) in auto)
qed

lemma escape_json_pieces: "\<exists>ps. escape_json s = concat ps \<and> list_all escape_piece ps"
proof (induction s rule: escape_json.induct)
  case 1
  show ?case by (rule exI [of _ "[]"]) simp
next
  case (2 c cs)
  define r n where "r = fst (decode_rune (c # cs))" and "n = snd (decode_rune (c # cs))"
  have dec: "decode_rune (c # cs) = (r, n)" by (simp add: r_def n_def)
  have step: "\<exists>ps. p @ t = concat ps \<and> list_all escape_piece ps"
    if "escape_piece p" "\<exists>ps. t = concat ps \<and> list_all escape_piece ps" for p t
  proof -
    from that(2) obtain ps where "t = concat ps" "list_all escape_piece ps" by blast
    with that(1) show ?thesis by (intro exI [of _ "p # ps"]) simp
  qed
  consider "byte c < 128" "json_plain c" | "byte c < 128" "\<not> json_plain c"
    | "\<not> byte c < 128" "r = rune_error" "n = 1"
    | "\<not> byte c < 128" "\<not> (r = rune_error \<and> n = 1)" "r = 8232 \<or> r = 8233"
    | "\<not> byte c < 128" "\<not> (r = rune_error \<and> n = 1)" "r \<noteq> 8232" "r \<noteq> 8233"
    by blast
  then show ?case
  proof cases
    case 1
    then have "escape_piece [c]" by (simp add: escape_piece_def)
    from step [OF this "2.IH"(1) [OF 1]] 1 show ?thesis by (simp add: escape_json.simps(2))
  next
    case 2
    from step [OF escape_piece_ascii [OF 2] "2.IH"(2) [OF 2]] 2
    show ?thesis by (simp add: escape_json.simps(2))
  next
    case 3
    have "escape_piece (backslash # ''ufffd'')"
      unfolding escape_piece_def
      by (intro disjI2 exI [of _ 15] exI [of _ 13]) (simp add: json_hex_def)
    from step [OF this "2.IH"(3) [OF 3(1) r_def n_def]] 3 show ?thesis
      by (simp add: escape_json.simps(2) dec)
  next
    case 4
    have "escape_piece (backslash # ''u202'' @ [json_hex (r mod 16)])"
      unfolding escape_piece_def
      by (intro disjI2 exI [of _ 2] exI [of _ 0] exI [of _ "r mod 16"]) (simp add: json_hex_def)
    from step [OF this "2.IH"(4) [OF 4(1) r_def n_def 4(2,3)]] 4 show ?thesis
      by (auto simp: escape_json.simps(2) dec)
  next
    case 5
    have "128 \<le> r" using decode_not_ascii [of c cs] 5(1) dec by simp
    moreover have "take n (c # cs) = encode_rune r"
      using encode_rune_decode [OF dec] 5(2) by simp
    moreover have "valid_rune r" using decode_valid_rune [of "c # cs"] dec by simp
    ultimately have "escape_piece (take n (c # cs))" using 5 by (auto simp: escape_piece_def)
    from step [OF this "2.IH"(5) [OF 5(1) r_def n_def 5(2)]] 5 show ?thesis
      by (auto simp: escape_json.simps(2) dec)
  qed
qed

text \<open>No piece holds a control byte, a raw quote, or one of the HTML bytes.\<close>

lemma encode_rune_bytes:
  "valid_rune r \<Longrightarrow> 128 \<le> r \<Longrightarrow> b \<in> set (encode_rune r) \<Longrightarrow> \<not> byte b < 128"
proof -
  assume r: "valid_rune r" "128 \<le> r" and b: "b \<in> set (encode_rune r)"
  then obtain c cs where e: "encode_rune r = c # cs" by (cases "encode_rune r") auto
  have d: "decode_rune (c # cs) = (r, length (c # cs))"
    using decode_encode_rune [OF r(1), of "[]"] by (simp add: e)
  have "\<not> byte c < 128" using d r(2) by auto
  from decode_multibyte_bytes [OF d this] b show ?thesis by (simp add: e)
qed

lemma escape_piece_bytes:
  assumes "escape_piece p" and "b \<in> set p"
  shows "\<not> b < CHR 0x20 \<and> b \<noteq> CHR ''<'' \<and> b \<noteq> CHR ''>'' \<and> b \<noteq> CHR ''&''"
  using assms(1) unfolding escape_piece_def
proof (elim disjE exE conjE)
  fix r assume "p = encode_rune r" "valid_rune r" "128 \<le> r"
  then have "\<not> byte b < 128" using encode_rune_bytes assms(2) by blast
  then show ?thesis by (auto simp: char_less_byte char_eq_byte)
next
  fix x y z w
  assume "p = backslash # CHR ''u'' # [json_hex x, json_hex y, json_hex z, json_hex w]"
    "x < 16" "y < 16" "z < 16" "w < 16"
  then show ?thesis using assms(2) json_hex_bytes by (auto simp: json_plain_def not_less)
qed (use assms(2) in \<open>auto simp: json_plain_def simple_escape_def split: if_splits\<close>)

lemma escape_json_bytes:
  "b \<in> set (escape_json s) \<Longrightarrow> \<not> b < CHR 0x20 \<and> b \<noteq> CHR ''<'' \<and> b \<noteq> CHR ''>'' \<and> b \<noteq> CHR ''&''"
  using escape_json_pieces [of s] escape_piece_bytes by (fastforce simp: list_all_iff)

lemma escape_piece_valid_utf8: "escape_piece p \<Longrightarrow> valid_utf8 p"
  unfolding escape_piece_def
proof (elim disjE exE conjE)
  fix r assume "p = encode_rune r" "valid_rune r"
  then show ?thesis using valid_utf8_string_of_runes [of "[r]"] by (simp add: string_of_runes_def)
qed (auto simp: json_hex_bytes)

lemma valid_utf8_concat: "list_all valid_utf8 ps \<Longrightarrow> valid_utf8 (concat ps)"
  by (induction ps) (auto intro: valid_utf8_append)

lemma escape_json_valid_utf8: "valid_utf8 (escape_json s)"
  using escape_json_pieces [of s]
  by (metis (mono_tags, lifting) escape_piece_valid_utf8 list_all_iff valid_utf8_concat)

lemma append_json_string_token: "string_token (append_json_string [] s)"
  by (simp add: string_token_def append_json_string_def unmarshal_quoted unquote_escape_json)

section \<open>JSON numbers\<close>

definition json_digit :: "char \<Rightarrow> bool" where
  "json_digit c \<longleftrightarrow> within CHR ''0'' CHR ''9'' c"

text \<open>
  The stages of \<open>validJSONNumber\<close>: each takes the rest of the number and cuts its
  part off the front; \<open>None\<close> is \<open>return false\<close>.
\<close>

fun number_sign :: "bytes \<Rightarrow> bytes" where
  "number_sign (c # cs) = (if c = CHR ''-'' then cs else c # cs)"
| "number_sign [] = []"

fun number_int :: "bytes \<Rightarrow> bytes option" where
  "number_int (c # cs) =
     (if c = CHR ''0'' then Some cs
      else if within CHR ''1'' CHR ''9'' c then Some (dropWhile json_digit cs)
      else None)"
| "number_int [] = None"

fun number_frac :: "bytes \<Rightarrow> bytes" where
  "number_frac (a # b # cs) =
     (if a = CHR ''.'' \<and> json_digit b then dropWhile json_digit cs else a # b # cs)"
| "number_frac s = s"

fun number_exp :: "bytes \<Rightarrow> bytes option" where
  "number_exp (a # b # cs) =
     (if a = CHR ''e'' \<or> a = CHR ''E'' then
        (if b = CHR ''+'' \<or> b = CHR ''-'' then
           (if cs = [] then None else Some (dropWhile json_digit cs))
         else Some (dropWhile json_digit (b # cs)))
      else Some (a # b # cs))"
| "number_exp s = Some s"

definition valid_json_number :: "bytes \<Rightarrow> bool" where
  "valid_json_number number =
     (if number = [] then False
      else case number_int (number_sign number) of
        None \<Rightarrow> False
      | Some rest \<Rightarrow> (case number_exp (number_frac rest) of
            None \<Rightarrow> False
          | Some end \<Rightarrow> end = []))"

text \<open>The grammar of RFC 8259: an integer part, an optional fraction and an optional exponent.\<close>

definition json_digits :: "bytes \<Rightarrow> bool" where
  "json_digits ds \<longleftrightarrow> ds \<noteq> [] \<and> list_all json_digit ds"

definition int_part :: "bytes \<Rightarrow> bool" where
  "int_part i \<longleftrightarrow> i = ''0'' \<or> (\<exists>d ds. i = d # ds \<and> CHR ''1'' \<le> d \<and> d \<le> CHR ''9'' \<and> list_all json_digit ds)"

definition frac_part :: "bytes \<Rightarrow> bool" where
  "frac_part f \<longleftrightarrow> f = [] \<or> (\<exists>ds. f = CHR ''.'' # ds \<and> json_digits ds)"

definition exp_part :: "bytes \<Rightarrow> bool" where
  "exp_part x \<longleftrightarrow> x = [] \<or> (\<exists>e sg ds. x = e # sg @ ds \<and> (e = CHR ''e'' \<or> e = CHR ''E'')
     \<and> (sg = [] \<or> sg = ''+'' \<or> sg = ''-'') \<and> json_digits ds)"

definition json_number_grammar :: "bytes \<Rightarrow> bool" where
  "json_number_grammar s \<longleftrightarrow> (\<exists>sg i f x. s = sg @ i @ f @ x \<and> (sg = [] \<or> sg = ''-'')
     \<and> int_part i \<and> frac_part f \<and> exp_part x)"

lemma dropWhile_digits:
  assumes "list_all json_digit ds" and "rest = [] \<or> \<not> json_digit (hd rest)"
  shows "dropWhile json_digit (ds @ rest) = rest"
  using assms by (induction ds) (cases rest, auto)

lemma digits_before:
  obtains ds where "s = ds @ dropWhile json_digit s" and "list_all json_digit ds"
  by (rule that [of "takeWhile json_digit s"]) (auto simp: list_all_iff dest: set_takeWhileD)

lemma part_heads:
  "frac_part f \<Longrightarrow> f = [] \<or> hd f = CHR ''.''" "exp_part x \<Longrightarrow> x = [] \<or> hd x = CHR ''e'' \<or> hd x = CHR ''E''"
  by (auto simp: frac_part_def exp_part_def)

lemma number_int_grammar: "number_int s = Some r \<Longrightarrow> \<exists>i. s = i @ r \<and> int_part i"
proof (cases s)
  case (Cons c cs)
  obtain ds where "cs = ds @ dropWhile json_digit cs" "list_all json_digit ds" by (rule digits_before)
  moreover assume "number_int s = Some r"
  ultimately show ?thesis unfolding Cons int_part_def by (auto split: if_splits)
qed simp

lemma grammar_number_int:
  assumes "int_part i" and "r = [] \<or> \<not> json_digit (hd r)"
  shows "number_int (i @ r) = Some r"
  using assms(1) dropWhile_digits [OF _ assms(2)] unfolding int_part_def
  by (auto simp del: dropWhile.simps)

lemma number_frac_grammar: "\<exists>f. s = f @ number_frac s \<and> frac_part f"
proof (cases s rule: number_frac.cases)
  case (1 a b cs)
  obtain ds where "cs = ds @ dropWhile json_digit cs" "list_all json_digit ds" by (rule digits_before)
  note ds = this
  show ?thesis
  proof (cases "a = CHR ''.'' \<and> json_digit b")
    case True
    have "s = (CHR ''.'' # b # ds) @ number_frac s" using True ds(1) by (simp add: 1)
    moreover have "frac_part (CHR ''.'' # b # ds)"
      using True ds(2) by (simp add: frac_part_def json_digits_def)
    ultimately show ?thesis by blast
  next
    case False
    then show ?thesis by (auto simp: 1 frac_part_def)
  qed
qed (auto simp: frac_part_def)

lemma grammar_number_frac:
  assumes "frac_part f" and "x = [] \<or> hd x = CHR ''e'' \<or> hd x = CHR ''E''"
  shows "number_frac (f @ x) = x"
proof (cases f)
  case Nil
  then show ?thesis using assms(2) by (cases x rule: number_frac.cases) auto
next
  case (Cons a ds)
  with assms(1) obtain d ds' where f: "f = CHR ''.'' # d # ds'" "json_digit d" "list_all json_digit ds'"
    by (cases ds) (auto simp: frac_part_def json_digits_def)
  have "x = [] \<or> \<not> json_digit (hd x)" using assms(2) by (auto simp: json_digit_def)
  with f show ?thesis by (simp add: dropWhile_digits)
qed

lemma exp_part_two:
  "exp_part (a # b # cs) \<longleftrightarrow> (a = CHR ''e'' \<or> a = CHR ''E'')
     \<and> (if b = CHR ''+'' \<or> b = CHR ''-'' then json_digits cs else json_digits (b # cs))"
proof -
  have sign: "\<not> json_digit CHR ''+'' \<and> \<not> json_digit CHR ''-''" by (simp add: json_digit_def)
  have "(\<exists>sg ds. b # cs = sg @ ds \<and> (sg = [] \<or> sg = ''+'' \<or> sg = ''-'') \<and> json_digits ds)
      \<longleftrightarrow> json_digits (b # cs) \<or> (b = CHR ''+'' \<or> b = CHR ''-'') \<and> json_digits cs" (is "?l \<longleftrightarrow> ?r")
  proof
    assume ?r
    then show ?l
      by (elim disjE) (rule exI [of _ "[]"], simp, rule exI [of _ "[b]"], auto)
  qed (auto simp: Cons_eq_append_conv)
  with sign show ?thesis by (auto simp: exp_part_def json_digits_def)
qed

lemma number_exp_grammar: "number_exp s = Some [] \<longleftrightarrow> exp_part s"
proof (cases s rule: number_exp.cases)
  case (1 a b cs)
  have "dropWhile json_digit t = [] \<longleftrightarrow> list_all json_digit t" for t
    by (simp add: list_all_iff dropWhile_eq_Nil_conv)
  then show ?thesis unfolding 1 exp_part_two
    by (auto simp: json_digits_def simp del: dropWhile.simps dropWhile_eq_Nil_conv)
qed (auto simp: exp_part_def json_digits_def Cons_eq_append_conv)

lemma number_sign_grammar: "\<exists>sg. s = sg @ number_sign s \<and> (sg = [] \<or> sg = ''-'')"
  by (cases s) auto

text \<open>\<open>validJSONNumber\<close> accepts the numbers of the grammar and nothing else.\<close>

lemma valid_json_number_iff: "valid_json_number s \<longleftrightarrow> json_number_grammar s"
proof
  assume v: "valid_json_number s"
  then obtain rest where r: "number_int (number_sign s) = Some rest" "number_exp (number_frac rest) = Some []"
    by (auto simp: valid_json_number_def split: if_splits option.splits)
  obtain sg where "s = sg @ number_sign s" "sg = [] \<or> sg = ''-''" using number_sign_grammar by blast
  moreover obtain i where "number_sign s = i @ rest" "int_part i" using number_int_grammar [OF r(1)] by blast
  moreover obtain f where "rest = f @ number_frac rest" "frac_part f" using number_frac_grammar by blast
  moreover have "exp_part (number_frac rest)" using r(2) by (simp add: number_exp_grammar)
  ultimately show "json_number_grammar s" unfolding json_number_grammar_def by metis
next
  assume "json_number_grammar s"
  then obtain sg i f x where s: "s = sg @ i @ f @ x" "sg = [] \<or> sg = ''-''"
    and parts: "int_part i" "frac_part f" "exp_part x" by (auto simp: json_number_grammar_def)
  have i: "i \<noteq> []" "hd i \<noteq> CHR ''-''" using parts(1) by (auto simp: int_part_def)
  then have sign: "number_sign s = i @ f @ x" using s by (cases i) auto
  have "f @ x = [] \<or> \<not> json_digit (hd (f @ x))"
    using part_heads(1) [OF parts(2)] part_heads(2) [OF parts(3)] by (cases f) (auto simp: json_digit_def)
  from grammar_number_int [OF parts(1) this] have "number_int (number_sign s) = Some (f @ x)"
    by (simp add: sign)
  moreover have "number_frac (f @ x) = x"
    by (rule grammar_number_frac [OF parts(2) part_heads(2) [OF parts(3)]])
  moreover have "number_exp x = Some []" using parts(3) by (simp add: number_exp_grammar)
  moreover have "s \<noteq> []" using s(1) i(1) by simp
  ultimately show "valid_json_number s" by (simp add: valid_json_number_def)
qed

section \<open>Properties\<close>

text \<open>
  C16: \<open>appendJSONString\<close> writes a valid UTF-8 token that holds no control byte and
  none of the bytes HTML gives a meaning to, and decoding the token returns the
  string: unchanged when it was valid UTF-8, with U+FFFD for each bad byte otherwise.
\<close>

theorem json_string_roundtrip:
  "unmarshal_string (append_json_string [] s) = Some (if valid_utf8 s then s else string_of_runes (runes s))
    \<and> valid_utf8 (append_json_string [] s)
    \<and> list_all (\<lambda>c. \<not> c < CHR 0x20 \<and> c \<noteq> CHR ''<'' \<and> c \<noteq> CHR ''>'' \<and> c \<noteq> CHR ''&'') (append_json_string [] s)"
proof -
  have "valid_utf8 (append_json_string [] s)"
    by (simp add: append_json_string_def valid_utf8_append escape_json_valid_utf8)
  moreover have "list_all (\<lambda>c. \<not> c < CHR 0x20 \<and> c \<noteq> CHR ''<'' \<and> c \<noteq> CHR ''>'' \<and> c \<noteq> CHR ''&'')
      (append_json_string [] s)"
    using escape_json_bytes [of _ s] by (auto simp: append_json_string_def list_all_iff)
  ultimately show ?thesis
    by (simp add: append_json_string_def unmarshal_quoted unquote_escape_json valid_utf8_runes)
qed

end
