(* ===== verification/JsonLex.thy ===== *)
theory JsonLex
  imports JsonEncode
begin

text \<open>
  \<open>json_lex.go\<close> and the lexical half of \<open>json_stream.go\<close>: skipping space, finding
  the end of a string or primitive, the kind of a value by its first byte, and
  \<open>skipJSONValue\<close>, the pushdown machine that steps over one value without
  recursion.  A position \<open>-1\<close> is \<open>None\<close>.  The Go slice of frames grows at its end;
  here the top frame is the head of the list.
\<close>

section \<open>Tokens\<close>

definition json_space :: "char \<Rightarrow> bool" where
  "json_space c \<longleftrightarrow> c = CHR '' '' \<or> c = CHR 0x09 \<or> c = CHR 0x0D \<or> c = CHR 0x0A"

definition skip_json_space :: "bytes \<Rightarrow> nat \<Rightarrow> nat" where
  "skip_json_space data index = advance (\<lambda>i. json_space (data ! i)) (length data) index"

function scan_string_from :: "bytes \<Rightarrow> nat \<Rightarrow> nat" where
  "scan_string_from data index =
     (if index < length data then
        (if data ! index = backslash then scan_string_from data (index + 2)
         else if data ! index = quote_char then index + 1
         else scan_string_from data (index + 1))
      else length data)"
  by pat_completeness auto
termination
  by (relation "measure (\<lambda>(data, index). length data - index)") auto

declare scan_string_from.simps [simp del]

definition scan_json_string :: "bytes \<Rightarrow> nat \<Rightarrow> nat" where
  "scan_json_string data start = scan_string_from data (start + 1)"

definition primitive_end :: "char \<Rightarrow> bool" where
  "primitive_end c \<longleftrightarrow> json_space c \<or> c = CHR '','' \<or> c = CHR '']'' \<or> c = CHR ''}''"

definition scan_json_primitive :: "bytes \<Rightarrow> nat \<Rightarrow> nat" where
  "scan_json_primitive data start =
     min (advance (\<lambda>i. \<not> primitive_end (data ! i)) (length data) start) (length data)"

definition stream_json_kind :: "char \<Rightarrow> value_kind" where
  "stream_json_kind first =
     (if first = CHR ''{'' then KindObject
      else if first = CHR ''['' then KindArray
      else if first = quote_char then KindString
      else if first = CHR ''t'' \<or> first = CHR ''f'' then KindBool
      else if first = CHR ''n'' then KindNil
      else if first = CHR ''-'' \<or> first \<ge> CHR ''0'' \<and> first \<le> CHR ''9'' then KindNumber
      else KindInvalid)"

definition valid_stream_primitive :: "bytes \<Rightarrow> value_kind \<Rightarrow> bool" where
  "valid_stream_primitive token kind = (case kind of
       KindBool \<Rightarrow> token = ''true'' \<or> token = ''false''
     | KindNil \<Rightarrow> token = ''null''
     | KindNumber \<Rightarrow> valid_json_number token
     | _ \<Rightarrow> False)"

text \<open>The end of a scalar, \<open>0\<close> for a container; \<open>None\<close> is \<open>ok = false\<close>.\<close>

definition stream_scalar_end :: "bytes \<Rightarrow> nat \<Rightarrow> value_kind \<Rightarrow> nat option" where
  "stream_scalar_end data start kind =
     (if kind = KindString then
        (let end = scan_json_string data start in
         if end \<le> start \<or> length data < end then None else Some end)
      else if kind = KindBool \<or> kind = KindNumber \<or> kind = KindNil then
        (let end = scan_json_primitive data start in
         if end \<le> start \<or> length data < end \<or> \<not> valid_stream_primitive (slice data start end) kind
         then None else Some end)
      else Some 0)"

text \<open>
  \<open>scanJSONStringToken\<close>.  Its loop looks for the first control byte or backslash:
  a control byte rejects the token, a backslash has the whole token decoded.
\<close>

definition scan_json_string_token :: "bytes \<Rightarrow> nat \<Rightarrow> nat option" where
  "scan_json_string_token data start =
     (if length data \<le> start \<or> data ! start \<noteq> quote_char then None
      else (let end = scan_json_string data start in
        if end \<le> start \<or> length data < end \<or> data ! (end - 1) \<noteq> quote_char then None
        else (let i = advance (\<lambda>i. \<not> data ! i < CHR 0x20 \<and> data ! i \<noteq> backslash) (end - 1) (start + 1) in
          if i < end - 1 then
            (if data ! i < CHR 0x20 then None
             else if unmarshal_string (slice data start end) = None then None
             else Some end)
          else Some end)))"

definition valid_skipped_primitive :: "bytes \<Rightarrow> bool" where
  "valid_skipped_primitive token =
     (if token = [] then False
      else (let kind = stream_json_kind (token ! 0) in
        if kind = KindBool \<or> kind = KindNil \<or> kind = KindNumber
        then valid_stream_primitive token kind else False))"

section \<open>Skipping a value\<close>

datatype skip_state =
    SkipObjectKeyOrEnd | SkipObjectKey | SkipObjectValue | SkipObjectCommaOrEnd
  | SkipArrayValueOrEnd | SkipArrayValue | SkipArrayCommaOrEnd

record skip_frame =
  frame_close :: char
  frame_state :: skip_state

fun complete_skipped_value :: "skip_frame list \<Rightarrow> skip_frame list option" where
  "complete_skipped_value [] = Some []"
| "complete_skipped_value (frame # frames) = (case frame_state frame of
       SkipObjectValue \<Rightarrow> Some (frame\<lparr>frame_state := SkipObjectCommaOrEnd\<rparr> # frames)
     | SkipArrayValueOrEnd \<Rightarrow> Some (frame\<lparr>frame_state := SkipArrayCommaOrEnd\<rparr> # frames)
     | SkipArrayValue \<Rightarrow> Some (frame\<lparr>frame_state := SkipArrayCommaOrEnd\<rparr> # frames)
     | _ \<Rightarrow> None)"

text \<open>
  One round of the loop of \<open>skipJSONValue\<close> in two halves.  The first runs when a value
  is due (\<open>needValue\<close>): it steps over a scalar or pushes a frame for a container.
\<close>

definition skip_value_part :: "bytes \<Rightarrow> nat \<Rightarrow> skip_frame list \<Rightarrow> (nat \<times> skip_frame list) option" where
  "skip_value_part data position frames =
     (if length data \<le> position then None
      else if data ! position = quote_char then
        (case scan_json_string_token data position of
           None \<Rightarrow> None
         | Some end \<Rightarrow> map_option (Pair end) (complete_skipped_value frames))
      else if data ! position = CHR ''{'' then
        Some (position + 1, \<lparr>frame_close = CHR ''}'', frame_state = SkipObjectKeyOrEnd\<rparr> # frames)
      else if data ! position = CHR ''['' then
        Some (position + 1, \<lparr>frame_close = CHR '']'', frame_state = SkipArrayValueOrEnd\<rparr> # frames)
      else (let end = scan_json_primitive data position in
        if end \<le> position \<or> \<not> valid_skipped_primitive (slice data position end) then None
        else map_option (Pair end) (complete_skipped_value frames)))"

text \<open>The position, the frames and \<open>needValue\<close>; a finished loop is its return value.\<close>

type_synonym skip_config = "nat \<times> skip_frame list \<times> bool"

definition close_skipped_frame :: "nat \<Rightarrow> skip_frame list \<Rightarrow> nat option + skip_config" where
  "close_skipped_frame position frames =
     (if frames = [] then Inl (Some position)
      else case complete_skipped_value frames of
        None \<Rightarrow> Inl None
      | Some frames' \<Rightarrow> Inr (position, frames', False))"

definition skip_object_key :: "bytes \<Rightarrow> nat \<Rightarrow> skip_frame \<Rightarrow> skip_frame list \<Rightarrow> nat option + skip_config" where
  "skip_object_key data position frame frames =
     (if data ! position \<noteq> quote_char then Inl None
      else case scan_json_string_token data position of
        None \<Rightarrow> Inl None
      | Some keyEnd \<Rightarrow> (let position = skip_json_space data keyEnd in
          if length data \<le> position \<or> data ! position \<noteq> CHR '':'' then Inl None
          else Inr (position + 1, frame\<lparr>frame_state := SkipObjectValue\<rparr> # frames, True)))"

definition skip_frame_part ::
    "bytes \<Rightarrow> nat \<Rightarrow> skip_frame \<Rightarrow> skip_frame list \<Rightarrow> nat option + skip_config" where
  "skip_frame_part data position frame frames = (case frame_state frame of
       SkipObjectKeyOrEnd \<Rightarrow>
         if data ! position = frame_close frame then close_skipped_frame (position + 1) frames
         else skip_object_key data position frame frames
     | SkipObjectKey \<Rightarrow> skip_object_key data position frame frames
     | SkipObjectValue \<Rightarrow> Inr (position, frame # frames, True)
     | SkipObjectCommaOrEnd \<Rightarrow>
         if data ! position = CHR '','' then
           Inr (position + 1, frame\<lparr>frame_state := SkipObjectKey\<rparr> # frames, False)
         else if data ! position = CHR ''}'' then close_skipped_frame (position + 1) frames
         else Inl None
     | SkipArrayValueOrEnd \<Rightarrow>
         if data ! position = frame_close frame then close_skipped_frame (position + 1) frames
         else Inr (position, frame # frames, True)
     | SkipArrayValue \<Rightarrow>
         if data ! position = CHR '']'' then Inl None else Inr (position, frame # frames, True)
     | SkipArrayCommaOrEnd \<Rightarrow>
         if data ! position = CHR '','' then
           Inr (position + 1, frame\<lparr>frame_state := SkipArrayValue\<rparr> # frames, False)
         else if data ! position = CHR '']'' then close_skipped_frame (position + 1) frames
         else Inl None)"

definition skip_after_value :: "bytes \<Rightarrow> nat \<Rightarrow> skip_frame list \<Rightarrow> nat option + skip_config" where
  "skip_after_value data position frames = (case frames of
       [] \<Rightarrow> Inl (Some position)
     | frame # rest \<Rightarrow>
         (let position = skip_json_space data position in
          if length data \<le> position then Inl None
          else skip_frame_part data position frame rest))"

fun skip_step :: "bytes \<Rightarrow> skip_config \<Rightarrow> nat option + skip_config" where
  "skip_step data (position, frames, needValue) =
     (let position = skip_json_space data position in
      if needValue then
        (case skip_value_part data position frames of
           None \<Rightarrow> Inl None
         | Some (position, frames) \<Rightarrow> skip_after_value data position frames)
      else skip_after_value data position frames)"

section \<open>Bounds and progress\<close>

lemma skip_json_space_ge [bounds]: "i \<le> skip_json_space data i"
  by (simp add: skip_json_space_def advance_ge)

lemma skip_json_space_le [bounds]: "i \<le> length data \<Longrightarrow> skip_json_space data i \<le> length data"
  by (simp add: skip_json_space_def advance_le)

lemma scan_string_from_le [bounds]: "scan_string_from data i \<le> length data"
proof (induction data i rule: scan_string_from.induct)
  case (1 data i)
  then show ?case by (subst scan_string_from.simps) auto
qed

lemma scan_string_from_ge [bounds]: "i < length data \<Longrightarrow> i < scan_string_from data i"
proof (induction data i rule: scan_string_from.induct)
  case (1 data i)
  show ?case
  proof (cases "data ! i = quote_char")
    case True
    then show ?thesis using "1.prems" by (simp add: scan_string_from.simps [of data i])
  next
    case False
    have beyond: "i + k \<ge> length data \<Longrightarrow> scan_string_from data (i + k) = length data" for k
      by (simp add: scan_string_from.simps [of data "i + k"])
    show ?thesis
    proof (cases "data ! i = backslash")
      case True
      then show ?thesis using "1.prems" "1.IH"(1) beyond [of 2]
        by (cases "i + 2 < length data") (auto simp: scan_string_from.simps [of data i])
    next
      case F: False
      then show ?thesis using False "1.prems" "1.IH"(2) beyond [of 1]
        by (cases "i + 1 < length data") (auto simp: scan_string_from.simps [of data i])
    qed
  qed
qed

lemma scan_json_string_le [bounds]: "scan_json_string data start \<le> length data"
  by (simp add: scan_json_string_def scan_string_from_le)

lemma scan_json_string_gt [bounds]: "start < length data \<Longrightarrow> start < scan_json_string data start"
proof (cases "start + 1 < length data")
  case True
  then show ?thesis using scan_string_from_ge [of "start + 1" data] by (simp add: scan_json_string_def)
next
  case False
  assume "start < length data"
  then show ?thesis using False by (simp add: scan_json_string_def scan_string_from.simps [of data "Suc start"])
qed

lemma scan_json_primitive_le [bounds]: "scan_json_primitive data start \<le> length data"
  by (simp add: scan_json_primitive_def)

lemma scan_token_bounds [bounds]:
  "scan_json_string_token data start = Some end \<Longrightarrow> start < end \<and> end \<le> length data"
  by (auto simp: scan_json_string_token_def Let_def split: if_splits)

lemma skip_value_part_bounds:
  "skip_value_part data position frames = Some (p, fs) \<Longrightarrow> position < p \<and> p \<le> length data"
  using scan_json_primitive_le [of data position]
  by (auto simp: skip_value_part_def Let_def split: if_splits option.splits dest: scan_token_bounds)

text \<open>
  Each round either moves on in the text or, when it does not, makes a value due,
  which the next round then has to consume.
\<close>

definition skip_measure :: "bytes \<Rightarrow> skip_config \<Rightarrow> nat" where
  "skip_measure data = (\<lambda>(position, frames, needValue).
     2 * (length data - position) + (if needValue then 0 else 1))"

lemma skip_object_key_bounds:
  assumes "skip_object_key data position frame frames = Inr (p, fs, n)"
  shows "position < p \<and> p \<le> length data \<and> n"
proof -
  from assms obtain keyEnd where k: "scan_json_string_token data position = Some keyEnd"
      "p = skip_json_space data keyEnd + 1" "skip_json_space data keyEnd < length data" "n"
    by (auto simp: skip_object_key_def Let_def split: if_splits option.splits)
  then show ?thesis
    using scan_token_bounds [OF k(1)] skip_json_space_ge [of keyEnd data] by simp
qed

lemma skip_after_value_bounds:
  assumes "skip_after_value data position frames = Inr (p, fs, n)" and "position \<le> length data"
  shows "p \<le> length data \<and> (position < p \<or> position = p \<and> n)"
proof -
  define q where "q = skip_json_space data position"
  have q: "position \<le> q" by (simp add: q_def skip_json_space_ge)
  from assms(1) show ?thesis
    using q
    by (auto simp: skip_after_value_def skip_frame_part_def close_skipped_frame_def Let_def
        simp flip: q_def split: list.splits if_splits skip_state.splits option.splits
        dest: skip_object_key_bounds)
qed

lemma skip_step_decreases:
  assumes "skip_step data st = Inr st'"
  shows "skip_measure data st' < skip_measure data st"
proof -
  obtain position frames needValue where st: "st = (position, frames, needValue)" by (cases st)
  obtain p fs n where st': "st' = (p, fs, n)" by (cases st')
  define q where "q = skip_json_space data position"
  have q: "position \<le> q" by (simp add: q_def skip_json_space_ge)
  show ?thesis
  proof (cases needValue)
    case True
    then obtain p1 fs1 where v: "skip_value_part data q frames = Some (p1, fs1)"
      and a: "skip_after_value data p1 fs1 = Inr (p, fs, n)"
      using assms by (auto simp: st st' Let_def q_def split: option.splits)
    show ?thesis
      using skip_value_part_bounds [OF v] skip_after_value_bounds [OF a] q True
      by (auto simp: skip_measure_def st st')
  next
    case False
    then have a: "skip_after_value data q frames = Inr (p, fs, n)"
      using assms by (simp add: st st' Let_def q_def)
    have "q < length data"
      using a skip_json_space_ge [of q data]
      by (auto simp: skip_after_value_def Let_def split: list.splits if_splits)
    then show ?thesis
      using skip_after_value_bounds [OF a] q False by (auto simp: skip_measure_def st st')
  qed
qed

function skip_loop :: "bytes \<Rightarrow> skip_config \<Rightarrow> nat option" where
  "skip_loop data st = (case skip_step data st of
       Inl result \<Rightarrow> result
     | Inr st' \<Rightarrow> skip_loop data st')"
  by pat_completeness auto
termination
  by (relation "measure (\<lambda>(data, st). skip_measure data st)") (auto dest: skip_step_decreases)

declare skip_loop.simps [simp del]

definition skip_json_value :: "bytes \<Rightarrow> nat \<Rightarrow> nat option" where
  "skip_json_value data start =
     (let position = skip_json_space data start in
      if length data \<le> position then None else skip_loop data (position, [], True))"

definition valid_json_document :: "bytes \<Rightarrow> bool" where
  "valid_json_document data \<longleftrightarrow> (case skip_json_value data 0 of
       None \<Rightarrow> False
     | Some end \<Rightarrow> skip_json_space data end = length data)"

section \<open>Copying string tokens\<close>

text \<open>\<open>streamJSONStringText\<close>: the text of a string token.\<close>

definition stream_json_string_text :: "bytes \<Rightarrow> bytes option" where
  "stream_json_string_text token =
     (if length token < 2 \<or> token ! 0 \<noteq> quote_char \<or> token ! (length token - 1) \<noteq> quote_char then None
      else if list_ex (\<lambda>c. c = backslash \<or> c < CHR 0x20) (slice token 1 (length token - 1))
      then unmarshal_string token
      else Some (slice token 1 (length token - 1)))"

text \<open>\<open>streamJSONStringCanCopy\<close>: no escape, HTML byte, control byte, bad byte or line separator.\<close>

definition copyable_chunk :: "nat \<times> bytes \<Rightarrow> bool" where
  "copyable_chunk x \<longleftrightarrow> (if fst x < 128
      then snd x \<noteq> [backslash] \<and> snd x \<noteq> ''<'' \<and> snd x \<noteq> ''>'' \<and> snd x \<noteq> ''&'' \<and> \<not> fst x < 32
      else \<not> bad_chunk x \<and> fst x \<noteq> 8232 \<and> fst x \<noteq> 8233)"

definition stream_json_string_can_copy :: "bytes \<Rightarrow> bool" where
  "stream_json_string_can_copy token =
     (if length token < 2 \<or> token ! 0 \<noteq> quote_char \<or> token ! (length token - 1) \<noteq> quote_char then False
      else list_all copyable_chunk (chunks (slice token 1 (length token - 1))))"

definition append_stream_json_string :: "bytes \<Rightarrow> bytes \<Rightarrow> bytes option" where
  "append_stream_json_string dst token =
     (if stream_json_string_can_copy token then Some (dst @ token)
      else map_option (append_json_string dst) (unmarshal_string token))"

end
