(* ===== verification/KeyCache.thy ===== *)
theory KeyCache
  imports "HOL-Library.Word" JsonLex
begin

unbundle bit_operations_syntax

text \<open>
  The object keys of the streaming walker (\<open>streamObjectKey\<close> in \<open>json_stream.go\<close>): a
  key is decoded once and found again by the bytes of its token, first in a small list,
  later in chains bounded in number and length, keyed by a 64-bit hash that wraps around.
\<close>

section \<open>The cache\<close>

record cached_key =
  ck_key :: bytes
  ck_start :: nat
  ck_end :: nat

record key_cache =
  small_keys :: "(64 word \<times> cached_key) list"
  chained_keys :: "(64 word \<Rightarrow> cached_key list) option"
  cache_entries :: nat

definition empty_key_cache :: key_cache where
  "empty_key_cache = \<lparr>small_keys = [], chained_keys = None, cache_entries = 0\<rparr>"

definition key_cache_max_entries :: nat where
  "key_cache_max_entries = 4096"

definition key_cache_max_chain :: nat where
  "key_cache_max_chain = 8"

definition key_small_cache :: nat where
  "key_small_cache = 16"

text \<open>The FNV-1a hash; multiplication and exclusive or are those of 64-bit words.\<close>

definition stream_json_key_bucket :: "bytes \<Rightarrow> 64 word" where
  "stream_json_key_bucket key =
     foldl (\<lambda>hash c. (hash XOR word_of_nat (byte c)) * 1099511628211) 14695981039346656037 key"

definition same_token :: "bytes \<Rightarrow> bytes \<Rightarrow> cached_key \<Rightarrow> bool" where
  "same_token data token e \<longleftrightarrow>
     ck_end e - ck_start e = length token \<and> slice data (ck_start e) (ck_end e) = token"

definition find_cached_key :: "bytes \<Rightarrow> bytes \<Rightarrow> key_cache \<Rightarrow> bytes option" where
  "find_cached_key data token cache =
     (let bucket = stream_json_key_bucket token in
      map_option ck_key (case chained_keys cache of
        None \<Rightarrow> map_option snd (find (\<lambda>x. fst x = bucket \<and> same_token data token (snd x)) (small_keys cache))
      | Some table \<Rightarrow> find (same_token data token) (table bucket)))"

text \<open>The small list, full, moved into chains.\<close>

definition add_chained :: "(64 word \<Rightarrow> cached_key list) \<Rightarrow> 64 word \<times> cached_key \<Rightarrow> 64 word \<Rightarrow> cached_key list" where
  "add_chained table x =
     (if length (table (fst x)) < key_cache_max_chain
      then table(fst x := table (fst x) @ [snd x]) else table)"

definition store_key :: "64 word \<Rightarrow> cached_key \<Rightarrow> key_cache \<Rightarrow> key_cache" where
  "store_key bucket entry cache =
     (if chained_keys cache = None \<and> length (small_keys cache) < key_small_cache
      then cache\<lparr>small_keys := small_keys cache @ [(bucket, entry)], cache_entries := cache_entries cache + 1\<rparr>
      else (let table = (case chained_keys cache of
              None \<Rightarrow> foldl add_chained (\<lambda>_. []) (small_keys cache)
            | Some table \<Rightarrow> table) in
        if key_cache_max_entries \<le> cache_entries cache \<or> key_cache_max_chain \<le> length (table bucket)
        then cache\<lparr>chained_keys := Some table\<rparr>
        else cache\<lparr>chained_keys := Some (table(bucket := table bucket @ [entry])),
                   cache_entries := cache_entries cache + 1\<rparr>))"

text \<open>\<open>streamObjectKey\<close>: the key of the token \<open>data[start:end]\<close> and the cache after it.\<close>

definition decode_key :: "bytes \<Rightarrow> bytes option" where
  "decode_key token =
     (if backslash \<in> set (slice token 1 (length token - 1)) then unmarshal_string token
      else Some (slice token 1 (length token - 1)))"

definition stream_object_key :: "bytes \<Rightarrow> nat \<Rightarrow> nat \<Rightarrow> key_cache \<Rightarrow> bytes option \<times> key_cache" where
  "stream_object_key data start end cache =
     (if end - start < 2 then (None, cache)
      else (let token = slice data (start + 1) (end - 1) in
        if list_ex (\<lambda>c. c < CHR 0x20) token then (None, cache)
        else case find_cached_key data token cache of
          Some key \<Rightarrow> (Some key, cache)
        | None \<Rightarrow> (case decode_key (slice data start end) of
            None \<Rightarrow> (None, cache)
          | Some key \<Rightarrow> (Some key, store_key (stream_json_key_bucket token)
              \<lparr>ck_key = key, ck_start = start + 1, ck_end = end - 1\<rparr> cache))))"

section \<open>What the cache holds\<close>

text \<open>
  An entry holds the key its bytes decode to between two quotes.  A chain never exceeds
  its bound, nor the cache the number of its entries.
\<close>

definition entry_ok :: "bytes \<Rightarrow> cached_key \<Rightarrow> bool" where
  "entry_ok data e \<longleftrightarrow>
     decode_key (quote_char # slice data (ck_start e) (ck_end e) @ [quote_char]) = Some (ck_key e)"

definition cache_ok :: "bytes \<Rightarrow> key_cache \<Rightarrow> bool" where
  "cache_ok data cache \<longleftrightarrow>
     list_all (\<lambda>x. entry_ok data (snd x)) (small_keys cache)
   \<and> length (small_keys cache) \<le> key_small_cache
   \<and> cache_entries cache \<le> key_cache_max_entries
   \<and> (case chained_keys cache of
        None \<Rightarrow> cache_entries cache = length (small_keys cache)
      | Some table \<Rightarrow> (\<forall>b. list_all (entry_ok data) (table b) \<and> length (table b) \<le> key_cache_max_chain))"

lemma empty_cache_ok [simp]: "cache_ok data empty_key_cache"
  by (simp add: cache_ok_def empty_key_cache_def)

definition chains_ok :: "bytes \<Rightarrow> (64 word \<Rightarrow> cached_key list) \<Rightarrow> bool" where
  "chains_ok data table \<longleftrightarrow>
     (\<forall>b. list_all (entry_ok data) (table b) \<and> length (table b) \<le> key_cache_max_chain)"

lemma add_chained_ok: "chains_ok data table \<Longrightarrow> entry_ok data (snd x) \<Longrightarrow> chains_ok data (add_chained table x)"
  by (auto simp: chains_ok_def add_chained_def Suc_le_eq)

lemma foldl_add_chained_ok:
  "chains_ok data table \<Longrightarrow> list_all (\<lambda>x. entry_ok data (snd x)) xs \<Longrightarrow> chains_ok data (foldl add_chained table xs)"
  by (induction xs arbitrary: table) (auto simp: add_chained_ok)

lemma store_key_ok:
  assumes ok: "cache_ok data cache" and e: "entry_ok data e"
  shows "cache_ok data (store_key b e cache)"
proof (cases "chained_keys cache = None \<and> length (small_keys cache) < key_small_cache")
  case True
  then show ?thesis using ok e
    by (auto simp: store_key_def cache_ok_def key_small_cache_def key_cache_max_entries_def)
next
  case False
  define table where "table = (case chained_keys cache of
      None \<Rightarrow> foldl add_chained (\<lambda>_. []) (small_keys cache) | Some table \<Rightarrow> table)"
  have "chains_ok data table"
  proof (cases "chained_keys cache")
    case None
    have "chains_ok data (\<lambda>_. [])" by (simp add: chains_ok_def)
    moreover have "list_all (\<lambda>x. entry_ok data (snd x)) (small_keys cache)" using ok by (simp add: cache_ok_def)
    ultimately show ?thesis unfolding table_def None option.case by (rule foldl_add_chained_ok)
  next
    case (Some c)
    then show ?thesis using ok by (simp add: table_def cache_ok_def chains_ok_def)
  qed
  moreover have "store_key b e cache =
      (if key_cache_max_entries \<le> cache_entries cache \<or> key_cache_max_chain \<le> length (table b)
       then cache\<lparr>chained_keys := Some table\<rparr>
       else cache\<lparr>chained_keys := Some (table(b := table b @ [e])), cache_entries := cache_entries cache + 1\<rparr>)"
    unfolding store_key_def if_not_P [OF False] Let_def table_def ..
  ultimately show ?thesis using ok e by (auto simp: cache_ok_def chains_ok_def Suc_le_eq)
qed

lemma find_in: "find P xs = Some x \<Longrightarrow> x \<in> set xs \<and> P x"
  by (auto simp: find_Some_iff)

lemma found_key_ok:
  assumes "cache_ok data cache" and "find_cached_key data token cache = Some key"
  shows "decode_key (quote_char # token @ [quote_char]) = Some key"
proof -
  obtain e where "entry_ok data e" "same_token data token e" "key = ck_key e"
  proof (cases "chained_keys cache")
    case None
    with assms(2) obtain b e where e: "find (\<lambda>x. fst x = stream_json_key_bucket token \<and> same_token data token (snd x))
        (small_keys cache) = Some (b, e)" "key = ck_key e"
      by (auto simp: find_cached_key_def Let_def)
    have "(b, e) \<in> set (small_keys cache)" using find_in [OF e(1)] by blast
    moreover have "same_token data token e" using find_in [OF e(1)] by simp
    ultimately show thesis using that [of e] e(2) assms(1) by (auto simp: cache_ok_def list_all_iff)
  next
    case (Some table)
    with assms(2) obtain e where e: "find (same_token data token) (table (stream_json_key_bucket token)) = Some e"
        "key = ck_key e" by (auto simp: find_cached_key_def Let_def)
    then have "e \<in> set (table (stream_json_key_bucket token))" "same_token data token e"
      using find_in [OF e(1)] by simp_all
    then show thesis using that [of e] e(2) assms(1) Some by (auto simp: cache_ok_def list_all_iff)
  qed
  then show ?thesis by (simp add: entry_ok_def same_token_def)
qed

lemma token_parts:
  assumes "start + 2 \<le> end" and "end \<le> length data" and "data ! start = quote_char" and "data ! (end - 1) = quote_char"
  shows "slice data start end = quote_char # slice data (start + 1) (end - 1) @ [quote_char]"
proof -
  have "slice data start end = slice data start (Suc start) @ slice data (Suc start) end"
    using assms(1) by (simp add: slice_append)
  moreover have "slice data start (Suc start) = [quote_char]"
    using assms by (simp add: slice_snoc) (simp add: slice_def)
  moreover have "slice data (Suc start) (Suc (end - 1)) = slice data (Suc start) (end - 1) @ [data ! (end - 1)]"
    using assms by (intro slice_snoc) auto
  ultimately show ?thesis using assms by simp
qed

lemma stream_object_key_spec:
  assumes "cache_ok data cache" and "start + 2 \<le> end" and "end \<le> length data"
    and "data ! start = quote_char" and "data ! (end - 1) = quote_char"
  shows "fst (stream_object_key data start end cache) =
      (if list_ex (\<lambda>c. c < CHR 0x20) (slice data (start + 1) (end - 1)) then None
       else decode_key (slice data start end))
    \<and> cache_ok data (snd (stream_object_key data start end cache))"
proof -
  note parts = token_parts [OF assms(2-5)]
  have "entry_ok data \<lparr>ck_key = key, ck_start = start + 1, ck_end = end - 1\<rparr>"
    if "decode_key (slice data start end) = Some key" for key
    using that by (simp add: entry_ok_def parts)
  then show ?thesis
    using assms(1,2) found_key_ok [OF assms(1), of "slice data (start + 1) (end - 1)"] store_key_ok [OF assms(1)]
    by (auto simp: stream_object_key_def Let_def parts split: option.split)
qed

section \<open>Property\<close>

text \<open>
  C31: The key cache is transparent: whatever keys were read before, the key of a
  terminated string token is what the token decodes to, a token with a control byte is
  rejected, and the cache stays within its bounds, every entry decoded correctly.
\<close>

theorem key_cache_transparent:
  assumes "cache_ok data cache" and "start + 2 \<le> end" and "end \<le> length data"
    and "data ! start = quote_char" and "data ! (end - 1) = quote_char"
  shows "fst (stream_object_key data start end cache) =
      (if list_ex (\<lambda>c. c < CHR 0x20) (slice data (start + 1) (end - 1)) then None
       else decode_key (slice data start end))
    \<and> cache_ok data (snd (stream_object_key data start end cache))"
  by (rule stream_object_key_spec [OF assms])

theorem key_cache_transparent_witness:
  "fst (stream_object_key (quote_char # ''id'' @ [quote_char]) 0 4 empty_key_cache) = Some ''id''"
  using key_cache_transparent [of "quote_char # ''id'' @ [quote_char]" empty_key_cache 0 4]
  by (simp add: slice_def decode_key_def char_eq_byte char_less_byte)

end
