(* ===== verification/Rules.thy ===== *)
theory Rules
  imports Types
begin

text \<open>
  Rules (\<open>rule.go\<close>, \<open>rules_builtin.go\<close>): the built-in transformations, and the calls
  of rules that come from the user, contained so that neither an error nor a panic
  nor text that is not UTF-8 leaves them.
\<close>

section \<open>Rules\<close>

record rule_input =
  ri_value :: bytes
  ri_kind :: value_kind
  ri_redaction :: bytes

text \<open>
  What a call into user code does: it returns, returns an error, or panics.  Of an
  error the package asks only whether it wraps the sentinel of a panic.
\<close>

datatype 'a outcome = Returns 'a | Fails callback_error | Panics

datatype builtin = PasswordRule | TokenRule | FullRule | EmailRule | PhoneRule | IdRule | CardRule

text \<open>
  The implementations of the interface \<open>Rule\<close>: nil, the built-in pointers, the value
  \<open>NewRule\<close> makes, a \<open>RuleFunc\<close> (\<open>None\<close> when it is nil), and a foreign type.  Of a
  foreign value the package observes its dynamic type, whether it is a nil pointer,
  whether it is comparable and to which value it is equal, and its two methods.
\<close>

record foreign_rule =
  fr_type :: nat
  fr_nil :: bool
  fr_comparable :: bool
  fr_value :: nat
  fr_name :: "bytes outcome"
  fr_apply :: "rule_input \<Rightarrow> bytes outcome"

datatype rule =
    NilRule
  | Builtin builtin
  | NamedRule bytes "rule_input \<Rightarrow> bytes outcome"
  | RuleFunc "(rule_input \<Rightarrow> bytes outcome) option"
  | ForeignRule foreign_rule

definition is_nil_rule :: "rule \<Rightarrow> bool" where
  "is_nil_rule r = (case r of
       NilRule \<Rightarrow> True
     | RuleFunc f \<Rightarrow> f = None
     | ForeignRule f \<Rightarrow> fr_nil f
     | _ \<Rightarrow> False)"

text \<open>\<open>NewRule\<close>; a nil function is \<open>None\<close>.\<close>

definition new_rule :: "bytes \<Rightarrow> (rule_input \<Rightarrow> bytes outcome) option \<Rightarrow> go_error + rule" where
  "new_rule name fn =
     (if name = [] \<or> \<not> valid_utf8 name then Inl (Wrapped CodeInvalidConfig)
      else case fn of
        None \<Rightarrow> Inl (Wrapped CodeInvalidConfig)
      | Some f \<Rightarrow> Inr (NamedRule name f))"

definition same_rule :: "rule \<Rightarrow> rule \<Rightarrow> bool" where
  "same_rule left right =
     (if is_nil_rule left \<or> is_nil_rule right then is_nil_rule left \<and> is_nil_rule right
      else case (left, right) of
        (Builtin a, Builtin b) \<Rightarrow> a = b
      | (ForeignRule f, ForeignRule g) \<Rightarrow>
          fr_type f = fr_type g \<and> fr_comparable f \<and> fr_comparable g \<and> fr_value f = fr_value g
      | _ \<Rightarrow> False)"

section \<open>The built-in transformations\<close>

definition builtin_name :: "builtin \<Rightarrow> bytes" where
  "builtin_name b = (case b of
       PasswordRule \<Rightarrow> ''password'' | TokenRule \<Rightarrow> ''token'' | FullRule \<Rightarrow> ''full''
     | EmailRule \<Rightarrow> ''email'' | PhoneRule \<Rightarrow> ''phone'' | IdRule \<Rightarrow> ''id'' | CardRule \<Rightarrow> ''card'')"

definition builtin_tag_rules :: "bytes \<rightharpoonup> rule" where
  "builtin_tag_rules = map_of
     [(''full'', Builtin FullRule), (''email'', Builtin EmailRule), (''phone'', Builtin PhoneRule),
      (''id'', Builtin IdRule), (''card'', Builtin CardRule), (''password'', Builtin PasswordRule),
      (''token'', Builtin TokenRule)]"

text \<open>Category Zl is U+2028 and Zp is U+2029.\<close>

definition control_rune :: "unicode_tables \<Rightarrow> nat \<Rightarrow> bool" where
  "control_rune u r =
     (if r < 128 then r < 32 \<or> r = 127
      else rune_is_control r \<or> is_format u r \<or> r = 8232 \<or> r = 8233)"

definition malformed_email :: "unicode_tables \<Rightarrow> bytes \<Rightarrow> bool" where
  "malformed_email u value = list_ex
     (\<lambda>x. if fst x < 128 then fst x \<le> 32 \<or> fst x = 127
          else bad_chunk x \<or> rune_is_space (fst x) \<or> control_rune u (fst x))
     (chunks value)"

definition mask_email :: "unicode_tables \<Rightarrow> rule_input \<Rightarrow> bytes" where
  "mask_email u inp =
     (let value = ri_value inp in
      if malformed_email u value then ri_redaction inp
      else case index_byte value (CHR ''@'') of
        None \<Rightarrow> ri_redaction inp
      | Some at \<Rightarrow>
          if at = 0 \<or> at = length value - 1 \<or> index_byte (drop (at + 1) value) (CHR ''@'') \<noteq> None
          then ri_redaction inp
          else (case runes (take at value) of
              [] \<Rightarrow> ri_redaction inp
            | first # _ \<Rightarrow> encode_rune first @ ''***@'' @ drop (at + 1) value))"

definition digit_rune :: "nat \<Rightarrow> bool" where
  "digit_rune r \<longleftrightarrow> 48 \<le> r \<and> r \<le> 57"

text \<open>A rune of a phone or card number that is not a digit: space or one of \<open>+-()./\<close>.\<close>

definition number_filler :: "nat \<Rightarrow> bool" where
  "number_filler r \<longleftrightarrow> r = 32 \<or> r \<in> set (map byte ''+-()./'')"

text \<open>The loop that stars out the first \<open>toMask\<close> digits.\<close>

fun star_digits :: "nat \<Rightarrow> nat list \<Rightarrow> nat list" where
  "star_digits toMask [] = []"
| "star_digits toMask (r # rs) =
     (if digit_rune r \<and> 0 < toMask then byte CHR ''*'' # star_digits (toMask - 1) rs
      else r # star_digits toMask rs)"

definition mask_last_four_digits :: "rule_input \<Rightarrow> bytes" where
  "mask_last_four_digits inp =
     (let value = runes (ri_value inp); digits = length (filter digit_rune value) in
      if \<not> list_all (\<lambda>r. digit_rune r \<or> number_filler r) value then ri_redaction inp
      else if digits \<le> 4 then ri_redaction inp
      else string_of_runes (star_digits (digits - 4) value))"

definition star_unless_space :: "nat \<Rightarrow> nat" where
  "star_unless_space r = (if rune_is_space r then r else byte CHR ''*'')"

definition mask_last_four_units :: "unicode_tables \<Rightarrow> rule_input \<Rightarrow> bytes" where
  "mask_last_four_units u inp =
     (let rs = runes (ri_value inp) in
      if list_ex (control_rune u) rs then ri_redaction inp
      else if length rs \<le> 4 then ri_redaction inp
      else string_of_runes (map star_unless_space (take (length rs - 4) rs) @ drop (length rs - 4) rs))"

definition builtin_fn :: "unicode_tables \<Rightarrow> builtin \<Rightarrow> rule_input \<Rightarrow> bytes" where
  "builtin_fn u b inp = (case b of
       PasswordRule \<Rightarrow> ri_redaction inp
     | TokenRule \<Rightarrow> ri_redaction inp
     | FullRule \<Rightarrow> ri_redaction inp
     | EmailRule \<Rightarrow> mask_email u inp
     | PhoneRule \<Rightarrow> mask_last_four_digits inp
     | IdRule \<Rightarrow> mask_last_four_units u inp
     | CardRule \<Rightarrow> mask_last_four_digits inp)"

section \<open>Calling a rule\<close>

text \<open>The methods \<open>Name\<close> and \<open>Apply\<close> of a rule that is not nil.\<close>

definition rule_method_name :: "rule \<Rightarrow> bytes outcome" where
  "rule_method_name r = (case r of
       NilRule \<Rightarrow> Panics
     | Builtin b \<Rightarrow> Returns (builtin_name b)
     | NamedRule name _ \<Rightarrow> Returns name
     | RuleFunc _ \<Rightarrow> Returns ''custom''
     | ForeignRule f \<Rightarrow> fr_name f)"

definition rule_method_apply :: "unicode_tables \<Rightarrow> rule \<Rightarrow> rule_input \<Rightarrow> bytes outcome" where
  "rule_method_apply u r inp = (case r of
       NilRule \<Rightarrow> Panics
     | Builtin b \<Rightarrow> Returns (builtin_fn u b inp)
     | NamedRule _ f \<Rightarrow> f inp
     | RuleFunc f \<Rightarrow> (case f of None \<Rightarrow> Fails CallbackFailed | Some g \<Rightarrow> g inp)
     | ForeignRule f \<Rightarrow> fr_apply f inp)"

definition rule_name :: "rule \<Rightarrow> bytes" where
  "rule_name r =
     (if is_nil_rule r then []
      else case rule_method_name r of Returns name \<Rightarrow> name | _ \<Rightarrow> [])"

text \<open>\<open>applyRule\<close>: a failure is the callback error \<open>isPanicError\<close> distinguishes.\<close>

definition apply_rule :: "unicode_tables \<Rightarrow> rule \<Rightarrow> rule_input \<Rightarrow> callback_error + bytes" where
  "apply_rule u r inp =
     (if is_nil_rule r then Inl CallbackFailed
      else case rule_method_apply u r inp of
        Panics \<Rightarrow> Inl CallbackPanicked
      | Fails _ \<Rightarrow> Inl CallbackFailed
      | Returns result \<Rightarrow> if valid_utf8 result then Inr result else Inl CallbackFailed)"

section \<open>What the built-in rules reveal\<close>

lemma star_digits_length [simp]: "length (star_digits k rs) = length rs"
  by (induction k rs rule: star_digits.induct) auto

lemma star_not_digit [simp]: "\<not> digit_rune 42"
  by (simp add: digit_rune_def)

lemma star_digits_kept: "filter digit_rune (star_digits k rs) = drop k (filter digit_rune rs)"
proof (induction k rs rule: star_digits.induct)
  case (2 k r rs)
  then show ?case by (cases k) auto
qed simp

lemma star_digits_pointwise:
  "list_all2 (\<lambda>r s. s = r \<or> digit_rune r \<and> s = 42) rs (star_digits k rs)"
  by (induction k rs rule: star_digits.induct) (auto simp: list.rel_refl)

lemma digit_or_filler_ascii: "digit_rune r \<or> number_filler r \<Longrightarrow> r < 128"
  by (auto simp: digit_rune_def number_filler_def)

lemma valid_rune_ascii: "r < 128 \<Longrightarrow> valid_rune r"
  by (simp add: valid_rune_def)

lemma star_digits_valid: "\<forall>r \<in> set rs. valid_rune r \<Longrightarrow> \<forall>r \<in> set (star_digits k rs). valid_rune r"
  by (induction k rs rule: star_digits.induct) (auto simp: valid_rune_ascii)

lemma mask_last_four_digits_shape:
  assumes "mask_last_four_digits inp \<noteq> ri_redaction inp"
  shows "mask_last_four_digits inp
      = string_of_runes (star_digits (length (filter digit_rune (runes (ri_value inp))) - 4) (runes (ri_value inp)))"
    and "4 < length (filter digit_rune (runes (ri_value inp)))"
    and "list_all (\<lambda>r. digit_rune r \<or> number_filler r) (runes (ri_value inp))"
  using assms by (auto simp: mask_last_four_digits_def Let_def split: if_splits)

lemma mask_last_four_digits_valid:
  "valid_utf8 (ri_redaction inp) \<Longrightarrow> valid_utf8 (mask_last_four_digits inp)"
proof (cases "mask_last_four_digits inp = ri_redaction inp")
  case False
  then show ?thesis
    unfolding mask_last_four_digits_shape(1) [OF False]
    by (intro valid_utf8_string_of_runes star_digits_valid ballI runes_valid)
qed simp

lemma star_unless_space_valid: "valid_rune r \<Longrightarrow> valid_rune (star_unless_space r)"
  by (simp add: star_unless_space_def valid_rune_def)

lemma mask_last_four_units_valid:
  assumes "valid_utf8 (ri_redaction inp)" shows "valid_utf8 (mask_last_four_units u inp)"
proof -
  let ?rs = "runes (ri_value inp)"
  have "\<forall>r \<in> set (map star_unless_space (take (length ?rs - 4) ?rs) @ drop (length ?rs - 4) ?rs). valid_rune r"
    using runes_valid by (auto dest: in_set_takeD in_set_dropD simp: star_unless_space_valid)
  then have "valid_utf8 (string_of_runes (map star_unless_space (take (length ?rs - 4) ?rs) @ drop (length ?rs - 4) ?rs))"
    by (rule valid_utf8_string_of_runes)
  then show ?thesis using assms by (simp add: mask_last_four_units_def Let_def)
qed

lemma valid_utf8_encode_rune: "valid_rune r \<Longrightarrow> valid_utf8 (encode_rune r)"
  using valid_utf8_string_of_runes [of "[r]"] by (simp add: string_of_runes_def)

text \<open>The pieces of an address the rule accepts.\<close>

lemma not_malformed_valid: "\<not> malformed_email u s \<Longrightarrow> valid_utf8 s"
  by (auto simp: malformed_email_def valid_utf8_def list_ex_iff list_all_iff bad_chunk_def rune_error_def)

lemma mask_email_shape:
  assumes "mask_email u inp \<noteq> ri_redaction inp"
  obtains first rest domain where
    "ri_value inp = encode_rune first @ rest @ CHR ''@'' # domain"
    "mask_email u inp = encode_rune first @ ''***@'' @ domain"
    "CHR ''@'' \<notin> set rest" "CHR ''@'' \<notin> set domain" "domain \<noteq> []" "valid_rune first" "valid_utf8 domain"
    "\<not> malformed_email u (ri_value inp)"
proof -
  let ?v = "ri_value inp"
  obtain at where ok: "\<not> malformed_email u ?v" and at: "index_byte ?v (CHR ''@'') = Some at" "at \<noteq> 0"
      "at \<noteq> length ?v - 1" "index_byte (drop (at + 1) ?v) (CHR ''@'') = None"
    using assms by (auto simp: mask_email_def Let_def split: if_splits option.splits)
  let ?local = "take at ?v" and ?domain = "drop (at + 1) ?v"
  have i: "at < length ?v" "?v ! at = CHR ''@''" "CHR ''@'' \<notin> set ?local"
    using index_byte_Some [OF at(1)] by auto
  have v: "?v = ?local @ CHR ''@'' # ?domain" using i id_take_nth_drop [OF i(1)] by simp
  have "valid_utf8 (?local @ CHR ''@'' # ?domain)" using not_malformed_valid [OF ok] v by simp
  then have valid: "valid_utf8 ?local" "valid_utf8 ?domain" by (simp_all add: valid_utf8_at_ascii)
  have "?local \<noteq> []" using at(2) i(1) by auto
  then obtain first rs where rs: "runes ?local = first # rs"
    using valid_utf8_runes [OF valid(1)] by (cases "runes ?local") (auto simp: string_of_runes_def)
  show thesis
  proof (rule that)
    have "?local = encode_rune first @ string_of_runes rs"
      using valid_utf8_runes [OF valid(1)] rs by (simp add: string_of_runes_def)
    then show "?v = encode_rune first @ string_of_runes rs @ CHR ''@'' # ?domain"
      and "CHR ''@'' \<notin> set (string_of_runes rs)" using v i(3) by auto
    show "mask_email u inp = encode_rune first @ ''***@'' @ ?domain"
      using ok at rs by (simp add: mask_email_def)
    show "CHR ''@'' \<notin> set ?domain" using at(4) by (simp add: index_byte_None)
    show "?domain \<noteq> []" using at(3) i(1) by auto
    show "valid_rune first" using runes_valid [of first ?local] rs by simp
  qed (use valid ok in auto)
qed

lemma mask_email_valid: "valid_utf8 (ri_redaction inp) \<Longrightarrow> valid_utf8 (mask_email u inp)"
proof (cases "mask_email u inp = ri_redaction inp")
  case False
  then show ?thesis
    by (rule mask_email_shape)
       (auto intro!: valid_utf8_append valid_utf8_encode_rune simp del: append_Cons append.simps)
qed simp

lemma builtin_fn_valid: "valid_utf8 (ri_redaction inp) \<Longrightarrow> valid_utf8 (builtin_fn u b inp)"
  by (cases b) (simp_all add: builtin_fn_def mask_email_valid mask_last_four_digits_valid mask_last_four_units_valid)

section \<open>Properties\<close>

text \<open>
  A built-in rule never fails: with a marker that is valid UTF-8 its result is
  valid UTF-8 for every value, invalid bytes included, so \<open>applyRule\<close> returns it.
\<close>

theorem builtin_rules_never_fail:
  "valid_utf8 (ri_redaction inp) \<Longrightarrow> \<exists>s. apply_rule u (Builtin b) inp = Inr s \<and> valid_utf8 s"
  by (simp add: apply_rule_def is_nil_rule_def rule_method_apply_def builtin_fn_valid)

theorem builtin_rules_never_fail_witness:
  "\<exists>s. apply_rule ascii_only_tables (Builtin EmailRule)
     \<lparr>ri_value = [chr 255], ri_kind = KindString, ri_redaction = ''[REDACTED]''\<rparr> = Inr s \<and> valid_utf8 s"
  by (rule builtin_rules_never_fail) simp

text \<open>
  C23: The phone and card rule shows no digit but the last four, and only where there
  are more: its result is the marker, or a text of as many runes in which every
  digit before the last four is a star and everything else is kept.
\<close>

theorem last_four_digits_shown:
  "mask_last_four_digits inp = ri_redaction inp \<or>
   (\<exists>out. mask_last_four_digits inp = string_of_runes out
      \<and> list_all2 (\<lambda>r s. s = r \<or> digit_rune r \<and> s = byte CHR ''*'') (runes (ri_value inp)) out
      \<and> 4 < length (filter digit_rune (runes (ri_value inp)))
      \<and> filter digit_rune out = drop (length (filter digit_rune (runes (ri_value inp))) - 4)
          (filter digit_rune (runes (ri_value inp)))
      \<and> list_all (\<lambda>r. digit_rune r \<or> number_filler r) (runes (ri_value inp)))"
proof (cases "mask_last_four_digits inp = ri_redaction inp")
  case False
  note shape = mask_last_four_digits_shape [OF False]
  show ?thesis
    by (rule disjI2, rule exI, intro conjI, rule shape(1))
       (use shape(2,3) star_digits_pointwise in \<open>simp_all add: star_digits_kept\<close>)
qed simp

text \<open>
  The email rule shows the first rune of the local part and the domain, nothing
  else: its result is the marker, or the value had exactly one \<open>@\<close> with text on both
  sides and everything between its first rune and the \<open>@\<close> is replaced.
\<close>

theorem email_local_part_hidden:
  "mask_email u inp = ri_redaction inp \<or>
   (\<exists>first rest domain. ri_value inp = encode_rune first @ rest @ CHR ''@'' # domain
      \<and> mask_email u inp = encode_rune first @ ''***@'' @ domain
      \<and> CHR ''@'' \<notin> set rest \<and> CHR ''@'' \<notin> set domain \<and> domain \<noteq> []
      \<and> \<not> malformed_email u (ri_value inp))"
proof (cases "mask_email u inp = ri_redaction inp")
  case False
  obtain first rest domain where
    "ri_value inp = encode_rune first @ rest @ CHR ''@'' # domain"
    "mask_email u inp = encode_rune first @ ''***@'' @ domain"
    "CHR ''@'' \<notin> set rest" "CHR ''@'' \<notin> set domain" "domain \<noteq> []" "\<not> malformed_email u (ri_value inp)"
    using False by (rule mask_email_shape)
  then show ?thesis by (intro disjI2 exI conjI)
qed simp

text \<open>
  The id rule keeps the last four runes of a value that has more; every rune
  before them is a star, or a space that was there, and a value with a control rune
  or with four runes at most becomes the marker.
\<close>

theorem last_four_units_shown:
  "mask_last_four_units u inp =
     (let rs = runes (ri_value inp); n = length rs - 4 in
      if (\<exists>r \<in> set rs. control_rune u r) \<or> length rs \<le> 4 then ri_redaction inp
      else string_of_runes (map (\<lambda>i. if n \<le> i \<or> rune_is_space (rs ! i) then rs ! i else byte CHR ''*'') [0..<length rs]))"
proof -
  define rs where "rs = runes (ri_value inp)"
  define n where "n = length rs - 4"
  have "map star_unless_space (take n rs) @ drop n rs
      = map (\<lambda>i. if n \<le> i \<or> rune_is_space (rs ! i) then rs ! i else byte CHR ''*'') [0..<length rs]"
    by (rule nth_equalityI) (auto simp: n_def nth_append star_unless_space_def)
  then show ?thesis
    by (auto simp: mask_last_four_units_def Let_def list_ex_iff rs_def [symmetric] n_def)
qed

end
