(* ===== verification/Policy.thy ===== *)
theory Policy
  imports Rules
begin

text \<open>
  Policies (\<open>policy.go\<close>): the compiled key policy with its ASCII fast path, chains,
  and the contained call of a policy.  \<open>strings.EqualFold\<close> and \<open>strings.ToLower\<close> are
  modelled over the tables of the package \<open>unicode\<close>, which are a parameter.
\<close>

section \<open>Policies\<close>

record decision =
  dec_rule :: rule
  dec_omit :: bool

definition no_opinion :: decision where
  "no_opinion = \<lparr>dec_rule = NilRule, dec_omit = False\<rparr>"

definition decide_rule :: "rule \<Rightarrow> decision" where
  "decide_rule r = \<lparr>dec_rule = r, dec_omit = False\<rparr>"

record binding =
  b_keys :: "bytes list"
  b_rule :: rule

text \<open>A \<open>keyEntry\<close> is the stripped key and its rule; a missing bucket is empty.\<close>

type_synonym key_entry = "bytes \<times> rule"

record key_policy =
  kp_ordered :: "key_entry list"
  kp_entries :: "bytes \<Rightarrow> key_entry list"
  kp_ascii_only :: bool

text \<open>
  The implementations of the interface \<open>Policy\<close>; a nil pointer of one of the two
  types of the package, a \<open>PolicyFunc\<close> (\<open>None\<close> when nil), and a foreign type with
  whether it is a nil pointer.
\<close>

datatype policy =
    NilPolicy
  | NilKeyPolicy
  | NilChain
  | KeyPol key_policy
  | ChainPolicy "policy list"
  | PolicyFunc "(field \<Rightarrow> decision outcome) option"
  | ForeignPolicy bool "field \<Rightarrow> decision outcome"

fun is_nil_policy :: "policy \<Rightarrow> bool" where
  "is_nil_policy (KeyPol _) = False"
| "is_nil_policy (ChainPolicy _) = False"
| "is_nil_policy (PolicyFunc f) = (f = None)"
| "is_nil_policy (ForeignPolicy n _) = n"
| "is_nil_policy _ = True"

section \<open>Keys\<close>

definition key_separator :: "char \<Rightarrow> bool" where
  "key_separator c \<longleftrightarrow> c = CHR ''_'' \<or> c = CHR ''-'' \<or> c = CHR ''.''"

definition strip_key_separators :: "bytes \<Rightarrow> bytes" where
  "strip_key_separators key =
     (if \<not> list_ex key_separator key then key else filter (\<lambda>c. \<not> key_separator c) key)"

definition is_ascii :: "bytes \<Rightarrow> bool" where
  "is_ascii value \<longleftrightarrow> list_all (\<lambda>c. byte c < 128) value"

text \<open>\<open>strings.EqualFold\<close> and \<open>strings.ToLower\<close>.\<close>

definition equal_fold :: "unicode_tables \<Rightarrow> bytes \<Rightarrow> bytes \<Rightarrow> bool" where
  "equal_fold u s t \<longleftrightarrow> list_all2 (fold_eq u) (runes s) (runes t)"

definition lower_string :: "unicode_tables \<Rightarrow> bytes \<Rightarrow> bytes" where
  "lower_string u s = string_of_runes (map (to_lower u) (runes s))"

section \<open>Compiling a key policy\<close>

text \<open>
  The inner loop over the keys of one binding: the accepted keys so far and whether
  all keys were ASCII, or the configuration error.
\<close>

fun accept_keys ::
    "unicode_tables \<Rightarrow> rule \<Rightarrow> bytes list \<Rightarrow> key_entry list \<times> bool \<Rightarrow> go_error + key_entry list \<times> bool" where
  "accept_keys u rule [] (accepted, asciiOnly) = Inr (accepted, asciiOnly)"
| "accept_keys u rule (key # keys) (accepted, asciiOnly) =
     (let stripped = strip_key_separators key in
      if stripped = [] then Inl (Wrapped CodeInvalidConfig)
      else if list_ex (\<lambda>previous. equal_fold u (fst previous) stripped \<and> \<not> same_rule (snd previous) rule) accepted
      then Inl (Wrapped CodeInvalidConfig)
      else accept_keys u rule keys (accepted @ [(stripped, rule)], asciiOnly \<and> is_ascii key))"

fun accept_bindings ::
    "unicode_tables \<Rightarrow> binding list \<Rightarrow> key_entry list \<times> bool \<Rightarrow> go_error + key_entry list \<times> bool" where
  "accept_bindings u [] st = Inr st"
| "accept_bindings u (b # bs) st =
     (if is_nil_rule (b_rule b) then Inl (Wrapped CodeInvalidConfig)
      else case accept_keys u (b_rule b) (b_keys b) st of
        Inl e \<Rightarrow> Inl e
      | Inr st' \<Rightarrow> accept_bindings u bs st')"

text \<open>The entries of the bindings in declaration order.\<close>

definition binding_entries :: "binding list \<Rightarrow> key_entry list" where
  "binding_entries bs = concat (map (\<lambda>b. map (\<lambda>key. (strip_key_separators key, b_rule b)) (b_keys b)) bs)"

definition add_entry :: "unicode_tables \<Rightarrow> (bytes \<Rightarrow> key_entry list) \<Rightarrow> key_entry \<Rightarrow> bytes \<Rightarrow> key_entry list" where
  "add_entry u entries e = entries(lower_string u (fst e) := entries (lower_string u (fst e)) @ [e])"

definition new_key_policy :: "unicode_tables \<Rightarrow> binding list \<Rightarrow> go_error + key_policy" where
  "new_key_policy u bindings = (case accept_bindings u bindings ([], True) of
       Inl e \<Rightarrow> Inl e
     | Inr (_, asciiOnly) \<Rightarrow> Inr
         \<lparr>kp_ordered = binding_entries bindings,
          kp_entries = foldl (add_entry u) (\<lambda>_. []) (binding_entries bindings),
          kp_ascii_only = asciiOnly\<rparr>)"

section \<open>Deciding\<close>

definition ascii_key_buffer_size :: nat where
  "ascii_key_buffer_size = 64"

definition upper_ascii :: "char \<Rightarrow> bool" where
  "upper_ascii c \<longleftrightarrow> CHR ''A'' \<le> c \<and> c \<le> CHR ''Z''"

text \<open>The pass into the stack buffer: \<open>None\<close> for a byte that is not ASCII.\<close>

fun normalize_ascii :: "bytes \<Rightarrow> bytes option" where
  "normalize_ascii [] = Some []"
| "normalize_ascii (c # cs) =
     (if 128 \<le> byte c then None
      else if key_separator c then normalize_ascii cs
      else map_option ((#) (if upper_ascii c then chr (byte c + 32) else c)) (normalize_ascii cs))"

text \<open>\<open>None\<close> is \<open>ok = false\<close>.\<close>

definition decide_ascii :: "unicode_tables \<Rightarrow> key_policy \<Rightarrow> bytes \<Rightarrow> decision option" where
  "decide_ascii u p key =
     map_option (\<lambda>entries. case entries of [] \<Rightarrow> no_opinion | e # _ \<Rightarrow> decide_rule (snd e))
       (if length key \<le> ascii_key_buffer_size then map_option (kp_entries p) (normalize_ascii key)
        else if \<not> is_ascii key then None
        else Some (kp_entries p (lower_string u (strip_key_separators key))))"

definition key_policy_decide :: "unicode_tables \<Rightarrow> key_policy \<Rightarrow> field \<Rightarrow> decision" where
  "key_policy_decide u p f =
     (if f_key f = [] then no_opinion
      else case (if kp_ascii_only p then decide_ascii u p (f_key f) else None) of
        Some d \<Rightarrow> d
      | None \<Rightarrow>
          (let stripped = strip_key_separators (f_key f) in
           if stripped = [] then no_opinion
           else case find (\<lambda>e. equal_fold u (fst e) stripped) (kp_entries p (lower_string u stripped)) of
             Some e \<Rightarrow> decide_rule (snd e)
           | None \<Rightarrow> (case find (\<lambda>e. equal_fold u (fst e) stripped) (kp_ordered p) of
               Some e \<Rightarrow> decide_rule (snd e)
             | None \<Rightarrow> no_opinion)))"

text \<open>\<open>callPolicy\<close>, given what \<open>Decide\<close> does.\<close>

fun contain_call :: "'a outcome \<Rightarrow> callback_error + 'a" where
  "contain_call (Returns d) = Inr d"
| "contain_call (Fails e) = Inl e"
| "contain_call Panics = Inl CallbackPanicked"

fun decide :: "unicode_tables \<Rightarrow> policy \<Rightarrow> field \<Rightarrow> decision outcome"
  and decide_chain :: "unicode_tables \<Rightarrow> policy list \<Rightarrow> field \<Rightarrow> decision outcome" where
  "decide u NilPolicy f = Panics"
| "decide u NilKeyPolicy f = Fails CallbackFailed"
| "decide u NilChain f = Fails CallbackFailed"
| "decide u (KeyPol p) f = Returns (key_policy_decide u p f)"
| "decide u (ChainPolicy ps) f = decide_chain u ps f"
| "decide u (PolicyFunc g) f = (case g of None \<Rightarrow> Fails CallbackFailed | Some h \<Rightarrow> h f)"
| "decide u (ForeignPolicy _ h) f = h f"
| "decide_chain u [] f = Returns no_opinion"
| "decide_chain u (p # ps) f =
     (if is_nil_policy p then Fails CallbackFailed
      else case contain_call (decide u p f) of
        Inl e \<Rightarrow> Fails e
      | Inr d \<Rightarrow> if dec_omit d \<or> \<not> is_nil_rule (dec_rule d) then Returns d else decide_chain u ps f)"

definition call_policy :: "unicode_tables \<Rightarrow> policy \<Rightarrow> field \<Rightarrow> callback_error + decision" where
  "call_policy u p f = contain_call (decide u p f)"

section \<open>The shape of a chain\<close>

text \<open>\<open>Chain\<close> copies the policies and wraps them.\<close>

definition chain :: "policy list \<Rightarrow> policy" where
  "chain policies = ChainPolicy policies"

fun is_empty_policy_chain :: "policy \<Rightarrow> bool" where
  "is_empty_policy_chain (ChainPolicy ps) = list_all is_empty_policy_chain ps"
| "is_empty_policy_chain _ = False"

fun has_nil_policy_chain :: "policy \<Rightarrow> bool" where
  "has_nil_policy_chain (ChainPolicy ps) = list_ex (\<lambda>p. is_nil_policy p \<or> has_nil_policy_chain p) ps"
| "has_nil_policy_chain _ = False"

text \<open>\<open>policyNeedsPaths\<close>; its callers have ruled out the nil pointers.\<close>

fun policy_needs_paths :: "policy \<Rightarrow> bool" where
  "policy_needs_paths (ChainPolicy ps) = list_ex policy_needs_paths ps"
| "policy_needs_paths NilChain = False"
| "policy_needs_paths (KeyPol _) = False"
| "policy_needs_paths NilKeyPolicy = False"
| "policy_needs_paths _ = True"

section \<open>The default policy\<close>

definition default_bindings :: "binding list" where
  "default_bindings =
     [\<lparr>b_keys = [''password'', ''passwd'', ''passphrase'', ''pwd''], b_rule = Builtin PasswordRule\<rparr>,
      \<lparr>b_keys = [''token'', ''access_token'', ''refresh_token'', ''api_key'', ''apikey'', ''api_token'', ''secret'',
         ''client_secret'', ''secret_key'', ''secret_access_key'', ''aws_secret_access_key'', ''id_token'',
         ''private_key'', ''private_token'', ''session_id'', ''credentials'', ''auth_token'', ''otp''],
       b_rule = Builtin TokenRule\<rparr>,
      \<lparr>b_keys = [''email'', ''e-mail''], b_rule = Builtin EmailRule\<rparr>,
      \<lparr>b_keys = [''phone'', ''phone_number'', ''mobile''], b_rule = Builtin PhoneRule\<rparr>,
      \<lparr>b_keys = [''id'', ''user_id'', ''customer_id''], b_rule = Builtin IdRule\<rparr>,
      \<lparr>b_keys = [''card'', ''card_number'', ''pan''], b_rule = Builtin CardRule\<rparr>,
      \<lparr>b_keys = [''authorization'', ''cookie'', ''set-cookie'', ''x-api-key'', ''x-api-token'', ''x-access-token'',
         ''x-auth-token'', ''proxy-authorization'', ''x-csrf-token'', ''cvv'', ''cvc''],
       b_rule = Builtin FullRule\<rparr>]"

definition default_policy :: "unicode_tables \<Rightarrow> policy" where
  "default_policy u = (case new_key_policy u default_bindings of
       Inl _ \<Rightarrow> NilKeyPolicy
     | Inr p \<Rightarrow> KeyPol p)"

section \<open>ASCII keys\<close>

definition lower_char :: "char \<Rightarrow> char" where
  "lower_char c = (if upper_ascii c then chr (byte c + 32) else c)"

lemma runes_ascii: "is_ascii s \<Longrightarrow> runes s = map byte s"
  by (induction s) (auto simp: is_ascii_def runes_def)

lemma string_of_ascii_runes: "\<forall>r \<in> set rs. r < 128 \<Longrightarrow> string_of_runes rs = map chr rs"
  by (induction rs) (auto simp: string_of_runes_def encode_ascii)

lemma chr_ascii_lower: "byte c < 128 \<Longrightarrow> chr (ascii_lower (byte c)) = lower_char c"
  by (simp add: ascii_lower_def lower_char_def upper_ascii_def char_le_byte)

lemma ascii_lower_less: "r < 128 \<Longrightarrow> ascii_lower r < 128"
  by (simp add: ascii_lower_def)

lemma lower_string_ascii:
  assumes "ascii_tables u" and "is_ascii s" shows "lower_string u s = map lower_char s"
proof -
  have low: "to_lower u (byte c) = ascii_lower (byte c)" if "c \<in> set s" for c
    using assms that by (simp add: ascii_tables_def is_ascii_def list_all_iff)
  have "lower_string u s = string_of_runes (map (\<lambda>c. ascii_lower (byte c)) s)"
    unfolding lower_string_def runes_ascii [OF assms(2)] map_map o_def using low by (metis map_cong)
  also have "\<dots> = map chr (map (\<lambda>c. ascii_lower (byte c)) s)"
    using assms(2) by (intro string_of_ascii_runes) (auto simp: is_ascii_def list_all_iff ascii_lower_less)
  finally show ?thesis using assms(2) by (simp add: is_ascii_def list_all_iff chr_ascii_lower)
qed

lemma byte_lower_char: "byte c < 128 \<Longrightarrow> byte (lower_char c) = ascii_lower (byte c)"
  using ascii_lower_less [of "byte c"] by (simp flip: chr_ascii_lower)

lemma ascii_lower_eq_iff: "byte c < 128 \<Longrightarrow> byte d < 128
    \<Longrightarrow> ascii_lower (byte c) = ascii_lower (byte d) \<longleftrightarrow> lower_char c = lower_char d"
  by (simp add: char_eq_byte [of "lower_char c"] byte_lower_char)

lemma equal_fold_ascii:
  assumes "ascii_tables u" and "is_ascii s" and "is_ascii t"
  shows "equal_fold u s t \<longleftrightarrow> map lower_char s = map lower_char t"
  using assms(2,3)
proof (induction s arbitrary: t)
  case Nil
  then show ?case by (cases t) (auto simp: equal_fold_def runes_ascii)
next
  case (Cons c s)
  show ?case
  proof (cases t)
    case (Cons d t')
    have cd: "byte c < 128" "byte d < 128" "is_ascii s" "is_ascii t'"
      using Cons.prems by (auto simp: Cons is_ascii_def)
    then have "fold_eq u (byte c) (byte d) \<longleftrightarrow> lower_char c = lower_char d"
      using assms(1) ascii_lower_eq_iff by (simp add: ascii_tables_def)
    then show ?thesis using Cons.IH [OF cd(3,4)] Cons.prems cd
      by (simp add: Cons equal_fold_def runes_ascii)
  qed (use Cons.prems in \<open>simp add: equal_fold_def runes_ascii\<close>)
qed

lemma strip_filter: "strip_key_separators key = filter (\<lambda>c. \<not> key_separator c) key"
  by (auto simp: strip_key_separators_def list_ex_iff filter_id_conv)

lemma strip_ascii: "is_ascii key \<Longrightarrow> is_ascii (strip_key_separators key)"
  by (simp add: strip_filter is_ascii_def list_all_iff)

lemma normalize_ascii_spec:
  "normalize_ascii key = (if is_ascii key then Some (map lower_char (strip_key_separators key)) else None)"
  by (induction key) (auto simp: is_ascii_def strip_filter lower_char_def)

section \<open>What is compiled\<close>

definition compatible :: "unicode_tables \<Rightarrow> key_entry \<Rightarrow> key_entry \<Rightarrow> bool" where
  "compatible u e e' \<longleftrightarrow> equal_fold u (fst e) (fst e') \<longrightarrow> same_rule (snd e) (snd e')"

definition acceptable :: "unicode_tables \<Rightarrow> key_entry list \<Rightarrow> bool" where
  "acceptable u es \<longleftrightarrow> list_all (\<lambda>e. fst e \<noteq> []) es \<and> sorted_wrt (compatible u) es"

lemma acceptable_append: "acceptable u (xs @ ys) \<longleftrightarrow>
    acceptable u xs \<and> acceptable u ys \<and> (\<forall>x \<in> set xs. \<forall>y \<in> set ys. compatible u x y)"
  by (auto simp: acceptable_def sorted_wrt_append)

lemma accept_keys_spec:
  "acceptable u acc \<Longrightarrow> accept_keys u rule keys (acc, a) =
     (let es = map (\<lambda>key. (strip_key_separators key, rule)) keys in
      if acceptable u (acc @ es) then Inr (acc @ es, a \<and> list_all is_ascii keys) else Inl (Wrapped CodeInvalidConfig))"
proof (induction keys arbitrary: acc a)
  case (Cons key keys)
  let ?e = "(strip_key_separators key, rule)"
  let ?es = "map (\<lambda>key. (strip_key_separators key, rule)) keys"
  have step: "acceptable u (acc @ [?e]) \<longleftrightarrow> fst ?e \<noteq> [] \<and> (\<forall>x \<in> set acc. compatible u x ?e)"
    using Cons.prems by (auto simp: acceptable_append) (simp_all add: acceptable_def)
  have whole: "acceptable u (acc @ ?e # ?es) \<Longrightarrow> acceptable u (acc @ [?e])"
    using acceptable_append [of u "acc @ [?e]" ?es] by simp
  show ?case
  proof (cases "acceptable u (acc @ [?e])")
    case True
    then show ?thesis using Cons.IH [OF True] step
      by (auto simp: Let_def list_ex_iff compatible_def)
  next
    case False
    then show ?thesis using step whole by (auto simp: Let_def list_ex_iff compatible_def)
  qed
qed (simp add: Let_def)

lemma accept_bindings_spec:
  "acceptable u acc \<Longrightarrow> accept_bindings u bs (acc, a) =
     (if (\<forall>b \<in> set bs. \<not> is_nil_rule (b_rule b)) \<and> acceptable u (acc @ binding_entries bs)
      then Inr (acc @ binding_entries bs, a \<and> (\<forall>b \<in> set bs. list_all is_ascii (b_keys b)))
      else Inl (Wrapped CodeInvalidConfig))"
proof (induction bs arbitrary: acc a)
  case (Cons b bs)
  let ?es = "map (\<lambda>key. (strip_key_separators key, b_rule b)) (b_keys b)"
  have entries: "binding_entries (b # bs) = ?es @ binding_entries bs" by (simp add: binding_entries_def)
  show ?case
  proof (cases "acceptable u (acc @ ?es)")
    case True
    then show ?thesis using Cons.IH [OF True] accept_keys_spec [OF Cons.prems] by (auto simp: entries)
  next
    case False
    then have "\<not> acceptable u (acc @ binding_entries (b # bs))"
      using acceptable_append [of u "acc @ ?es" "binding_entries bs"] by (auto simp: entries)
    then show ?thesis using False accept_keys_spec [OF Cons.prems] by auto
  qed
qed (simp add: binding_entries_def)

lemma new_key_policy_Inr:
  "new_key_policy u bs = Inr p \<longleftrightarrow> (\<forall>b \<in> set bs. \<not> is_nil_rule (b_rule b)) \<and> acceptable u (binding_entries bs)
    \<and> p = \<lparr>kp_ordered = binding_entries bs, kp_entries = foldl (add_entry u) (\<lambda>_. []) (binding_entries bs),
        kp_ascii_only = (\<forall>b \<in> set bs. list_all is_ascii (b_keys b))\<rparr>"
  using accept_bindings_spec [of u "[]" bs True]
  by (auto simp: new_key_policy_def acceptable_def [of u "[]"])

lemma bucket_entries:
  "foldl (add_entry u) m es k = m k @ filter (\<lambda>e. lower_string u (fst e) = k) es"
  by (induction es arbitrary: m) (auto simp: add_entry_def)

section \<open>Lookup\<close>

lemma equal_fold_trans: "equivp (fold_eq u) \<Longrightarrow> equal_fold u a b \<Longrightarrow> equal_fold u b c \<Longrightarrow> equal_fold u a c"
  unfolding equal_fold_def by (rule list_all2_trans [of "fold_eq u"]) (auto dest: equivp_transp)

lemma equal_fold_sym: "equivp (fold_eq u) \<Longrightarrow> equal_fold u a b \<Longrightarrow> equal_fold u b a"
  unfolding equal_fold_def by (auto simp: list_all2_conv_all_nth dest: equivp_symp)

lemma equal_fold_Nil: "equal_fold u a [] \<Longrightarrow> a = []"
  using concat_chunks [of a] by (simp add: equal_fold_def runes_def)

text \<open>Any two entries a key folds to carry the same rule, as seen from the first.\<close>

lemma first_entry_rule:
  assumes eq: "equivp (fold_eq u)" and ok: "sorted_wrt (compatible u) es"
    and e': "e' \<in> set es" "equal_fold u (fst e') s"
  obtains e where "find (\<lambda>e. equal_fold u (fst e) s) es = Some e" and "e' = e \<or> same_rule (snd e) (snd e')"
proof -
  have "find (\<lambda>e. equal_fold u (fst e) s) es \<noteq> None"
    using e' unfolding find_None_iff by blast
  then obtain e where find: "find (\<lambda>e. equal_fold u (fst e) s) es = Some e" by blast
  then obtain i where i: "i < length es" "e = es ! i" "equal_fold u (fst e) s"
      "\<And>j. j < i \<Longrightarrow> \<not> equal_fold u (fst (es ! j)) s"
    by (auto simp: find_Some_iff)
  obtain j where j: "j < length es" "e' = es ! j" using e'(1) by (auto simp: in_set_conv_nth)
  then have "i \<le> j" using i(4) e'(2) by (meson not_le)
  then have "e' = e \<or> compatible u e e'"
    using sorted_wrt_nth_less [OF ok, of i j] i(2) j by (cases "i = j") auto
  moreover have "equal_fold u (fst e) (fst e')"
    using i(3) e'(2) eq equal_fold_sym equal_fold_trans by blast
  ultimately show thesis using that [OF find] by (auto simp: compatible_def)
qed

lemma entries_ascii:
  "\<forall>b \<in> set bs. list_all is_ascii (b_keys b) \<Longrightarrow> e \<in> set (binding_entries bs) \<Longrightarrow> is_ascii (fst e)"
  by (auto simp: binding_entries_def list_all_iff strip_ascii)

text \<open>The fast path looks up the bucket of the key's lower-case form.\<close>

lemma decide_ascii_bucket:
  assumes "ascii_tables u"
  shows "decide_ascii u p key =
    (if is_ascii key then Some (case kp_entries p (map lower_char (strip_key_separators key)) of
        [] \<Rightarrow> no_opinion | e # _ \<Rightarrow> decide_rule (snd e)) else None)"
  using lower_string_ascii [OF assms strip_ascii] by (simp add: decide_ascii_def normalize_ascii_spec)

section \<open>Properties\<close>

text \<open>
  C18: \<open>NewKeyPolicy\<close> accepts exactly the bindings without a nil rule, without a key
  that is empty once its separators are stripped, and in which two keys that fold
  to each other name the same comparable rule.
\<close>

theorem new_key_policy_accepts:
  "(\<exists>p. new_key_policy u bs = Inr p) \<longleftrightarrow>
     list_all (\<lambda>b. \<not> is_nil_rule (b_rule b)) bs
     \<and> list_all (\<lambda>e. fst e \<noteq> []) (binding_entries bs)
     \<and> sorted_wrt (\<lambda>e e'. if equal_fold u (fst e) (fst e') then same_rule (snd e) (snd e') else True)
         (binding_entries bs)"
proof -
  have "compatible u = (\<lambda>e e'. if equal_fold u (fst e) (fst e') then same_rule (snd e) (snd e') else True)"
    by (intro ext) (simp add: compatible_def)
  then show ?thesis by (simp add: new_key_policy_Inr acceptable_def list_all_iff)
qed

text \<open>An entry whose key folds to the field key decides as the reference search does.\<close>

definition same_as_first :: "unicode_tables \<Rightarrow> key_entry list \<Rightarrow> bytes \<Rightarrow> decision \<Rightarrow> bool" where
  "same_as_first u es s d \<longleftrightarrow> (case find (\<lambda>e. equal_fold u (fst e) s) es of
       None \<Rightarrow> d = no_opinion
     | Some e \<Rightarrow> \<exists>r. d = decide_rule r \<and> (r = snd e \<or> same_rule (snd e) r))"

lemma same_as_firstI:
  assumes "equivp (fold_eq u)" and "sorted_wrt (compatible u) es" and "e' \<in> set es" and "equal_fold u (fst e') s"
  shows "same_as_first u es s (decide_rule (snd e'))"
  unfolding same_as_first_def
proof (rule first_entry_rule [OF assms])
  fix e assume e: "find (\<lambda>e. equal_fold u (fst e) s) es = Some e" "e' = e \<or> same_rule (snd e) (snd e')"
  show "case find (\<lambda>e. equal_fold u (fst e) s) es of None \<Rightarrow> decide_rule (snd e') = no_opinion
      | Some e \<Rightarrow> \<exists>r. decide_rule (snd e') = decide_rule r \<and> (r = snd e \<or> same_rule (snd e) r)"
    unfolding e(1) option.case by (intro exI [of _ "snd e'"]) (use e(2) in blast)
qed

lemma same_as_first_none: "\<forall>e \<in> set es. \<not> equal_fold u (fst e) s \<Longrightarrow> same_as_first u es s no_opinion"
proof -
  assume "\<forall>e \<in> set es. \<not> equal_fold u (fst e) s"
  then have "find (\<lambda>e. equal_fold u (fst e) s) es = None" by (auto simp: find_None_iff)
  then show ?thesis by (simp add: same_as_first_def)
qed

text \<open>The bucket of an ASCII key holds exactly the entries that fold to it.\<close>

lemma bucket_decides:
  assumes "equivp (fold_eq u)" and u: "ascii_tables u" and "sorted_wrt (compatible u) es"
    and ascii: "\<And>e. e \<in> set es \<Longrightarrow> is_ascii (fst e)" and sa: "is_ascii s"
  shows "same_as_first u es s (case filter (\<lambda>e. lower_string u (fst e) = map lower_char s) es of
      [] \<Rightarrow> no_opinion | e # _ \<Rightarrow> decide_rule (snd e))"
proof -
  let ?bucket = "filter (\<lambda>e. lower_string u (fst e) = map lower_char s) es"
  have fold: "e \<in> set ?bucket \<longleftrightarrow> e \<in> set es \<and> equal_fold u (fst e) s" for e
    by (cases "e \<in> set es") (simp_all add: lower_string_ascii [OF u ascii] equal_fold_ascii [OF u ascii sa])
  show ?thesis
  proof (cases ?bucket)
    case Nil
    have "same_as_first u es s no_opinion"
      by (rule same_as_first_none) (use fold Nil in auto)
    then show ?thesis unfolding Nil list.case .
  next
    case (Cons e' rest)
    then have "e' \<in> set es" "equal_fold u (fst e') s" using fold [of e'] by auto
    from same_as_firstI [OF assms(1,3) this] show ?thesis unfolding Cons list.case .
  qed
qed

text \<open>The Unicode path: the lower-case bucket first, then the scan in declaration order.\<close>

lemma scan_decides:
  assumes "equivp (fold_eq u)" and "sorted_wrt (compatible u) es"
  shows "same_as_first u es s (case find (\<lambda>e. equal_fold u (fst e) s) (filter (\<lambda>e. lower_string u (fst e) = k) es) of
      Some e \<Rightarrow> decide_rule (snd e)
    | None \<Rightarrow> (case find (\<lambda>e. equal_fold u (fst e) s) es of
        Some e \<Rightarrow> decide_rule (snd e) | None \<Rightarrow> no_opinion))"
proof (cases "find (\<lambda>e. equal_fold u (fst e) s) (filter (\<lambda>e. lower_string u (fst e) = k) es)")
  case None
  show ?thesis unfolding None option.case
    by (auto simp: same_as_first_def split: option.splits)
next
  case (Some e')
  then have "e' \<in> set es" "equal_fold u (fst e') s" by (auto simp: find_Some_iff dest: nth_mem)
  from same_as_firstI [OF assms this] show ?thesis unfolding Some option.case .
qed

text \<open>
  C17: However a compiled key policy finds its entry, by the stack buffer, by the
  lower-case bucket or by the scan, the decision is that of the reference search: the
  first declared key that folds to the stripped field key.  The rule is that entry's,
  or one \<open>sameRule\<close> took for the same.
\<close>

theorem key_policy_decides_by_fold:
  assumes "new_key_policy u bs = Inr p" and "equivp (fold_eq u)" and "ascii_tables u"
  shows "case find (\<lambda>e. equal_fold u (fst e) (strip_key_separators (f_key f))) (binding_entries bs) of
      None \<Rightarrow> key_policy_decide u p f = no_opinion
    | Some e \<Rightarrow> \<exists>r. key_policy_decide u p f = decide_rule r \<and> (r = snd e \<or> same_rule (snd e) r)"
proof -
  define s where "s = strip_key_separators (f_key f)"
  define es where "es = binding_entries bs"
  have p: "kp_ordered p = es" "\<And>k. kp_entries p k = filter (\<lambda>e. lower_string u (fst e) = k) es"
      "kp_ascii_only p \<longleftrightarrow> (\<forall>b \<in> set bs. list_all is_ascii (b_keys b))"
    and ok: "acceptable u es"
    using assms(1) by (auto simp: new_key_policy_Inr es_def bucket_entries)
  have sorted: "sorted_wrt (compatible u) es" and nonempty: "\<And>e. e \<in> set es \<Longrightarrow> fst e \<noteq> []"
    using ok by (auto simp: acceptable_def list_all_iff)
  have empty: "same_as_first u es [] no_opinion"
    by (rule same_as_first_none) (use nonempty equal_fold_Nil in blast)
  have "same_as_first u es s (key_policy_decide u p f)"
  proof (cases "f_key f = []")
    case True
    then show ?thesis using empty by (simp add: key_policy_decide_def s_def strip_filter)
  next
    case key: False
    show ?thesis
    proof (cases "kp_ascii_only p \<and> is_ascii (f_key f)")
      case True
      have ascii: "is_ascii (fst e)" if "e \<in> set es" for e
        using True p(3) that entries_ascii [of bs e] by (simp add: es_def)
      have sa: "is_ascii s" using True by (simp add: s_def strip_ascii)
      show ?thesis using True key bucket_decides [OF assms(2,3) sorted ascii sa]
        by (simp add: key_policy_decide_def decide_ascii_bucket [OF assms(3)] p(2) s_def)
    next
      case False
      then have "(if kp_ascii_only p then decide_ascii u p (f_key f) else None) = None"
        by (simp add: decide_ascii_bucket [OF assms(3)])
      then show ?thesis using key empty scan_decides [OF assms(2) sorted, of s "lower_string u s"]
        by (simp add: key_policy_decide_def Let_def p(1,2) cong: option.case_cong flip: s_def)
    qed
  qed
  then show ?thesis unfolding same_as_first_def s_def es_def .
qed

theorem key_policy_decides_by_fold_witness:
  "\<exists>r. key_policy_decide ascii_only_tables
      (projr (new_key_policy ascii_only_tables [\<lparr>b_keys = [''user_id'', ''User-ID''], b_rule = Builtin IdRule\<rparr>]))
      (zero_field\<lparr>f_key := ''USER.ID''\<rparr>) = decide_rule r"
proof -
  let ?bs = "[\<lparr>b_keys = [''user_id'', ''User-ID''], b_rule = Builtin IdRule\<rparr>]"
  have e: "equivp (fold_eq ascii_only_tables)"
    by (simp add: ascii_only_tables_def equivp_def fun_eq_iff) metis
  have "acceptable ascii_only_tables (binding_entries ?bs)"
    by (simp add: acceptable_def binding_entries_def compatible_def strip_filter key_separator_def same_rule_def
        is_nil_rule_def)
  then have "\<exists>p. new_key_policy ascii_only_tables ?bs = Inr p"
    by (simp only: new_key_policy_Inr) (simp add: is_nil_rule_def)
  then have p: "new_key_policy ascii_only_tables ?bs = Inr (projr (new_key_policy ascii_only_tables ?bs))"
    by (elim exE) (simp only: sum.sel(2))
  have find: "find (\<lambda>e. equal_fold ascii_only_tables (fst e) (strip_key_separators (f_key (zero_field\<lparr>f_key := ''USER.ID''\<rparr>))))
      (binding_entries ?bs) = Some (''userid'', Builtin IdRule)"
    by (simp add: binding_entries_def strip_filter key_separator_def equal_fold_ascii [OF ascii_only_tables_ok]
        is_ascii_def lower_char_def upper_ascii_def char_le_byte) (simp add: char_eq_byte)
  show ?thesis
    using key_policy_decides_by_fold [OF p e ascii_only_tables_ok, of "zero_field\<lparr>f_key := ''USER.ID''\<rparr>"]
    unfolding find by auto
qed

text \<open>
  C19: A chain answers with its first opinion: once the policies before it are not nil
  and have none, the next policy decides alone: nil or failing it fails the chain with
  its own class of error (a panic stays a panic), an opinion is returned, and without
  one the rest of the chain answers.
\<close>

theorem chain_first_opinion:
  assumes "\<forall>q \<in> set qs. \<not> is_nil_policy q
      \<and> (\<exists>d. call_policy u q f = Inr d \<and> \<not> dec_omit d \<and> is_nil_rule (dec_rule d))"
  shows "call_policy u (chain (qs @ p # ps)) f =
     (if is_nil_policy p then Inl CallbackFailed
      else case call_policy u p f of
        Inl e \<Rightarrow> Inl e
      | Inr d \<Rightarrow> if dec_omit d \<or> \<not> is_nil_rule (dec_rule d) then Inr d else call_policy u (chain ps) f)"
  using assms
proof (induction qs)
  case Nil
  then show ?case by (simp add: call_policy_def chain_def split: sum.splits)
next
  case (Cons q qs)
  then obtain d where "\<not> is_nil_policy q" "contain_call (decide u q f) = Inr d"
      "\<not> dec_omit d" "is_nil_rule (dec_rule d)"
    by (auto simp: call_policy_def)
  then have "call_policy u (chain ((q # qs) @ p # ps)) f = call_policy u (chain (qs @ p # ps)) f"
    by (simp add: call_policy_def chain_def)
  then show ?case using Cons by simp
qed

theorem chain_first_opinion_witness:
  "call_policy ascii_only_tables
     (chain ([ForeignPolicy False (\<lambda>f. Returns no_opinion)]
        @ PolicyFunc (Some (\<lambda>f. Panics)) # [default_policy ascii_only_tables])) zero_field = Inl CallbackPanicked"
  by (subst chain_first_opinion)
     (simp_all add: call_policy_def no_opinion_def is_nil_rule_def)

text \<open>The table of \<open>DefaultPolicy\<close>, by the lower-case key without separators.\<close>

definition default_table :: "bytes \<Rightarrow> rule option" where
  "default_table = map_of (map (\<lambda>e. (map lower_char (fst e), snd e)) (binding_entries default_bindings))"

lemma filter_map_of:
  "map_of (map (\<lambda>e. (g (fst e), snd e)) es) k = (case filter (\<lambda>e. g (fst e) = k) es of [] \<Rightarrow> None | e # _ \<Rightarrow> Some (snd e))"
  by (induction es) auto

lemma default_ascii: "b \<in> set default_bindings \<Longrightarrow> list_all is_ascii (b_keys b)"
  by (auto simp: default_bindings_def is_ascii_def)

lemma default_lower: "e \<in> set (binding_entries default_bindings) \<Longrightarrow> map lower_char (fst e) = fst e"
  by (auto simp: default_bindings_def binding_entries_def strip_filter key_separator_def lower_char_def
      upper_ascii_def char_le_byte)

lemma default_consistent: "list_all (\<lambda>e. fst e \<noteq> [] \<and> map_of (binding_entries default_bindings) (fst e) = Some (snd e))
    (binding_entries default_bindings)"
  by (simp add: binding_entries_def default_bindings_def strip_filter key_separator_def)

lemma default_rules: "e \<in> set (binding_entries default_bindings) \<Longrightarrow> \<exists>b. snd e = Builtin b"
  by (auto simp: binding_entries_def default_bindings_def)

lemma default_acceptable:
  assumes "ascii_tables u" shows "acceptable u (binding_entries default_bindings)"
proof -
  let ?es = "binding_entries default_bindings"
  have "compatible u e e'" if e: "e \<in> set ?es" and e': "e' \<in> set ?es" for e e'
    unfolding compatible_def
  proof
    have ascii: "is_ascii (fst e)" "is_ascii (fst e')"
      using entries_ascii [OF _ e] entries_ascii [OF _ e'] default_ascii by blast+
    assume "equal_fold u (fst e) (fst e')"
    then have "fst e = fst e'"
      using default_lower [OF e] default_lower [OF e'] by (simp add: equal_fold_ascii [OF assms ascii])
    then have "snd e = snd e'"
      using default_consistent e e' unfolding list_all_iff by (metis option.inject)
    then show "same_rule (snd e) (snd e')" using default_rules [OF e] by (auto simp: same_rule_def is_nil_rule_def)
  qed
  then show ?thesis
    using default_consistent by (auto simp: acceptable_def list_all_iff intro: sorted_wrt_mono_rel [where P = "\<lambda>_ _. True"])
qed

text \<open>
  \<open>DefaultPolicy\<close> gives an ASCII key the rule of its table, whatever the letter
  case of the key and whatever separators it is written with, and has no opinion on
  any other ASCII key.
\<close>

theorem default_policy_decides:
  assumes "ascii_tables u" and "is_ascii (f_key f)"
  shows "call_policy u (default_policy u) f =
     Inr (case default_table (map lower_char (strip_key_separators (f_key f))) of
            None \<Rightarrow> no_opinion | Some r \<Rightarrow> decide_rule r)"
proof -
  let ?es = "binding_entries default_bindings" and ?s = "strip_key_separators (f_key f)"
  obtain p where p: "new_key_policy u default_bindings = Inr p" "kp_ascii_only p"
      "\<And>k. kp_entries p k = filter (\<lambda>e. lower_string u (fst e) = k) ?es"
    using new_key_policy_Inr [of u default_bindings] default_acceptable [OF assms(1)] default_ascii
    by (auto simp: bucket_entries) (auto simp: default_bindings_def is_nil_rule_def)
  have "lower_string u (fst e) = map lower_char (fst e)" if "e \<in> set ?es" for e
    using lower_string_ascii [OF assms(1) entries_ascii [OF _ that]] default_ascii by blast
  then have bucket: "kp_entries p k = filter (\<lambda>e. map lower_char (fst e) = k) ?es" for k
    unfolding p(3) by (intro filter_cong) auto
  have "filter (\<lambda>e. map lower_char (fst e) = []) ?es = []"
    using default_consistent by (auto simp: list_all_iff filter_empty_conv)
  then have "key_policy_decide u p f = (case default_table (map lower_char ?s) of
      None \<Rightarrow> no_opinion | Some r \<Rightarrow> decide_rule r)"
    using assms p(2) unfolding default_table_def filter_map_of
    by (cases "f_key f = []")
       (auto simp: key_policy_decide_def decide_ascii_bucket bucket strip_filter split: list.splits)
  then show ?thesis by (simp add: call_policy_def default_policy_def p(1))
qed

theorem default_policy_decides_witness:
  "call_policy ascii_only_tables (default_policy ascii_only_tables) (zero_field\<lparr>f_key := ''Access-Token''\<rparr>)
     = Inr (decide_rule (Builtin TokenRule))"
proof -
  have "default_table (map lower_char (strip_key_separators ''Access-Token'')) = Some (Builtin TokenRule)"
    unfolding default_table_def
    by (simp add: binding_entries_def default_bindings_def strip_filter key_separator_def lower_char_def
        upper_ascii_def char_le_byte) (simp add: char_eq_byte)?
  then show ?thesis
    using default_policy_decides [OF ascii_only_tables_ok, of "zero_field\<lparr>f_key := ''Access-Token''\<rparr>"]
    by (simp add: is_ascii_def)
qed

end
