(* ===== verification/Detect.thy ===== *)
theory Detect
  imports Prelude
begin

text \<open>
  Finding secrets in free text (\<open>internal/detect\<close>): the detectors of \<open>patterns.go\<close>,
  each a function of the text and the position it is tried at, and the scan of
  \<open>detect.go\<close> that tries them.  A detector that does not match is \<open>None\<close>.
\<close>

section \<open>Byte classes\<close>

record detect_set =
  cards :: bool
  aws_key_ids :: bool

datatype span_kind =
    KindBearer | KindPEM | KindJWT | KindProviderToken | KindURLUserinfo | KindCard | KindAWSKeyID

record span =
  span_start :: nat
  span_end :: nat
  span_kind :: span_kind

record pair =
  key_start :: nat
  key_end :: nat
  value_start :: nat
  value_end :: nat

definition is_letter :: "char \<Rightarrow> bool" where
  "is_letter c \<longleftrightarrow> within CHR ''a'' CHR ''z'' c \<or> within CHR ''A'' CHR ''Z'' c"

definition is_digit :: "char \<Rightarrow> bool" where
  "is_digit c \<longleftrightarrow> within CHR ''0'' CHR ''9'' c"

definition is_alnum :: "char \<Rightarrow> bool" where
  "is_alnum c \<longleftrightarrow> is_letter c \<or> is_digit c"

definition is_word :: "char \<Rightarrow> bool" where
  "is_word c \<longleftrightarrow> is_alnum c \<or> c = CHR ''_''"

definition is_base64_url :: "char \<Rightarrow> bool" where
  "is_base64_url c \<longleftrightarrow> is_word c \<or> c = CHR ''-''"

definition is_token68 :: "char \<Rightarrow> bool" where
  "is_token68 c \<longleftrightarrow> is_alnum c \<or> c = CHR ''-'' \<or> c = CHR ''.'' \<or> c = CHR ''_'' \<or> c = CHR ''~''
     \<or> c = CHR ''+'' \<or> c = CHR ''/''"

definition is_key_char :: "char \<Rightarrow> bool" where
  "is_key_char c \<longleftrightarrow> is_word c \<or> c = CHR ''.'' \<or> c = CHR ''-''"

definition is_scheme_char :: "char \<Rightarrow> bool" where
  "is_scheme_char c \<longleftrightarrow> is_alnum c \<or> c = CHR ''+'' \<or> c = CHR ''-'' \<or> c = CHR ''.''"

definition is_space :: "char \<Rightarrow> bool" where
  "is_space c \<longleftrightarrow> c \<le> CHR '' '' \<or> c = CHR 0x7F"

definition lower :: "char \<Rightarrow> char" where
  "lower c = (if within CHR ''A'' CHR ''Z'' c then chr (byte c + 32) else c)"

definition is_jwt_char :: "char \<Rightarrow> bool" where
  "is_jwt_char c \<longleftrightarrow> is_base64_url c \<or> c = CHR ''.''"

definition is_alnum_dash :: "char \<Rightarrow> bool" where
  "is_alnum_dash c \<longleftrightarrow> is_alnum c \<or> c = CHR ''-''"

definition is_key_start :: "char \<Rightarrow> bool" where
  "is_key_start c \<longleftrightarrow> is_letter c \<or> c = CHR ''_'' \<or> c = CHR ''-'' \<or> c = CHR ''.''"

definition is_value_char :: "char \<Rightarrow> bool" where
  "is_value_char c \<longleftrightarrow> c \<notin> set '',;&)]}>'' \<and> c \<noteq> CHR 0x22 \<and> c \<noteq> CHR 0x27 \<and> \<not> is_space c"

definition is_separator :: "char \<Rightarrow> bool" where
  "is_separator c \<longleftrightarrow> c = CHR '','' \<or> c = CHR '';'' \<or> c = CHR ''&''"

definition is_blank :: "char \<Rightarrow> bool" where
  "is_blank c \<longleftrightarrow> c = CHR '' '' \<or> c = CHR 0x09"

lemmas detect_classes [byte_class_defs] = is_letter_def is_digit_def is_alnum_def is_word_def
  is_base64_url_def is_token68_def is_key_char_def is_scheme_char_def is_space_def is_jwt_char_def
  is_alnum_dash_def is_key_start_def is_value_char_def is_separator_def is_blank_def

section \<open>Scanning helpers\<close>

definition has_prefix_at :: "bytes \<Rightarrow> nat \<Rightarrow> bytes \<Rightarrow> bool" where
  "has_prefix_at s index pfx \<longleftrightarrow>
     index + length pfx \<le> length s \<and> slice s index (index + length pfx) = pfx"

definition has_fold_prefix_at :: "bytes \<Rightarrow> nat \<Rightarrow> bytes \<Rightarrow> bool" where
  "has_fold_prefix_at s index pfx \<longleftrightarrow>
     index + length pfx \<le> length s \<and> map lower (slice s index (index + length pfx)) = pfx"

definition run_end :: "bytes \<Rightarrow> nat \<Rightarrow> (char \<Rightarrow> bool) \<Rightarrow> nat" where
  "run_end s index cls = advance (\<lambda>i. cls (s ! i)) (length s) index"

definition bounded_before :: "bytes \<Rightarrow> nat \<Rightarrow> (char \<Rightarrow> bool) \<Rightarrow> bool" where
  "bounded_before s index cls \<longleftrightarrow> index = 0 \<or> \<not> cls (s ! (index - 1))"

definition contains_at :: "bytes \<Rightarrow> nat \<Rightarrow> nat \<Rightarrow> bytes \<Rightarrow> bool" where
  "contains_at s start end needle \<longleftrightarrow>
     list_ex (\<lambda>index. has_prefix_at s index needle) [start ..< end + 1 - length needle]"

definition same_bytes :: "bytes \<Rightarrow> nat \<Rightarrow> nat \<Rightarrow> nat \<Rightarrow> bool" where
  "same_bytes s at from n \<longleftrightarrow> at + n \<le> length s \<and> slice s at (at + n) = slice s from (from + n)"

definition skip_blanks :: "bytes \<Rightarrow> nat \<Rightarrow> nat" where
  "skip_blanks s index = run_end s index is_blank"

section \<open>The detectors\<close>

definition make_span :: "nat \<Rightarrow> nat \<Rightarrow> span_kind \<Rightarrow> span" where
  "make_span start end kind = \<lparr>span_start = start, span_end = end, span_kind = kind\<rparr>"

definition min_lower_token :: nat where
  "min_lower_token = 20"

definition match_bearer :: "bytes \<Rightarrow> nat \<Rightarrow> span option" where
  "match_bearer s index =
     (if \<not> bounded_before s index is_word then None
      else case (if has_fold_prefix_at s index ''bearer'' then Some 6
                 else if has_fold_prefix_at s index ''basic'' then Some 5 else None) of
        None \<Rightarrow> None
      | Some word \<Rightarrow>
          (let start = run_end s (index + word) is_blank in
           if start = index + word then None
           else (let end = run_end s (run_end s start is_token68) (\<lambda>c. c = CHR ''='') in
             if end - start < 8 then None
             else if min_lower_token \<le> end - start then Some (make_span start end KindBearer)
             else if list_ex (\<lambda>c. c < CHR ''a'' \<or> CHR ''z'' < c) (slice s start end)
             then Some (make_span start end KindBearer)
             else None)))"

text \<open>
  The label of a PEM header ends at the dashes, after 65 bytes, or at the end of the
  text; a newline in it is not a header.  The footer is the first END line with the
  same label.
\<close>

definition pem_label_end :: "bytes \<Rightarrow> nat \<Rightarrow> nat" where
  "pem_label_end s labelStart =
     advance (\<lambda>i. i - labelStart \<le> 64 \<and> \<not> has_prefix_at s i ''-----'' \<and> s ! i \<noteq> CHR 0x0A) (length s) labelStart"

definition pem_footer_at :: "bytes \<Rightarrow> nat \<Rightarrow> nat \<Rightarrow> nat \<Rightarrow> bool" where
  "pem_footer_at s labelStart labelEnd footer \<longleftrightarrow>
     (let label = footer + 9 in
      has_prefix_at s footer ''-----END '' \<and> same_bytes s label labelStart (labelEnd - labelStart)
      \<and> has_prefix_at s (label + labelEnd - labelStart) ''-----'')"

definition match_pem :: "bytes \<Rightarrow> nat \<Rightarrow> span option" where
  "match_pem s index =
     (if \<not> has_prefix_at s index ''-----BEGIN '' then None
      else (let labelStart = index + 11; labelEnd = pem_label_end s labelStart in
        if labelEnd < length s \<and> labelEnd - labelStart \<le> 64 \<and> \<not> has_prefix_at s labelEnd ''-----''
        then None
        else if \<not> has_prefix_at s labelEnd ''-----'' \<or> \<not> contains_at s labelStart labelEnd ''PRIVATE KEY''
        then None
        else (let bodyStart = labelEnd + 5;
                  footer = advance (\<lambda>i. \<not> pem_footer_at s labelStart labelEnd i) (length s) bodyStart in
          if footer < length s then
            (if footer = bodyStart then None else Some (make_span bodyStart footer KindPEM))
          else if bodyStart = length s then None
          else Some (make_span bodyStart (length s) KindPEM))))"

definition match_jwt :: "bytes \<Rightarrow> nat \<Rightarrow> span option" where
  "match_jwt s index =
     (if \<not> bounded_before s index is_jwt_char \<or> \<not> has_prefix_at s index ''eyJ'' then None
      else (let headerEnd = run_end s index is_base64_url in
        if headerEnd - index < 10 \<or> length s \<le> headerEnd \<or> s ! headerEnd \<noteq> CHR ''.'' then None
        else (let payload = headerEnd + 1 in
          if \<not> has_prefix_at s payload ''eyJ'' then None
          else (let payloadEnd = run_end s payload is_base64_url in
            if payloadEnd - payload < 10 \<or> length s \<le> payloadEnd \<or> s ! payloadEnd \<noteq> CHR ''.'' then None
            else Some (make_span index (run_end s (payloadEnd + 1) is_base64_url) KindJWT)))))"

text \<open>A \<open>providerPrefix\<close>: the prefix, the class of the token, its length, and whether it is exact.\<close>

type_synonym provider = "bytes \<times> (char \<Rightarrow> bool) \<times> nat \<times> bool"

definition provider_prefixes :: "provider list" where
  "provider_prefixes =
     [(''ghp_'', is_alnum, 36, False), (''gho_'', is_alnum, 36, False), (''ghu_'', is_alnum, 36, False),
      (''ghs_'', is_alnum, 36, False), (''ghr_'', is_alnum, 36, False),
      (''github_pat_'', is_word, 22, False), (''glpat-'', is_base64_url, 20, False),
      (''xoxb-'', is_alnum_dash, 10, False), (''xoxp-'', is_alnum_dash, 10, False),
      (''xoxa-'', is_alnum_dash, 10, False), (''xoxr-'', is_alnum_dash, 10, False),
      (''xoxs-'', is_alnum_dash, 10, False), (''xoxe-'', is_alnum_dash, 10, False),
      (''sk_live_'', is_alnum, 16, False), (''rk_live_'', is_alnum, 16, False),
      (''sk_test_'', is_alnum, 16, False), (''rk_test_'', is_alnum, 16, False),
      (''AIza'', is_base64_url, 35, True), (''npm_'', is_alnum, 36, False)]"

fun match_provider :: "bytes \<Rightarrow> nat \<Rightarrow> provider list \<Rightarrow> span option" where
  "match_provider s index [] = None"
| "match_provider s index ((pfx, cls, least, exact) # ps) =
     (if \<not> has_prefix_at s index pfx then match_provider s index ps
      else (let start = index + length pfx; end = run_end s start cls; n = end - start in
        if n < least \<or> exact \<and> n \<noteq> least then match_provider s index ps
        else Some (make_span index end KindProviderToken)))"

definition match_provider_token :: "bytes \<Rightarrow> nat \<Rightarrow> span option" where
  "match_provider_token s index =
     (if \<not> bounded_before s index is_word then None else match_provider s index provider_prefixes)"

definition match_aws_key_id :: "bytes \<Rightarrow> nat \<Rightarrow> span option" where
  "match_aws_key_id s index =
     (if \<not> bounded_before s index is_alnum then None
      else if \<not> list_ex (has_prefix_at s index) [''AKIA'', ''ASIA'', ''ABIA'', ''ACCA''] then None
      else (let end = index + 20 in
        if length s < end \<or> end < length s \<and> is_alnum (s ! end) then None
        else if list_ex (\<lambda>c. (c < CHR ''A'' \<or> CHR ''Z'' < c) \<and> \<not> is_digit c) (slice s (index + 4) end)
        then None
        else Some (make_span index end KindAWSKeyID)))"

definition userinfo_char :: "char \<Rightarrow> bool" where
  "userinfo_char c \<longleftrightarrow> \<not> (c = CHR ''/'' \<or> c = CHR ''?'' \<or> c = CHR ''#'' \<or> c = CHR ''@'' \<or> is_space c)"

definition match_url_userinfo :: "bytes \<Rightarrow> nat \<Rightarrow> span option" where
  "match_url_userinfo s index =
     (if \<not> bounded_before s index is_scheme_char then None
      else (let schemeEnd = run_end s index is_scheme_char in
        if \<not> has_prefix_at s schemeEnd ''://'' then None
        else (let start = schemeEnd + 3; end = run_end s start userinfo_char in
          if end = start \<or> end = length s \<or> s ! end \<noteq> CHR ''@'' then None
          else Some (make_span start end KindURLUserinfo))))"

text \<open>The loop of \<open>matchCard\<close>: the end of the run of digits and single separators, and the digits.\<close>

function card_run :: "bytes \<Rightarrow> nat \<Rightarrow> nat \<Rightarrow> nat \<times> nat" where
  "card_run s end digits =
     (if end < length s \<and> digits \<le> 19 then
        (if is_digit (s ! end) then card_run s (end + 1) (digits + 1)
         else if (s ! end = CHR '' '' \<or> s ! end = CHR ''-'') \<and> end + 1 < length s
            \<and> is_digit (s ! (end + 1)) \<and> is_digit (s ! (end - 1))
         then card_run s (end + 1) digits
         else (end, digits))
      else (end, digits))"
  by pat_completeness auto
termination
  by (relation "measure (\<lambda>(s, end, digits). length s - end)") auto

declare card_run.simps [simp del]

text \<open>The Luhn sum from the last digit on; every second digit is doubled.\<close>

fun luhn_sum :: "bytes \<Rightarrow> bool \<Rightarrow> nat" where
  "luhn_sum [] double = 0"
| "luhn_sum (c # cs) double =
     (if \<not> is_digit c then luhn_sum cs double
      else (let digit = byte c - 48; d = (if double then digit * 2 else digit) in
        (if double \<and> 9 < d then d - 9 else d) + luhn_sum cs (\<not> double)))"

definition luhn :: "bytes \<Rightarrow> nat \<Rightarrow> nat \<Rightarrow> bool" where
  "luhn s start end \<longleftrightarrow> luhn_sum (rev (slice s start end)) False mod 10 = 0"

definition match_card :: "bytes \<Rightarrow> nat \<Rightarrow> span option" where
  "match_card s index =
     (if \<not> bounded_before s index is_alnum then None
      else case card_run s index 0 of (end, digits) \<Rightarrow>
        if digits < 13 \<or> 19 < digits \<or> end < length s \<and> is_letter (s ! end) then None
        else if \<not> luhn s index end then None
        else Some (make_span index end KindCard))"

definition or_else :: "'a option \<Rightarrow> 'a option \<Rightarrow> 'a option" where
  "or_else a b = (case a of None \<Rightarrow> b | Some _ \<Rightarrow> a)"

definition match_span :: "bytes \<Rightarrow> nat \<Rightarrow> detect_set \<Rightarrow> span option" where
  "match_span s index dset =
     (let c = s ! index in
      if c = CHR ''-'' then match_pem s index
      else if within CHR ''0'' CHR ''9'' c then (if cards dset then match_card s index else None)
      else if \<not> is_letter c then None
      else or_else (match_bearer s index) (or_else (match_jwt s index)
        (or_else (match_provider_token s index)
          (or_else (if aws_key_ids dset then match_aws_key_id s index else None)
            (match_url_userinfo s index)))))"

section \<open>Pairs\<close>

definition max_key_len :: nat where
  "max_key_len = 64"

definition key_run_end :: "bytes \<Rightarrow> nat \<Rightarrow> nat" where
  "key_run_end s index = advance (\<lambda>i. i - index \<le> max_key_len \<and> is_key_char (s ! i)) (length s) index"

definition has_letter :: "bytes \<Rightarrow> nat \<Rightarrow> nat \<Rightarrow> bool" where
  "has_letter s start end \<longleftrightarrow> list_ex is_letter (slice s start end)"

definition separator_continues :: "bytes \<Rightarrow> nat \<Rightarrow> bool" where
  "separator_continues s index =
     (if length s \<le> index \<or> \<not> is_value_char (s ! index) \<and> \<not> is_separator (s ! index) then False
      else if \<not> is_key_start (s ! index) then True
      else (let keyEnd = key_run_end s index in
        max_key_len < keyEnd - index \<or> length s \<le> keyEnd \<or> s ! keyEnd \<noteq> CHR ''=''))"

function value_run_end :: "bytes \<Rightarrow> nat \<Rightarrow> nat" where
  "value_run_end s index =
     (let index' = run_end s index is_value_char in
      if length s \<le> index' \<or> \<not> is_separator (s ! index') \<or> \<not> separator_continues s (index' + 1)
      then index' else value_run_end s (index' + 1))"
  by pat_completeness auto
termination
proof (relation "measure (\<lambda>(s, index). length s - index)", simp)
  fix s index index'
  assume "index' = run_end s index is_value_char"
    and "\<not> (length s \<le> index' \<or> \<not> is_separator (s ! index') \<or> \<not> separator_continues s (index' + 1))"
  then show "((s, index' + 1), (s, index)) \<in> measure (\<lambda>(s, index). length s - index)"
    using advance_ge [of index "\<lambda>i. is_value_char (s ! i)" "length s"] by (auto simp: run_end_def)
qed

declare value_run_end.simps [simp del]

definition is_scheme_word :: "bytes \<Rightarrow> nat \<Rightarrow> nat \<Rightarrow> bool" where
  "is_scheme_word s start end =
     (if end - start = 6 then has_fold_prefix_at s start ''bearer''
      else if end - start = 5 then has_fold_prefix_at s start ''basic'' \<or> has_fold_prefix_at s start ''token''
      else False)"

text \<open>The loop over a quoted value: a backslash escapes the byte after it.\<close>

function quoted_value_end :: "bytes \<Rightarrow> char \<Rightarrow> nat \<Rightarrow> nat" where
  "quoted_value_end s quote valueEnd =
     (if valueEnd < length s \<and> s ! valueEnd \<noteq> CHR 0x0A \<and> s ! valueEnd \<noteq> quote then
        (if s ! valueEnd = CHR 0x5C \<and> valueEnd + 1 < length s \<and> s ! (valueEnd + 1) \<noteq> CHR 0x0A
         then quoted_value_end s quote (valueEnd + 2)
         else quoted_value_end s quote (valueEnd + 1))
      else valueEnd)"
  by pat_completeness auto
termination
  by (relation "measure (\<lambda>(s, quote, valueEnd). length s - valueEnd)") auto

declare quoted_value_end.simps [simp del]

definition quote_byte :: "char \<Rightarrow> bool" where
  "quote_byte c \<longleftrightarrow> c = CHR 0x22 \<or> c = CHR 0x27"

text \<open>The first half of \<open>matchPair\<close>: the key and the position after it and its closing quote.\<close>

definition match_key :: "bytes \<Rightarrow> nat \<Rightarrow> (nat \<times> nat \<times> nat) option" where
  "match_key s index =
     (if quote_byte (s ! index) then
        (let keyStart = index + 1 in
         if length s \<le> keyStart \<or> \<not> is_key_start (s ! keyStart) then None
         else (let keyEnd = key_run_end s keyStart in
           if length s \<le> keyEnd \<or> s ! keyEnd \<noteq> s ! index then None
           else Some (keyStart, keyEnd, keyEnd + 1)))
      else if \<not> is_key_start (s ! index)
          \<or> 0 < index \<and> (is_key_char (s ! (index - 1)) \<or> s ! (index - 1) = CHR ''/'') then None
      else (let keyEnd = key_run_end s index in Some (index, keyEnd, keyEnd)))"

text \<open>The second half reads the value; \<open>run\<close> is the cached run of value bytes.\<close>

definition make_pair :: "nat \<Rightarrow> nat \<Rightarrow> nat \<Rightarrow> nat \<Rightarrow> pair" where
  "make_pair ks ke vs ve = \<lparr>key_start = ks, key_end = ke, value_start = vs, value_end = ve\<rparr>"

definition unquoted_value :: "bytes \<Rightarrow> nat \<Rightarrow> nat \<Rightarrow> (nat \<times> nat) option" where
  "unquoted_value s valueStart valueEnd =
     (if valueEnd = valueStart then None
      else if is_scheme_word s valueStart valueEnd then
        (let credential = skip_blanks s valueEnd in
         if valueEnd < credential \<and> credential < value_run_end s credential
         then Some (valueStart, value_run_end s credential)
         else Some (valueStart, valueEnd))
      else Some (valueStart, valueEnd))"

definition cached_run :: "bytes \<Rightarrow> nat \<Rightarrow> nat \<times> nat \<Rightarrow> nat \<times> nat" where
  "cached_run s valueStart run =
     (if valueStart < fst run \<or> snd run \<le> valueStart then (valueStart, value_run_end s valueStart) else run)"

definition match_value ::
    "bytes \<Rightarrow> nat \<Rightarrow> nat \<times> nat \<Rightarrow> (nat \<times> nat) option \<times> nat \<times> nat" where
  "match_value s valueStart run =
     (if quote_byte (s ! valueStart) then
        (let start = valueStart + 1; valueEnd = quoted_value_end s (s ! valueStart) start in
         (if valueEnd = start then None else Some (start, valueEnd), run))
      else (let run' = cached_run s valueStart run in (unquoted_value s valueStart (snd run'), run')))"

definition match_pair :: "bytes \<Rightarrow> nat \<Rightarrow> nat \<times> nat \<Rightarrow> pair option \<times> nat \<times> nat" where
  "match_pair s index run = (case match_key s index of
       None \<Rightarrow> (None, run)
     | Some (keyStart, keyEnd, after) \<Rightarrow>
         if max_key_len < keyEnd - keyStart \<or> \<not> has_letter s keyStart keyEnd then (None, run)
         else (let after = skip_blanks s after in
           if length s \<le> after \<or> s ! after \<noteq> CHR ''='' \<and> s ! after \<noteq> CHR '':'' then (None, run)
           else if s ! after = CHR '':'' \<and> has_prefix_at s (after + 1) ''//'' then (None, run)
           else (let valueStart = skip_blanks s (after + 1) in
             if length s \<le> valueStart then (None, run)
             else (case match_value s valueStart run of
                (v, run') \<Rightarrow> (map_option (\<lambda>(vs, ve). make_pair keyStart keyEnd vs ve) v, run')))))"

section \<open>Where the detectors look\<close>

lemma run_end_ge [bounds]: "index \<le> run_end s index cls"
  by (simp add: run_end_def advance_ge)

lemma run_end_le [bounds]: "index \<le> length s \<Longrightarrow> run_end s index cls \<le> length s"
  by (simp add: run_end_def advance_le)

lemma run_end_all: "index \<le> i \<Longrightarrow> i < run_end s index cls \<Longrightarrow> cls (s ! i)"
  using advance_all [of index i "\<lambda>i. cls (s ! i)" "length s"] by (simp add: run_end_def)

lemma run_end_stop: "run_end s index cls < length s \<Longrightarrow> \<not> cls (s ! run_end s index cls)"
  using advance_end [of "\<lambda>i. cls (s ! i)" "length s" index] by (simp add: run_end_def)

lemma run_end_step: "index < length s \<Longrightarrow> cls (s ! index) \<Longrightarrow> index < run_end s index cls"
  using run_end_ge [of "Suc index" s cls] by (simp add: run_end_def advance_step)

lemma has_prefix_at_le [bounds]: "has_prefix_at s index pfx \<Longrightarrow> index + length pfx \<le> length s"
  by (simp add: has_prefix_at_def)

lemma has_fold_prefix_at_le [bounds]: "has_fold_prefix_at s index pfx \<Longrightarrow> index + length pfx \<le> length s"
  by (simp add: has_fold_prefix_at_def)

lemma skip_blanks_bounds [bounds]: "index \<le> skip_blanks s index"
  "index \<le> length s \<Longrightarrow> skip_blanks s index \<le> length s"
  by (simp_all add: skip_blanks_def run_end_ge run_end_le)

lemma key_run_end_bounds [bounds]: "index \<le> key_run_end s index"
  "index \<le> length s \<Longrightarrow> key_run_end s index \<le> length s"
  by (simp_all add: key_run_end_def advance_ge advance_le)

lemma value_run_end_bounds [bounds]:
  "index \<le> value_run_end s index" "index \<le> length s \<Longrightarrow> value_run_end s index \<le> length s"
proof (induction s index rule: value_run_end.induct)
  case (1 s index)
  let ?i = "run_end s index is_value_char"
  note ge = run_end_ge [of index s is_value_char]
  {
    case 1
    show ?case using "1.IH"(1) [OF refl] ge by (subst value_run_end.simps) (auto simp: Let_def)
  next
    case 2
    show ?case using "1.IH"(2) [OF refl] 2 run_end_le [OF 2, of is_value_char]
      by (subst value_run_end.simps) (auto simp: Let_def)
  }
qed

lemma quoted_value_end_bounds [bounds]:
  "i \<le> quoted_value_end s q i" "i \<le> length s \<Longrightarrow> quoted_value_end s q i \<le> length s"
proof (induction s q i rule: quoted_value_end.induct)
  case (1 s q i)
  {
    case 1
    show ?case using "1.IH"(1,3) by (subst quoted_value_end.simps) auto
  next
    case 2
    show ?case using "1.IH"(2,4) 2 by (subst quoted_value_end.simps) auto
  }
qed

text \<open>
  What the scan asks of a detector: a match tried inside the text is not empty, starts
  no earlier than it was tried, and ends inside the text.
\<close>

definition span_ok :: "bytes \<Rightarrow> nat \<Rightarrow> span \<Rightarrow> bool" where
  "span_ok s index sp \<longleftrightarrow> index \<le> span_start sp \<and> span_start sp < span_end sp \<and> span_end sp \<le> length s"

locale detector =
  fixes detect :: "bytes \<Rightarrow> nat \<Rightarrow> span option"
  assumes detect_ok: "index < length s \<Longrightarrow> detect s index = Some sp \<Longrightarrow> span_ok s index sp"
begin

lemma guarded_ok: "index < length s \<Longrightarrow> (if g then detect s index else None) = Some sp \<Longrightarrow> span_ok s index sp"
  by (simp add: detect_ok split: if_splits)

lemma or_else_ok:
  assumes "index < length s" and "or_else (detect s index) rest = Some sp"
    and "rest = Some sp \<Longrightarrow> span_ok s index sp"
  shows "span_ok s index sp"
  using assms detect_ok by (cases "detect s index") (auto simp: or_else_def)

lemma progress: "index < length s \<Longrightarrow> detect s index = Some sp \<Longrightarrow> index < max (span_end sp) (index + 1)"
  by simp

end

interpretation bearer: detector match_bearer
proof
  fix index :: nat and s sp
  assume "index < length s" and m: "match_bearer s index = Some sp"
  let ?w = "if has_fold_prefix_at s index ''bearer'' then 6 else 5"
  let ?start = "run_end s (index + ?w) is_blank"
  let ?stop = "run_end s (run_end s ?start is_token68) (\<lambda>c. c = CHR ''='')"
  have w: "index + ?w \<le> length s" and sp: "sp = make_span ?start ?stop KindBearer" "8 \<le> ?stop - ?start"
    using m by (auto simp: match_bearer_def Let_def split: if_splits dest: has_fold_prefix_at_le)
  then show "span_ok s index sp"
    using run_end_ge [of "index + ?w" s is_blank] run_end_le [OF run_end_le [OF run_end_le [OF w]]]
    by (auto simp: span_ok_def make_span_def)
qed

interpretation pem: detector match_pem
proof
  fix index :: nat and s sp
  assume "index < length s" and m: "match_pem s index = Some sp"
  let ?le = "pem_label_end s (index + 11)"
  let ?f = "advance (\<lambda>i. \<not> pem_footer_at s (index + 11) ?le i) (length s) (?le + 5)"
  have le: "?le + 5 \<le> length s" "index + 11 \<le> ?le"
    and sp: "sp = make_span (?le + 5) ?f KindPEM \<and> ?f \<noteq> ?le + 5 \<or> sp = make_span (?le + 5) (length s) KindPEM \<and> ?le + 5 \<noteq> length s"
    using m by (auto simp: match_pem_def Let_def pem_label_end_def advance_ge split: if_splits dest: has_prefix_at_le)
  then show "span_ok s index sp"
    using advance_ge [of "?le + 5" "\<lambda>i. \<not> pem_footer_at s (index + 11) ?le i" "length s"]
      advance_le [OF le(1), of "\<lambda>i. \<not> pem_footer_at s (index + 11) ?le i"]
    by (auto simp: span_ok_def make_span_def)
qed

interpretation jwt: detector match_jwt
proof
  fix index :: nat and s sp
  assume i: "index < length s" and m: "match_jwt s index = Some sp"
  let ?h = "run_end s index is_base64_url"
  let ?p = "run_end s (?h + 1) is_base64_url"
  have "sp = make_span index (run_end s (?p + 1) is_base64_url) KindJWT" "?p < length s" "index \<le> ?h" "?h < ?p"
    using m run_end_ge [of index s is_base64_url] by (auto simp: match_jwt_def Let_def split: if_splits)
  then show "span_ok s index sp"
    using run_end_ge [of "?p + 1" s is_base64_url] run_end_le [of "?p + 1" s is_base64_url]
    by (auto simp: span_ok_def make_span_def)
qed

lemma match_provider_ok:
  "list_all (\<lambda>(pfx, _). pfx \<noteq> []) ps \<Longrightarrow> match_provider s index ps = Some sp \<Longrightarrow> span_ok s index sp"
proof (induction s index ps rule: match_provider.induct)
  case (2 s index pfx cls least exact ps)
  let ?stop = "run_end s (index + length pfx) cls"
  show ?case
  proof (cases "has_prefix_at s index pfx \<and> \<not> (?stop - (index + length pfx) < least \<or> exact \<and> ?stop - (index + length pfx) \<noteq> least)")
    case True
    then have "sp = make_span index ?stop KindProviderToken" using "2.prems" by (simp add: Let_def split: if_splits)
    then show ?thesis
      using True "2.prems"(1) run_end_ge [of "index + length pfx" s cls] has_prefix_at_le [of s index pfx]
        run_end_le [of "index + length pfx" s cls]
      by (cases pfx) (auto simp: span_ok_def make_span_def)
  next
    case False
    then show ?thesis using "2.prems" "2.IH" by (auto simp: Let_def split: if_splits)
  qed
qed simp

interpretation provider: detector match_provider_token
proof
  fix index :: nat and s sp
  assume "match_provider_token s index = Some sp"
  then have "match_provider s index provider_prefixes = Some sp"
    by (simp add: match_provider_token_def split: if_splits)
  then show "span_ok s index sp"
    by (rule match_provider_ok [rotated]) (simp add: provider_prefixes_def)
qed

interpretation aws: detector match_aws_key_id
  by standard (auto simp: match_aws_key_id_def span_ok_def make_span_def Let_def split: if_splits)

interpretation userinfo: detector match_url_userinfo
proof
  fix index :: nat and s sp
  assume "index < length s" and m: "match_url_userinfo s index = Some sp"
  let ?e = "run_end s index is_scheme_char"
  have "sp = make_span (?e + 3) (run_end s (?e + 3) userinfo_char) KindURLUserinfo" "?e + 3 \<le> length s"
      "run_end s (?e + 3) userinfo_char \<noteq> ?e + 3" "index \<le> ?e"
    using m run_end_ge [of index s is_scheme_char]
    by (auto simp: match_url_userinfo_def Let_def split: if_splits dest: has_prefix_at_le)
  then show "span_ok s index sp"
    using run_end_ge [of "?e + 3" s userinfo_char] run_end_le [of "?e + 3" s userinfo_char]
    by (auto simp: span_ok_def make_span_def)
qed

lemma card_run_bounds:
  "card_run s i d = (e, n) \<Longrightarrow> i \<le> e \<and> n - d \<le> e - i \<and> (i \<le> length s \<longrightarrow> e \<le> length s) \<and> d \<le> n"
proof (induction s i d rule: card_run.induct)
  case (1 s i d)
  let ?go = "i < length s \<and> d \<le> 19"
  let ?sep = "(s ! i = CHR '' '' \<or> s ! i = CHR ''-'') \<and> i + 1 < length s \<and> is_digit (s ! (i + 1)) \<and> is_digit (s ! (i - 1))"
  have step: "(if ?go then if is_digit (s ! i) then card_run s (i + 1) (d + 1)
      else if ?sep then card_run s (i + 1) d else (i, d) else (i, d)) = (e, n)"
    using "1.prems" by (simp only: card_run.simps [of s i d])
  show ?case
  proof (cases ?go)
    case True
    show ?thesis
    proof (cases "is_digit (s ! i)")
      case digit: True
      then have "card_run s (i + 1) (d + 1) = (e, n)" using step True by simp
      from "1.IH"(1) [OF True digit this] show ?thesis using True by auto
    next
      case no: False
      show ?thesis
      proof (cases ?sep)
        case sep: True
        then have "card_run s (i + 1) d = (e, n)" using step True no by simp
        from "1.IH"(2) [OF True no sep this] show ?thesis using True by auto
      next
        case False
        have "(i, d) = (e, n)"
          using step unfolding if_P [OF True] if_not_P [OF no] if_not_P [OF False] .
        then show ?thesis by simp
      qed
    qed
  next
    case False
    then have "(i, d) = (e, n)" using step by (simp only: if_False)
    then show ?thesis by simp
  qed
qed

interpretation card: detector match_card
proof
  fix index :: nat and s sp
  assume i: "index < length s" and m: "match_card s index = Some sp"
  obtain e n where r: "card_run s index 0 = (e, n)" by (cases "card_run s index 0")
  with m have "sp = make_span index e KindCard" "13 \<le> n" by (auto simp: match_card_def split: if_splits)
  then show "span_ok s index sp"
    using card_run_bounds [OF r] i by (auto simp: span_ok_def make_span_def)
qed

interpretation span: detector "\<lambda>s index. match_span s index dset"
proof
  fix index :: nat and s sp
  assume i: "index < length s" and m: "match_span s index dset = Some sp"
  let ?c = "s ! index"
  consider "match_pem s index = Some sp" | "match_card s index = Some sp"
    | (letter) "or_else (match_bearer s index) (or_else (match_jwt s index) (or_else (match_provider_token s index)
        (or_else (if aws_key_ids dset then match_aws_key_id s index else None) (match_url_userinfo s index)))) = Some sp"
    using m by (auto simp: match_span_def Let_def split: if_splits)
  then show "span_ok s index sp"
  proof cases
    case letter
    then show ?thesis
    proof (rule bearer.or_else_ok [OF i], elim jwt.or_else_ok [OF i] provider.or_else_ok [OF i])
      assume "or_else (if aws_key_ids dset then match_aws_key_id s index else None) (match_url_userinfo s index) = Some sp"
      then show ?thesis
        by (auto simp: or_else_def split: option.splits if_splits intro: aws.detect_ok [OF i] userinfo.detect_ok [OF i])
    qed
  qed (auto intro: pem.detect_ok card.detect_ok i)
qed

definition pair_ok :: "bytes \<Rightarrow> nat \<Rightarrow> pair \<Rightarrow> bool" where
  "pair_ok s index p \<longleftrightarrow> index \<le> key_start p \<and> key_start p < key_end p \<and> key_end p - key_start p \<le> max_key_len
     \<and> key_end p < value_start p \<and> value_start p < value_end p \<and> value_end p \<le> length s"

lemma match_key_bounds:
  assumes "match_key s index = Some (ks, ke, after)" and "index < length s"
  shows "index \<le> ks \<and> ks < ke \<and> ke \<le> after \<and> after \<le> length s"
proof -
  have run: "i < key_run_end s i" if "i < length s" "is_key_start (s ! i)" for i
  proof -
    have "is_key_char (s ! i)" using that(2) by (auto simp: is_key_start_def is_key_char_def is_word_def is_alnum_def)
    then show ?thesis
      using that(1) advance_ge [of "Suc i" "\<lambda>j. j - i \<le> max_key_len \<and> is_key_char (s ! j)" "length s"]
      by (simp add: key_run_end_def advance_step)
  qed
  show ?thesis
    using assms run [of index] run [of "Suc index"] key_run_end_bounds(2) [of index s]
    by (auto simp: match_key_def Let_def split: if_splits)
qed

lemma match_value_bounds:
  assumes "match_value s vs run = (Some (a, b), run')" and "vs < length s"
    and "snd run \<le> length s"
  shows "vs \<le> a \<and> a < b \<and> b \<le> length s"
proof (cases "quote_byte (s ! vs)")
  case True
  then show ?thesis
    using assms quoted_value_end_bounds [of "vs + 1" s "s ! vs"]
    by (auto simp: match_value_def Let_def split: if_splits)
next
  case False
  let ?r = "cached_run s vs run"
  have r: "vs \<le> snd ?r" "snd ?r \<le> length s"
    using value_run_end_bounds [of vs s] assms(2,3) by (auto simp: cached_run_def)
  let ?c = "skip_blanks s (snd ?r)"
  have c: "snd ?r \<le> ?c" "?c \<le> length s" "value_run_end s ?c \<le> length s"
    using skip_blanks_bounds [of "snd ?r" s] value_run_end_bounds(2) [of ?c s] r by auto
  have "unquoted_value s vs (snd ?r) = Some (a, b)" using assms(1) False by (auto simp: match_value_def Let_def)
  then show ?thesis using r c by (auto simp: unquoted_value_def Let_def split: if_splits)
qed

lemma match_value_run:
  "match_value s vs run = (v, run') \<Longrightarrow> run' = run \<or> run' = (vs, value_run_end s vs)"
  by (auto simp: match_value_def cached_run_def Let_def split: if_splits)

lemma match_pair_cases:
  assumes "match_pair s index run = (p, run')"
  obtains (none) "p = None" "run' = run"
  | (val) ks ke after vs v where "match_key s index = Some (ks, ke, after)" "ke - ks \<le> max_key_len"
      "has_letter s ks ke" "skip_blanks s after < length s" "vs = skip_blanks s (skip_blanks s after + 1)"
      "vs < length s" "match_value s vs run = (v, run')" "p = map_option (\<lambda>(a, b). make_pair ks ke a b) v"
  using assms
  by (auto simp: match_pair_def Let_def not_le split: option.splits if_splits prod.splits)

lemma match_pair_ok:
  assumes "match_pair s index run = (Some p, run')" and "index < length s" and "snd run \<le> length s"
  shows "pair_ok s index p \<and> has_letter s (key_start p) (key_end p)"
  using assms(1)
proof (cases rule: match_pair_cases)
  case (val ks ke after vs v)
  then obtain a b where v: "v = Some (a, b)" and p: "p = make_pair ks ke a b" by (cases v) auto
  from match_value_bounds [OF val(7) [unfolded v] val(6) assms(3)] match_key_bounds [OF val(1) assms(2)]
    skip_blanks_bounds(1) [of after s] skip_blanks_bounds(1) [of "skip_blanks s after + 1" s] val(2,3,5)
  show ?thesis by (auto simp: pair_ok_def make_pair_def p)
qed simp

lemma match_pair_run:
  assumes "match_pair s index run = (p, run')" and "snd run \<le> length s"
  shows "snd run' \<le> length s"
  using assms(1)
proof (cases rule: match_pair_cases)
  case (val ks ke after vs v)
  then show ?thesis using match_value_run [OF val(7)] assms(2) value_run_end_bounds(2) [of vs s] by auto
qed (use assms(2) in simp)

lemma match_value_start: "match_value s vs run = (Some (a, b), run') \<Longrightarrow> vs \<le> a"
  by (auto simp: match_value_def unquoted_value_def Let_def split: if_splits)

lemma match_pair_progress:
  assumes "match_pair s index run = (Some p, run')" and "index < length s"
  shows "index < value_start p"
  using assms(1)
proof (cases rule: match_pair_cases)
  case (val ks ke after vs v)
  then obtain a b where v: "v = Some (a, b)" and p: "p = make_pair ks ke a b" by (cases v) auto
  from match_value_start [OF val(7) [unfolded v]] match_key_bounds [OF val(1) assms(2)]
    skip_blanks_bounds(1) [of after s] skip_blanks_bounds(1) [of "skip_blanks s after + 1" s] val(5)
  show ?thesis by (simp add: make_pair_def p)
qed simp

section \<open>The scan\<close>

text \<open>Inside a word no detector can start: each needs a boundary before a letter.\<close>

definition inside_word :: "bytes \<Rightarrow> nat \<Rightarrow> bool" where
  "inside_word s index \<longleftrightarrow> 0 < index \<and> is_letter (s ! index) \<and> is_alnum (s ! (index - 1))"

function scan_from :: "bytes \<Rightarrow> detect_set \<Rightarrow> bool \<Rightarrow> nat \<Rightarrow> nat \<times> nat \<Rightarrow> span list \<Rightarrow> pair list \<Rightarrow> bool
    \<Rightarrow> span list \<times> pair list \<times> bool" where
  "scan_from s dset first index run spans pairs found =
     (if index < length s then
        (if inside_word s index then scan_from s dset first (index + 1) run spans pairs found
         else case match_span s index dset of
           Some sp \<Rightarrow>
             if first then ([], [], True)
             else scan_from s dset first (max (span_end sp) (index + 1)) run (spans @ [sp]) pairs True
         | None \<Rightarrow> (case match_pair s index run of
             (Some p, run') \<Rightarrow>
               if first then ([], [], True)
               else scan_from s dset first (value_start p) run' spans (pairs @ [p]) True
           | (None, run') \<Rightarrow> scan_from s dset first (index + 1) run' spans pairs found))
      else (spans, pairs, found))"
  by pat_completeness auto
termination
  by (relation "measure (\<lambda>(s, dset, first, index, run, spans, pairs, found). length s - index)")
     (auto intro!: diff_less_mono2 dest: match_pair_progress [OF sym])

declare scan_from.simps [simp del]

definition scan :: "bytes \<Rightarrow> detect_set \<Rightarrow> bool \<Rightarrow> span list \<times> pair list \<times> bool" where
  "scan s dset first = scan_from s dset first 0 (0, 0) [] [] False"

definition candidate :: "bytes \<Rightarrow> detect_set \<Rightarrow> bool" where
  "candidate s dset = snd (snd (scan s dset True))"

definition find_secrets :: "bytes \<Rightarrow> detect_set \<Rightarrow> span list \<times> pair list" where
  "find_secrets s dset = (case scan s dset False of (spans, pairs, _) \<Rightarrow> (spans, pairs))"

section \<open>The hits of a scan\<close>

text \<open>
  The reference: the hits in order, every position tried with a fresh cache.  The scan
  with its cache and its accumulators lists the same.
\<close>

definition plain_pair :: "bytes \<Rightarrow> nat \<Rightarrow> pair option" where
  "plain_pair s index = fst (match_pair s index (0, 0))"

lemma plain_pair_progress: "plain_pair s index = Some p \<Longrightarrow> index < length s \<Longrightarrow> index < value_start p"
  using match_pair_progress [of s index "(0, 0)" p] by (metis plain_pair_def prod.collapse)

function hits :: "bytes \<Rightarrow> detect_set \<Rightarrow> nat \<Rightarrow> (span + pair) list" where
  "hits s dset index =
     (if index < length s then
        (if inside_word s index then hits s dset (index + 1)
         else case match_span s index dset of
           Some sp \<Rightarrow> Inl sp # hits s dset (max (span_end sp) (index + 1))
         | None \<Rightarrow> (case plain_pair s index of
             Some p \<Rightarrow> Inr p # hits s dset (value_start p)
           | None \<Rightarrow> hits s dset (index + 1)))
      else [])"
  by pat_completeness auto
termination
  by (relation "measure (\<lambda>(s, dset, index). length s - index)")
     (auto intro!: diff_less_mono2 dest: plain_pair_progress)

declare hits.simps [simp del]

definition hit_spans :: "(span + pair) list \<Rightarrow> span list" where
  "hit_spans hs = List.map_filter (\<lambda>h. case h of Inl sp \<Rightarrow> Some sp | Inr _ \<Rightarrow> None) hs"

definition hit_pairs :: "(span + pair) list \<Rightarrow> pair list" where
  "hit_pairs hs = List.map_filter (\<lambda>h. case h of Inl _ \<Rightarrow> None | Inr p \<Rightarrow> Some p) hs"

lemma hit_simps [simp]:
  "hit_spans [] = []" "hit_spans (Inl sp # hs) = sp # hit_spans hs" "hit_spans (Inr p # hs) = hit_spans hs"
  "hit_pairs [] = []" "hit_pairs (Inl sp # hs) = hit_pairs hs" "hit_pairs (Inr p # hs) = p # hit_pairs hs"
  by (simp_all add: hit_spans_def hit_pairs_def map_filter_def)

text \<open>The cache holds a run whose every start measures to its end.\<close>

definition run_ok :: "bytes \<Rightarrow> nat \<times> nat \<Rightarrow> bool" where
  "run_ok s run \<longleftrightarrow> snd run \<le> length s \<and> (\<forall>i. fst run \<le> i \<and> i < snd run \<longrightarrow> value_run_end s i = snd run)"

lemma run_end_between: "index \<le> i \<Longrightarrow> i \<le> run_end s index cls \<Longrightarrow> run_end s i cls = run_end s index cls"
  unfolding run_end_def by (rule advance_between)

lemma value_run_end_within: "index \<le> i \<Longrightarrow> i < value_run_end s index \<Longrightarrow> value_run_end s i = value_run_end s index"
proof (induction s index rule: value_run_end.induct)
  case (1 s index)
  let ?e = "run_end s index is_value_char"
  let ?stop = "length s \<le> ?e \<or> \<not> is_separator (s ! ?e) \<or> \<not> separator_continues s (?e + 1)"
  have whole: "value_run_end s index = (if ?stop then ?e else value_run_end s (?e + 1))"
    by (simp add: value_run_end.simps [of s index] Let_def)
  show ?case
  proof (cases "i \<le> ?e")
    case True
    then have e: "run_end s i is_value_char = ?e" by (rule run_end_between [OF "1.prems"(1)])
    then show ?thesis by (simp add: whole value_run_end.simps [of s i] Let_def)
  next
    case False
    have "\<not> ?stop"
    proof
      assume "?stop"
      then have "value_run_end s index = ?e" using whole by (simp only: if_True)
      then show False using "1.prems" False by simp
    qed
    then show ?thesis using "1.IH" [OF refl] "1.prems" False whole by simp
  qed
qed

lemma run_ok_empty: "run_ok s (0, 0)"
  by (simp add: run_ok_def)

lemma run_ok_new: "vs \<le> length s \<Longrightarrow> run_ok s (vs, value_run_end s vs)"
  by (simp add: run_ok_def value_run_end_bounds value_run_end_within)

lemma match_value_plain:
  assumes "run_ok s run" and "vs < length s"
  shows "fst (match_value s vs run) = fst (match_value s vs (0, 0))" and "run_ok s (snd (match_value s vs run))"
proof -
  have r: "snd (cached_run s vs run) = value_run_end s vs \<and> run_ok s (cached_run s vs run)"
  proof (cases "vs < fst run \<or> snd run \<le> vs")
    case True
    then show ?thesis using assms(2) run_ok_new [of vs s] by (simp add: cached_run_def)
  next
    case False
    then have "value_run_end s vs = snd run" using assms(1) unfolding run_ok_def by simp
    then show ?thesis using False assms(1) by (simp add: cached_run_def)
  qed
  have z: "snd (cached_run s vs (0, 0)) = value_run_end s vs" by (simp add: cached_run_def)
  show "run_ok s (snd (match_value s vs run))"
    using r assms(1) by (simp add: match_value_def Let_def)
  show "fst (match_value s vs run) = fst (match_value s vs (0, 0))"
    using r z by (simp add: match_value_def Let_def)
qed

lemma match_pair_plain:
  assumes "run_ok s run"
  shows "fst (match_pair s index run) = plain_pair s index" and "run_ok s (snd (match_pair s index run))"
proof -
  have v: "fst (match_value s vs run) = fst (match_value s vs (0, 0))" "run_ok s (snd (match_value s vs run))"
    if "vs < length s" for vs using match_value_plain [OF assms that] by auto
  show "fst (match_pair s index run) = plain_pair s index"
    using v(1) by (auto simp: plain_pair_def match_pair_def Let_def split_def split: option.splits)
  show "run_ok s (snd (match_pair s index run))"
    using v(2) assms by (auto simp: match_pair_def Let_def split_def split: option.splits)
qed


text \<open>The scan, with its cache, its accumulators and its early exit, lists the hits.\<close>

lemma scan_from_hits:
  "run_ok s run \<Longrightarrow> scan_from s dset first index run spans pairs found =
     (let hs = hits s dset index in
      if first then (if hs = [] then (spans, pairs, found) else ([], [], True))
      else (spans @ hit_spans hs, pairs @ hit_pairs hs, found \<or> hs \<noteq> []))"
proof (induction s dset first index run spans pairs found rule: scan_from.induct)
  case (1 s dset first index run spans pairs found)
  note step = scan_from.simps [of s dset first index run spans pairs found] hits.simps [of s dset index]
  show ?case
  proof (cases "index < length s")
    case False
    then show ?thesis by (simp add: step Let_def)
  next
    case i: True
    show ?thesis
    proof (cases "inside_word s index")
      case True
      then show ?thesis using "1.IH"(1) [OF i True "1.prems"] i by (simp add: step)
    next
      case w: False
      show ?thesis
      proof (cases "match_span s index dset")
        case (Some sp)
        then show ?thesis using "1.IH"(4) [OF i w Some] "1.prems" i w by (simp add: step Let_def)
      next
        case none: None
        obtain p run' where m: "match_pair s index run = (p, run')" by (cases "match_pair s index run")
        have p: "plain_pair s index = p" "run_ok s run'"
          using match_pair_plain [OF "1.prems", of index] m by simp_all
        show ?thesis
        proof (cases p)
          case (Some q)
          then show ?thesis using "1.IH"(3) [OF i w none m [symmetric] Some] p i w none m
            by (simp add: step Let_def)
        next
          case None
          then show ?thesis using "1.IH"(2) [OF i w none m [symmetric] None p(2)] p i w none m
            by (simp add: step)
        qed
      qed
    qed
  qed
qed

lemma find_secrets_hits: "find_secrets s dset = (hit_spans (hits s dset 0), hit_pairs (hits s dset 0))"
  by (simp add: find_secrets_def scan_def scan_from_hits [OF run_ok_empty] Let_def)

lemma hit_lists_empty: "hit_spans hs = [] \<and> hit_pairs hs = [] \<longleftrightarrow> hs = []"
proof (cases hs)
  case (Cons h hs')
  then show ?thesis by (cases h) simp_all
qed simp

definition hits_ok :: "bytes \<Rightarrow> nat \<Rightarrow> (span + pair) list \<Rightarrow> bool" where
  "hits_ok s index hs \<longleftrightarrow>
     list_all (span_ok s index) (hit_spans hs)
   \<and> list_all (\<lambda>p. pair_ok s index p \<and> has_letter s (key_start p) (key_end p)) (hit_pairs hs)
   \<and> sorted_wrt (\<lambda>a b. span_end a \<le> span_start b) (hit_spans hs)
   \<and> sorted_wrt (\<lambda>p q. value_start p \<le> key_start q) (hit_pairs hs)"

lemma span_ok_mono: "span_ok s j sp \<Longrightarrow> i \<le> j \<Longrightarrow> span_ok s i sp"
  by (simp add: span_ok_def)

lemma pair_ok_mono: "pair_ok s j p \<Longrightarrow> i \<le> j \<Longrightarrow> pair_ok s i p"
  by (simp add: pair_ok_def)

lemma hits_ok_mono: "hits_ok s j hs \<Longrightarrow> i \<le> j \<Longrightarrow> hits_ok s i hs"
  by (auto simp: hits_ok_def list_all_iff intro: span_ok_mono pair_ok_mono)

lemma plain_pair_ok:
  "plain_pair s index = Some p \<Longrightarrow> index < length s \<Longrightarrow> pair_ok s index p \<and> has_letter s (key_start p) (key_end p)"
  using match_pair_ok [of s index "(0, 0)" p] by (metis plain_pair_def prod.collapse snd_conv zero_le)

lemma hits_are_ok: "hits_ok s index (hits s dset index)"
proof (induction s dset index rule: hits.induct)
  case (1 s dset index)
  note step = hits.simps [of s dset index]
  show ?case
  proof (cases "index < length s \<and> \<not> inside_word s index")
    case False
    then show ?thesis using "1.IH"(1) by (auto simp: step hits_ok_def [of s index "[]"] intro: hits_ok_mono)
  next
    case True
    show ?thesis
    proof (cases "match_span s index dset")
      case (Some sp)
      let ?i = "max (span_end sp) (index + 1)"
      have "hits_ok s ?i (hits s dset ?i)" using "1.IH"(4) True Some by simp
      moreover have "span_ok s index sp" using span.detect_ok Some True by simp
      ultimately show ?thesis
        using True Some
        by (auto simp: step hits_ok_def list_all_iff span_ok_def pair_ok_def)
    next
      case none: None
      show ?thesis
      proof (cases "plain_pair s index")
        case (Some p)
        have "hits_ok s (value_start p) (hits s dset (value_start p))" using "1.IH"(3) True none Some by simp
        moreover have "pair_ok s index p \<and> has_letter s (key_start p) (key_end p)"
          using plain_pair_ok [OF Some] True by simp
        ultimately show ?thesis
          using True none Some
          by (auto simp: step hits_ok_def list_all_iff span_ok_def pair_ok_def)
      next
        case None
        then have "hits_ok s (index + 1) (hits s dset (index + 1))" using "1.IH"(2) True none None by simp
        then show ?thesis using True none None by (auto simp: step intro: hits_ok_mono)
      qed
    qed
  qed
qed


text \<open>The run of a card holds digits and single separators, and counts the digits.\<close>

lemma card_run_digits:
  "card_run s i d = (e, n) \<Longrightarrow> i \<le> length s \<Longrightarrow>
     n = d + length (filter is_digit (slice s i e))
     \<and> list_all (\<lambda>c. is_digit c \<or> c = CHR '' '' \<or> c = CHR ''-'') (slice s i e)"
proof (induction s i d rule: card_run.induct)
  case (1 s i d)
  let ?go = "i < length s \<and> d \<le> 19"
  let ?sep = "(s ! i = CHR '' '' \<or> s ! i = CHR ''-'') \<and> i + 1 < length s \<and> is_digit (s ! (i + 1)) \<and> is_digit (s ! (i - 1))"
  have step: "(if ?go then if is_digit (s ! i) then card_run s (i + 1) (d + 1)
      else if ?sep then card_run s (i + 1) d else (i, d) else (i, d)) = (e, n)"
    using "1.prems"(1) by (simp only: card_run.simps [of s i d])
  have cons: "slice s i e = s ! i # slice s (i + 1) e" if "i < length s" "i + 1 \<le> e"
  proof -
    have "drop i s = s ! i # drop (Suc i) s" using that(1) by (simp add: Cons_nth_drop_Suc)
    moreover have "e - i = Suc (e - (i + 1))" using that(2) by simp
    ultimately show ?thesis by (simp add: slice_def)
  qed
  show ?case
  proof (cases ?go)
    case True
    show ?thesis
    proof (cases "is_digit (s ! i)")
      case digit: True
      then have r: "card_run s (i + 1) (d + 1) = (e, n)" using step True by simp
      then have "i + 1 \<le> e" using card_run_bounds by blast
      then show ?thesis using "1.IH"(1) [OF True digit r] True digit by (simp add: cons)
    next
      case no: False
      show ?thesis
      proof (cases ?sep)
        case sep: True
        then have r: "card_run s (i + 1) d = (e, n)" using step True no by simp
        then have "i + 1 \<le> e" using card_run_bounds by blast
        then show ?thesis using "1.IH"(2) [OF True no sep r] True no sep by (simp add: cons)
      next
        case False
        have "(i, d) = (e, n)"
          using step unfolding if_P [OF True] if_not_P [OF no] if_not_P [OF False] .
        then show ?thesis by (simp add: slice_def)
      qed
    qed
  next
    case False
    have "(i, d) = (e, n)" using step unfolding if_not_P [OF False] .
    then show ?thesis by (simp add: slice_def)
  qed
qed

section \<open>Properties\<close>

text \<open>
  C20: \<open>Candidate\<close> is exact: it reports a hit precisely when \<open>Find\<close> returns a span or
  a pair, although it stops at the first one.
\<close>

theorem candidate_exact: "candidate s dset \<longleftrightarrow> find_secrets s dset \<noteq> ([], [])"
  using hit_lists_empty [of "hits s dset 0"]
  by (auto simp: candidate_def scan_def scan_from_hits [OF run_ok_empty] Let_def find_secrets_hits)

text \<open>
  The cache of the last value run is invisible: \<open>Find\<close> returns what a scan
  returns that measures every value anew, as \<open>hits\<close> does.
\<close>

theorem value_cache_transparent:
  "find_secrets s dset = (hit_spans (hits s dset 0), hit_pairs (hits s dset 0))"
  by (rule find_secrets_hits)

text \<open>
  C21: Spans are not empty, lie in the text, come in ascending order and do not
  overlap; pairs lie in the text, with a key of at most 64 bytes that holds a letter,
  a value that is not empty and starts after the key, and every pair starts at or
  after the value of the one before it.
\<close>

theorem find_secrets_ordered:
  "case find_secrets s dset of (spans, pairs) \<Rightarrow>
     list_all (\<lambda>sp. span_start sp < span_end sp \<and> span_end sp \<le> length s) spans
   \<and> sorted_wrt (\<lambda>a b. span_end a \<le> span_start b) spans
   \<and> list_all (\<lambda>p. key_start p < key_end p \<and> key_end p - key_start p \<le> max_key_len
        \<and> has_letter s (key_start p) (key_end p)
        \<and> key_end p < value_start p \<and> value_start p < value_end p \<and> value_end p \<le> length s) pairs
   \<and> sorted_wrt (\<lambda>p q. value_start p \<le> key_start q) pairs"
  using hits_are_ok [of s 0 dset]
  by (auto simp: find_secrets_hits hits_ok_def list_all_iff span_ok_def pair_ok_def)

text \<open>
  C22: What the card detector reports is written as a card number: 13 to 19 digits
  with nothing but single spaces and dashes between them, right of a byte that is
  neither a letter nor a digit, and the digits pass the Luhn check.
\<close>

theorem card_span_is_card_number:
  assumes "match_card s index = Some sp" and "index < length s"
  shows "span_start sp = index \<and> luhn s index (span_end sp)
    \<and> 13 \<le> length (filter is_digit (slice s index (span_end sp)))
    \<and> length (filter is_digit (slice s index (span_end sp))) \<le> 19
    \<and> list_all (\<lambda>c. is_digit c \<or> c = CHR '' '' \<or> c = CHR ''-'') (slice s index (span_end sp))
    \<and> (index = 0 \<or> \<not> is_alnum (s ! (index - 1)))"
proof -
  obtain e n where r: "card_run s index 0 = (e, n)" by (cases "card_run s index 0")
  with assms have "sp = make_span index e KindCard" "13 \<le> n" "n \<le> 19" "luhn s index e"
      "bounded_before s index is_alnum"
    by (auto simp: match_card_def split: if_splits)
  then show ?thesis
    using card_run_digits [OF r] assms(2) by (simp add: make_span_def bounded_before_def)
qed

theorem card_span_is_card_number_witness:
  "13 \<le> length (filter is_digit (slice ''4111 1111 1111 1111'' 0 19))"
proof -
  have "match_card ''4111 1111 1111 1111'' 0 = Some (make_span 0 19 KindCard)"
    by (simp add: match_card_def card_run.simps is_digit_def luhn_def slice_def bounded_before_def)
       (simp add: numeral_eq_Suc)
  from card_span_is_card_number [OF this] show ?thesis by (simp add: make_span_def)
qed

end
