(* ===== verification/Errors.thy ===== *)
theory Errors
  imports Policy Detect JsonEncode "HOL-Library.Product_Lexorder"
begin

text \<open>
  Failures (\<open>errors.go\<close> and the error helpers of \<open>walk.go\<close> and \<open>json_stream.go\<close>): how a
  key or path becomes a diagnostic that is safe to log, and how an operation collects
  its failures.  \<open>strconv.Quote\<close> is modelled; which runes print is a parameter.
\<close>

section \<open>Quoting\<close>

text \<open>Lower-case hexadecimal digits, as \<open>strconv\<close> writes them.\<close>

definition hex_digits :: "nat \<Rightarrow> nat \<Rightarrow> bytes" where
  "hex_digits width n = map (\<lambda>i. json_hex (n div 16 ^ (width - 1 - i) mod 16)) [0..<width]"

definition quote_rune :: "unicode_tables \<Rightarrow> nat \<Rightarrow> bytes" where
  "quote_rune u r =
     (if r = byte quote_char \<or> r = byte backslash then [backslash, chr r]
      else if is_print u r then encode_rune r
      else if r = 7 then backslash # ''a''
      else if r = 8 then backslash # ''b''
      else if r = 12 then backslash # ''f''
      else if r = 10 then backslash # ''n''
      else if r = 13 then backslash # ''r''
      else if r = 9 then backslash # ''t''
      else if r = 11 then backslash # ''v''
      else if r < 32 \<or> r = 127 then backslash # ''x'' @ hex_digits 2 r
      else if r < 65536 then backslash # ''u'' @ hex_digits 4 r
      else backslash # ''U'' @ hex_digits 8 r)"

definition quote_chunk :: "unicode_tables \<Rightarrow> nat \<times> bytes \<Rightarrow> bytes" where
  "quote_chunk u x =
     (if bad_chunk x then backslash # ''x'' @ hex_digits 2 (byte (hd (snd x))) else quote_rune u (fst x))"

definition strconv_quote :: "unicode_tables \<Rightarrow> bytes \<Rightarrow> bytes" where
  "strconv_quote u s = quote_char # concat (map (quote_chunk u) (chunks s)) @ [quote_char]"

definition needs_quoting :: "unicode_tables \<Rightarrow> bytes \<Rightarrow> bool" where
  "needs_quoting u value \<longleftrightarrow> \<not> valid_utf8 value
     \<or> list_ex (\<lambda>r. \<not> is_print u r \<or> r = byte quote_char \<or> r = byte backslash \<or> r = byte CHR '' '') (runes value)"

section \<open>Diagnostics\<close>

definition max_diagnostic_len :: nat where
  "max_diagnostic_len = 256"

definition diagnostic_detectors :: detect_set where
  "diagnostic_detectors = \<lparr>cards = True, aws_key_ids = True\<rparr>"

text \<open>
  Copying a text with every edit replaced by a marker: an edit that starts before the
  end of the last one is inside it and is passed over.
\<close>

fun replace_edits :: "bytes \<Rightarrow> bytes \<Rightarrow> nat \<Rightarrow> (nat \<times> nat) list \<Rightarrow> bytes" where
  "replace_edits marker value prev [] = drop prev value"
| "replace_edits marker value prev ((a, b) # edits) =
     (if a < prev then replace_edits marker value prev edits
      else slice value prev a @ marker @ replace_edits marker value b edits)"

text \<open>
  Two edits the comparison of \<open>slices.SortFunc\<close> takes for equal are equal, so the
  order of the result does not depend on the sort being stable.
\<close>

definition sort_edits :: "(nat \<times> nat) list \<Rightarrow> (nat \<times> nat) list" where
  "sort_edits edits = sort_key (\<lambda>(a, b). (int a, - int b)) edits"

definition redact_diagnostic :: "bytes \<Rightarrow> bytes" where
  "redact_diagnostic value =
     (if \<not> candidate value diagnostic_detectors then value
      else case find_secrets value diagnostic_detectors of (spans, pairs) \<Rightarrow>
        replace_edits default_redaction_marker value 0
          (sort_edits (map (\<lambda>sp. (span_start sp, span_end sp)) spans
             @ map (\<lambda>p. (value_start p, value_end p)) pairs)))"

fun cut_back :: "bytes \<Rightarrow> nat \<Rightarrow> nat" where
  "cut_back value 0 = 0"
| "cut_back value (Suc n) = (if rune_start (value ! Suc n) then Suc n else cut_back value n)"

definition safe_diagnostic :: "unicode_tables \<Rightarrow> bytes \<Rightarrow> bytes" where
  "safe_diagnostic u value =
     (if value = [] then []
      else (let value = redact_diagnostic value;
                truncated = max_diagnostic_len < length value;
                value = (if truncated then take (cut_back value max_diagnostic_len) value else value);
                value = (if needs_quoting u value then strconv_quote u value else value) in
        if truncated then value @ ''...(truncated)'' else value))"

section \<open>Failures\<close>

definition new_mask_error :: "unicode_tables \<Rightarrow> error_code \<Rightarrow> bytes \<Rightarrow> bytes \<Rightarrow> mask_error" where
  "new_mask_error u code operation path =
     \<lparr>e_code = code, e_operation = operation, e_path = safe_diagnostic u path, e_field = [],
      e_conflicting = [], e_depth = 0, e_rule = []\<rparr>"

definition new_field_error :: "unicode_tables \<Rightarrow> error_code \<Rightarrow> field \<Rightarrow> int \<Rightarrow> mask_error" where
  "new_field_error u code f depth =
     (new_mask_error u code ''mask'' (f_path f))\<lparr>e_field := safe_diagnostic u (f_key f), e_depth := depth\<rparr>"

definition rule_field_error :: "unicode_tables \<Rightarrow> error_code \<Rightarrow> field \<Rightarrow> rule \<Rightarrow> mask_error" where
  "rule_field_error u code f r = (new_field_error u code f 0)\<lparr>e_rule := safe_diagnostic u (rule_name r)\<rparr>"

definition max_mask_errors :: nat where
  "max_mask_errors = 64"

definition add_mask_error :: "mask_error list \<Rightarrow> mask_error \<Rightarrow> mask_error list" where
  "add_mask_error errs err = (if length errs < max_mask_errors then errs @ [err] else errs)"

definition add_unique :: "mask_error list \<Rightarrow> mask_error \<Rightarrow> mask_error list" where
  "add_unique errs err = (if err \<in> set errs then errs else add_mask_error errs err)"

definition add_priority_mask_error :: "mask_error list \<Rightarrow> mask_error \<Rightarrow> mask_error list" where
  "add_priority_mask_error errs err =
     (if length errs < max_mask_errors then add_mask_error errs err
      else errs[max_mask_errors - 1 := err])"

definition aggregate_errors :: "mask_error list \<Rightarrow> go_error option" where
  "aggregate_errors errs = (if errs = [] then None else Some (MaskErrors errs))"

section \<open>Messages\<close>

definition error_code_text :: "error_code \<Rightarrow> bytes" where
  "error_code_text c = (case c of
       CodeInvalidConfig \<Rightarrow> ''invalid_config'' | CodeInvalidJSON \<Rightarrow> ''invalid_json''
     | CodeInvalidUTF8 \<Rightarrow> ''invalid_utf8'' | CodeInputLimit \<Rightarrow> ''input_limit''
     | CodeDepthLimit \<Rightarrow> ''depth_limit'' | CodeNodeLimit \<Rightarrow> ''node_limit'' | CodeCycle \<Rightarrow> ''cycle''
     | CodeUnsupportedType \<Rightarrow> ''unsupported_type'' | CodeUnsupportedKey \<Rightarrow> ''unsupported_map_key''
     | CodeFieldConflict \<Rightarrow> ''field_conflict'' | CodePolicyFailure \<Rightarrow> ''policy_failure''
     | CodeRuleFailure \<Rightarrow> ''rule_failure'' | CodePanic \<Rightarrow> ''panic'')"

fun join :: "bytes \<Rightarrow> bytes list \<Rightarrow> bytes" where
  "join sep [] = []"
| "join sep [p] = p"
| "join sep (p # q # ps) = p @ sep @ join sep (q # ps)"

definition labelled :: "bytes \<Rightarrow> bytes \<Rightarrow> bytes list" where
  "labelled label value = (if value = [] then [] else [label @ value])"

definition error_text :: "mask_error \<Rightarrow> bytes" where
  "error_text e = join '': ''
     ([''masker'', error_code_text (e_code e)]
      @ labelled ''operation='' (e_operation e) @ labelled ''path='' (e_path e)
      @ labelled ''field='' (e_field e) @ labelled ''conflicting_field='' (e_conflicting e)
      @ (if e_depth e \<noteq> 0 then [''depth='' @ itoa (e_depth e)] else [])
      @ labelled ''rule='' (e_rule e))"

fun errors_text :: "mask_error list \<Rightarrow> bytes" where
  "errors_text [] = ''masker: no errors''"
| "errors_text [e] = error_text e"
| "errors_text (e # _) = error_text e @ '' (and more errors)''"

text \<open>\<open>errors.Is\<close> with the sentinel of a code, through the \<open>Unwrap\<close> methods.\<close>

fun error_is :: "go_error \<Rightarrow> error_code \<Rightarrow> bool" where
  "error_is (Wrapped c) code = (c = code)"
| "error_is (MaskError e) code = (e_code e = code)"
| "error_is (MaskErrors es) code = list_ex (\<lambda>e. e_code e = code) es"

section \<open>Diagnostics are safe and bounded\<close>

text \<open>Valid UTF-8 in which every rune prints.\<close>

definition printable :: "unicode_tables \<Rightarrow> bytes \<Rightarrow> bool" where
  "printable u s \<longleftrightarrow> valid_utf8 s \<and> list_all (is_print u) (runes s)"

lemma printable_append: "printable u s \<Longrightarrow> printable u t \<Longrightarrow> printable u (s @ t)"
  by (simp add: printable_def valid_utf8_append runes_def chunks_append_valid)

lemma printable_concat: "list_all (printable u) ps \<Longrightarrow> printable u (concat ps)"
proof (induction ps)
  case Nil
  then show ?case by (simp add: printable_def runes_def)
qed (simp add: printable_append)

definition graphic :: "char \<Rightarrow> bool" where
  "graphic c \<longleftrightarrow> 32 \<le> byte c \<and> byte c < 127"

lemma printable_ascii:
  assumes "ascii_tables u" and "list_all graphic s" shows "printable u s"
proof -
  have "is_ascii s" using assms(2) by (auto simp: is_ascii_def graphic_def list_all_iff)
  moreover have "is_print u (byte c)" if "c \<in> set s" for c
    using assms that by (auto simp: ascii_tables_def graphic_def list_all_iff)
  ultimately show ?thesis
    by (simp add: printable_def runes_ascii list_all_iff is_ascii_def valid_utf8_ascii)
qed

lemma json_hex_graphic: "n < 16 \<Longrightarrow> graphic (json_hex n)"
proof -
  assume "n < 16"
  then have "json_hex n \<in> set ''0123456789abcdef''" unfolding json_hex_def by (intro nth_mem) simp
  moreover have "\<forall>c \<in> set ''0123456789abcdef''. graphic c" by (simp add: graphic_def)
  ultimately show ?thesis by blast
qed

lemma hex_digits_graphic: "list_all graphic (hex_digits w n)"
  by (simp add: hex_digits_def list_all_iff json_hex_graphic)

lemma length_hex_digits [simp]: "length (hex_digits w n) = w"
  by (simp add: hex_digits_def)

lemma printable_rune: "is_print u r \<Longrightarrow> valid_rune r \<Longrightarrow> printable u (encode_rune r)"
  using chunks_string_of_runes [of "[r]" "[]"]
  by (simp add: printable_def runes_def string_of_runes_def valid_utf8_encode_rune)

lemma quote_rune_printable:
  assumes "ascii_tables u" and "valid_rune r" shows "printable u (quote_rune u r)"
proof (cases "is_print u r \<and> r \<noteq> byte quote_char \<and> r \<noteq> byte backslash")
  case True
  then show ?thesis using assms(2) by (simp add: quote_rune_def printable_rune)
next
  case False
  then have "list_all graphic (quote_rune u r)"
    by (auto simp: quote_rune_def hex_digits_graphic graphic_def)
  then show ?thesis by (rule printable_ascii [OF assms(1)])
qed

lemma strconv_quote_printable: "ascii_tables u \<Longrightarrow> printable u (strconv_quote u s)"
proof -
  assume u: "ascii_tables u"
  have chunk: "printable u (quote_chunk u (r, b))" if "(r, b) \<in> set (chunks s)" for r b
    using that chunk_cases [OF that] u
    by (auto simp: quote_chunk_def quote_rune_printable hex_digits_graphic graphic_def intro!: printable_ascii)
  then have "printable u (concat (map (quote_chunk u) (chunks s)))"
    by (intro printable_concat) (auto simp: list_all_iff)
  then have "printable u ([quote_char] @ concat (map (quote_chunk u) (chunks s)) @ [quote_char])"
    by (intro printable_append) (simp_all add: graphic_def printable_ascii [OF u])
  then show ?thesis by (simp add: strconv_quote_def)
qed

lemma not_quoted_printable: "\<not> needs_quoting u s \<Longrightarrow> printable u s"
  by (auto simp: needs_quoting_def printable_def list_ex_iff list_all_iff)

lemma quote_rune_length:
  assumes "ascii_tables u" and "valid_rune r" shows "length (quote_rune u r) \<le> 4 * length (encode_rune r)"
proof -
  have "32 \<le> r \<Longrightarrow> r < 127 \<Longrightarrow> is_print u r" using assms(1) by (simp add: ascii_tables_def)
  moreover
  have "1 \<le> length (encode_rune r)" "128 \<le> r \<Longrightarrow> 2 \<le> length (encode_rune r)" "65536 \<le> r \<Longrightarrow> 4 \<le> length (encode_rune r)"
    using assms(2) by (simp_all add: encode_rune_def encode_valid_def)
  ultimately show ?thesis by (cases "r < 128") (auto simp: quote_rune_def)
qed

lemma concat_lengths:
  "(\<And>x. x \<in> set xs \<Longrightarrow> length (f x) \<le> k * length (g x)) \<Longrightarrow> length (concat (map f xs)) \<le> k * length (concat (map g xs))"
proof (induction xs)
  case (Cons x xs)
  then have "length (f x) \<le> k * length (g x)" "length (concat (map f xs)) \<le> k * length (concat (map g xs))" by auto
  then show ?case by (simp add: distrib_left add_mono)
qed simp

lemma strconv_quote_length:
  assumes "ascii_tables u" shows "length (strconv_quote u s) \<le> 4 * length s + 2"
proof -
  have chunk: "length (quote_chunk u x) \<le> 4 * length (snd x)" if "x \<in> set (chunks s)" for x
  proof (cases "bad_chunk x")
    case True
    then show ?thesis by (auto simp: quote_chunk_def bad_chunk_def)
  next
    case False
    then show ?thesis
      using chunk_cases [of "fst x" "snd x" s] that quote_rune_length [OF assms, of "fst x"]
      by (simp add: quote_chunk_def)
  qed
  from concat_lengths [of "chunks s" "quote_chunk u" 4 snd, OF chunk] show ?thesis by (simp add: strconv_quote_def)
qed

lemma cut_back_le: "cut_back value n \<le> n"
  by (induction n) auto

section \<open>Diagnostics are one token\<close>

text \<open>
  A text between quotes that closes nowhere: a backslash takes the byte behind it with it,
  and no quotation mark stands alone.
\<close>

fun escaped :: "bytes \<Rightarrow> bool" where
  "escaped [] = True"
| "escaped (c # cs) = (if c = backslash then cs \<noteq> [] \<and> escaped (tl cs) else c \<noteq> quote_char \<and> escaped cs)"

text \<open>
  What a reader of a log line takes for one value: a text with no quotation mark, backslash
  or space in it, or a quoted text whose first unescaped quotation mark is its last byte.
\<close>

definition log_token :: "bytes \<Rightarrow> bool" where
  "log_token t \<longleftrightarrow> (quote_char \<notin> set t \<and> backslash \<notin> set t \<and> CHR '' '' \<notin> set t)
     \<or> (\<exists>inner. t = quote_char # inner @ [quote_char] \<and> escaped inner)"

lemma escaped_append: "escaped s \<Longrightarrow> escaped (s @ t) = escaped t"
  by (induction s rule: escaped.induct) (auto split: if_splits)

lemma escaped_concat: "list_all escaped ps \<Longrightarrow> escaped (concat ps)"
  by (induction ps) (simp_all add: escaped_append)

lemma escaped_plain: "quote_char \<notin> set s \<Longrightarrow> backslash \<notin> set s \<Longrightarrow> escaped s"
  by (induction s) auto

lemma ascii_byte_rune: "c \<in> set s \<Longrightarrow> byte c < 128 \<Longrightarrow> byte c \<in> set (runes s)"
  by (auto simp: runes_def chunks_at_ascii dest!: split_list)

lemma encoded_ascii_byte:
  assumes "valid_rune r" and "c \<in> set (encode_rune r)" and "byte c < 128"
  shows "r = byte c"
  using ascii_byte_rune [OF assms(2,3)] chunks_encode [OF assms(1), of "[]"] by (simp add: runes_def)

lemma hex_digits_escaped: "escaped (hex_digits w n)"
proof (rule escaped_plain)
  have "c \<notin> set (hex_digits w n)" if "c \<notin> set ''0123456789abcdef''" for c
  proof
    assume "c \<in> set (hex_digits w n)"
    then obtain i where c: "c = json_hex (i mod 16)" unfolding hex_digits_def by auto
    have "json_hex (i mod 16) \<in> set ''0123456789abcdef''" unfolding json_hex_def by (intro nth_mem) simp
    then show False using that unfolding c by contradiction
  qed
  from this [of quote_char] this [of backslash]
  show "quote_char \<notin> set (hex_digits w n)" "backslash \<notin> set (hex_digits w n)" by simp_all
qed

lemma quote_rune_escaped:
  assumes "valid_rune r" shows "escaped (quote_rune u r)"
proof (cases "is_print u r \<and> r \<noteq> byte quote_char \<and> r \<noteq> byte backslash")
  case True
  have "escaped (encode_rune r)"
    using True encoded_ascii_byte [OF assms, of quote_char] encoded_ascii_byte [OF assms, of backslash]
    by (intro escaped_plain) auto
  then show ?thesis using True by (simp add: quote_rune_def)
next
  case False
  then show ?thesis by (auto simp: quote_rune_def hex_digits_escaped)
qed

lemma strconv_quote_token: "log_token (strconv_quote u s)"
proof -
  have "escaped (quote_chunk u (r, b))" if "(r, b) \<in> set (chunks s)" for r b
    using chunk_cases [OF that] by (simp add: quote_chunk_def quote_rune_escaped hex_digits_escaped)
  then have "escaped (concat (map (quote_chunk u) (chunks s)))"
    by (intro escaped_concat) (auto simp: list_all_iff)
  then show ?thesis by (simp add: log_token_def strconv_quote_def)
qed

lemma not_quoted_token: "\<not> needs_quoting u s \<Longrightarrow> log_token s"
  using ascii_byte_rune [of quote_char s] ascii_byte_rune [of backslash s] ascii_byte_rune [of "CHR '' ''" s]
  by (auto simp: needs_quoting_def log_token_def list_ex_iff)

section \<open>The list of failures\<close>

lemma add_mask_error_bound: "length errs \<le> max_mask_errors \<Longrightarrow> length (add_mask_error errs e) \<le> max_mask_errors"
  by (simp add: add_mask_error_def)

lemma add_unique_bound: "length errs \<le> max_mask_errors \<Longrightarrow> length (add_unique errs e) \<le> max_mask_errors"
  by (simp add: add_unique_def add_mask_error_bound)

lemma add_priority_bound:
  "length errs \<le> max_mask_errors \<Longrightarrow> length (add_priority_mask_error errs e) \<le> max_mask_errors"
  by (simp add: add_priority_mask_error_def add_mask_error_def)

lemma add_priority_member: "length errs \<le> max_mask_errors \<Longrightarrow> e \<in> set (add_priority_mask_error errs e)"
  by (auto simp: add_priority_mask_error_def add_mask_error_def max_mask_errors_def intro!: set_update_memI)

lemma add_errors_nonempty [simp]:
  "add_unique errs e \<noteq> []" "errs \<noteq> [] \<Longrightarrow> add_mask_error errs e \<noteq> []"
  "add_priority_mask_error errs e \<noteq> []"
  by (auto simp: add_unique_def add_mask_error_def add_priority_mask_error_def max_mask_errors_def)

section \<open>Properties\<close>

text \<open>
  C24: A diagnostic cannot break a log record: what \<open>safeDiagnostic\<close> returns, up to the
  note that it was cut, is either a text with no quotation mark, backslash or space or a
  quoted text that is closed by its last byte and not before.  It is valid UTF-8 in
  which every rune prints (no control byte, no newline, no bidirectional override), in
  at most four bytes for each of the 256 it looks at, two quotes and the note.
\<close>

theorem safe_diagnostic_printable:
  assumes "ascii_tables u"
  shows "(\<exists>t. log_token t \<and> (safe_diagnostic u value = t \<or> safe_diagnostic u value = t @ ''...(truncated)''))
    \<and> printable u (safe_diagnostic u value) \<and> length (safe_diagnostic u value) \<le> 4 * max_diagnostic_len + 2 + 14"
proof (cases "value = []")
  case False
  define v where "v = redact_diagnostic value"
  define w where "w = (if max_diagnostic_len < length v then take (cut_back v max_diagnostic_len) v else v)"
  define q where "q = (if needs_quoting u w then strconv_quote u w else w)"
  have "length w \<le> max_diagnostic_len"
    using cut_back_le [of v max_diagnostic_len] by (auto simp: w_def)
  then have "length q \<le> 4 * max_diagnostic_len + 2"
    using strconv_quote_length [OF assms, of w] by (auto simp: q_def)
  moreover have "log_token q" using strconv_quote_token not_quoted_token by (simp add: q_def)
  moreover have "printable u q"
    using strconv_quote_printable [OF assms] not_quoted_printable by (auto simp: q_def)
  moreover have "printable u (q @ ''...(truncated)'')"
    by (intro printable_append \<open>printable u q\<close> printable_ascii [OF assms]) (simp add: graphic_def)
  moreover have "safe_diagnostic u value = (if max_diagnostic_len < length v then q @ ''...(truncated)'' else q)"
    using False by (simp add: safe_diagnostic_def Let_def q_def w_def v_def)
  ultimately show ?thesis by auto
qed (simp add: safe_diagnostic_def printable_def runes_def log_token_def)

theorem safe_diagnostic_printable_witness:
  "\<exists>t. log_token t \<and> (safe_diagnostic ascii_only_tables ''a \"b'' = t
     \<or> safe_diagnostic ascii_only_tables ''a \"b'' = t @ ''...(truncated)'')"
  using safe_diagnostic_printable [OF ascii_only_tables_ok] by blast

text \<open>
  C25: The list of failures never exceeds 64 entries, whichever way one is added, and
  a limit failure is in it however full it was.
\<close>

theorem failure_list_bounded:
  assumes "length errs \<le> max_mask_errors"
  shows "length (add_unique errs e) \<le> max_mask_errors \<and> length (add_mask_error errs e) \<le> max_mask_errors
    \<and> length (add_priority_mask_error errs e) \<le> max_mask_errors \<and> e \<in> set (add_priority_mask_error errs e)"
  using assms by (simp add: add_unique_bound add_mask_error_bound add_priority_bound add_priority_member)

theorem failure_list_bounded_witness:
  "new_mask_error ascii_only_tables CodeDepthLimit ''mask'' [] \<in> set (add_priority_mask_error
     (replicate 64 (new_mask_error ascii_only_tables CodeRuleFailure ''mask'' []))
     (new_mask_error ascii_only_tables CodeDepthLimit ''mask'' []))"
  by (rule failure_list_bounded [THEN conjunct2, THEN conjunct2, THEN conjunct2]) (simp add: max_mask_errors_def)

end
