(* ===== verification/Masker.thy ===== *)
theory Masker
  imports Errors
begin

text \<open>
  The configuration (\<open>options.go\<close>) and the construction of a \<open>Masker\<close> and its one
  string operation (\<open>masker.go\<close>).  \<open>markerAny\<close> is the marker boxed once and needs no
  field of its own; the struct metadata cache is filled on demand and starts empty.
\<close>

section \<open>Configuration\<close>

record config =
  marker :: bytes
  max_depth :: int
  max_nodes :: int
  max_input_bytes :: int
  preserve_safe :: bool
  embedded :: bool
  text_detectors :: bool
  cfg_detect_set :: detect_set
  struct_tag :: bytes
  tag_rules :: "bytes \<rightharpoonup> rule"
  need_paths :: bool

definition default_struct_tag :: bytes where
  "default_struct_tag = ''mask''"

definition default_config :: config where
  "default_config =
     \<lparr>marker = default_redaction_marker, max_depth = 32, max_nodes = 100000,
      max_input_bytes = 8 * 2 ^ 20, preserve_safe = False, embedded = True, text_detectors = True,
      cfg_detect_set = \<lparr>cards = False, aws_key_ids = False\<rparr>, struct_tag = default_struct_tag,
      tag_rules = builtin_tag_rules, need_paths = False\<rparr>"

definition max_depth_limit :: int where
  "max_depth_limit = 10000"

text \<open>The options: the exported constructors with their arguments, and a nil option.\<close>

datatype mask_option =
    NilOption
  | WithoutEmbeddedDocuments | WithoutTextDetectors | WithoutValueInspection
  | WithCardNumberDetection | WithAWSKeyIDDetection | WithPreserveSafeTypes
  | WithRedaction bytes
  | WithMaxDepth int
  | WithMaxNodes int
  | WithMaxInputBytes int
  | WithStructTag bytes
  | WithTagRule bytes rule

definition with_redaction :: "bytes \<Rightarrow> config \<Rightarrow> go_error + config" where
  "with_redaction m cfg =
     (if m = [] \<or> \<not> valid_utf8 m then Inl (Wrapped CodeInvalidConfig) else Inr (cfg\<lparr>marker := m\<rparr>))"

definition with_max_depth :: "int \<Rightarrow> config \<Rightarrow> go_error + config" where
  "with_max_depth depth cfg =
     (if depth < 0 \<or> max_depth_limit < depth then Inl (Wrapped CodeInvalidConfig)
      else Inr (cfg\<lparr>max_depth := depth\<rparr>))"

definition with_max_nodes :: "int \<Rightarrow> config \<Rightarrow> go_error + config" where
  "with_max_nodes nodes cfg =
     (if nodes \<le> 0 then Inl (Wrapped CodeInvalidConfig) else Inr (cfg\<lparr>max_nodes := nodes\<rparr>))"

definition with_max_input_bytes :: "int \<Rightarrow> config \<Rightarrow> go_error + config" where
  "with_max_input_bytes n cfg =
     (if n \<le> 0 then Inl (Wrapped CodeInvalidConfig) else Inr (cfg\<lparr>max_input_bytes := n\<rparr>))"

definition with_struct_tag :: "bytes \<Rightarrow> config \<Rightarrow> go_error + config" where
  "with_struct_tag name cfg =
     (let name = (if name = [] then default_struct_tag else name) in
      if \<not> valid_utf8 name then Inl (Wrapped CodeInvalidConfig) else Inr (cfg\<lparr>struct_tag := name\<rparr>))"

definition with_tag_rule :: "bytes \<Rightarrow> rule \<Rightarrow> config \<Rightarrow> go_error + config" where
  "with_tag_rule name r cfg =
     (if name = [] \<or> \<not> valid_utf8 name \<or> name = ''omit''
        \<or> list_ex (\<lambda>c. c = CHR '','' \<or> c = CHR '' '' \<or> c = CHR 0x22) name
      then Inl (Wrapped CodeInvalidConfig)
      else if tag_rules cfg name \<noteq> None then Inl (Wrapped CodeInvalidConfig)
      else if is_nil_rule r then Inl (Wrapped CodeInvalidConfig)
      else Inr (cfg\<lparr>tag_rules := (tag_rules cfg)(name \<mapsto> r)\<rparr>))"

fun apply_option :: "mask_option \<Rightarrow> config \<Rightarrow> go_error + config" where
  "apply_option NilOption cfg = Inl (Wrapped CodeInvalidConfig)"
| "apply_option WithoutEmbeddedDocuments cfg = Inr (cfg\<lparr>embedded := False\<rparr>)"
| "apply_option WithoutTextDetectors cfg = Inr (cfg\<lparr>text_detectors := False\<rparr>)"
| "apply_option WithoutValueInspection cfg = Inr (cfg\<lparr>embedded := False, text_detectors := False\<rparr>)"
| "apply_option WithCardNumberDetection cfg = Inr (cfg\<lparr>cfg_detect_set := (cfg_detect_set cfg)\<lparr>cards := True\<rparr>\<rparr>)"
| "apply_option WithAWSKeyIDDetection cfg = Inr (cfg\<lparr>cfg_detect_set := (cfg_detect_set cfg)\<lparr>aws_key_ids := True\<rparr>\<rparr>)"
| "apply_option WithPreserveSafeTypes cfg = Inr (cfg\<lparr>preserve_safe := True\<rparr>)"
| "apply_option (WithRedaction m) cfg = with_redaction m cfg"
| "apply_option (WithMaxDepth d) cfg = with_max_depth d cfg"
| "apply_option (WithMaxNodes n) cfg = with_max_nodes n cfg"
| "apply_option (WithMaxInputBytes n) cfg = with_max_input_bytes n cfg"
| "apply_option (WithStructTag name) cfg = with_struct_tag name cfg"
| "apply_option (WithTagRule name r) cfg = with_tag_rule name r cfg"

fun apply_options :: "mask_option list \<Rightarrow> config \<Rightarrow> go_error + config" where
  "apply_options [] cfg = Inr cfg"
| "apply_options (opt # opts) cfg = (case apply_option opt cfg of
       Inl e \<Rightarrow> Inl e
     | Inr cfg' \<Rightarrow> apply_options opts cfg')"

section \<open>The masker\<close>

record masker =
  m_policy :: policy
  m_cfg :: config

definition new_masker :: "policy \<Rightarrow> mask_option list \<Rightarrow> go_error + masker" where
  "new_masker p opts =
     (if is_nil_policy p then Inl (Wrapped CodeInvalidConfig)
      else if is_empty_policy_chain p then Inl (Wrapped CodeInvalidConfig)
      else if has_nil_policy_chain p then Inl (Wrapped CodeInvalidConfig)
      else case apply_options opts default_config of
        Inl e \<Rightarrow> Inl e
      | Inr cfg \<Rightarrow> Inr \<lparr>m_policy = p, m_cfg = cfg\<lparr>need_paths := policy_needs_paths p\<rparr>\<rparr>)"

text \<open>
  \<open>MaskString\<close>; a nil masker is \<open>None\<close>.  Everything it calls into user code is
  contained already, so the deferred recovery has nothing left to catch.
\<close>

definition mask_string ::
    "unicode_tables \<Rightarrow> masker option \<Rightarrow> bytes \<Rightarrow> rule \<Rightarrow> bytes \<times> go_error option" where
  "mask_string u m value r = (case m of
       None \<Rightarrow> (default_redaction_marker, Some (Wrapped CodeInvalidConfig))
     | Some m \<Rightarrow>
         (case apply_rule u r \<lparr>ri_value = value, ri_kind = KindString, ri_redaction = marker (m_cfg m)\<rparr> of
            Inr result \<Rightarrow> (result, None)
          | Inl e \<Rightarrow> (marker (m_cfg m), Some (MaskError
              ((new_mask_error u (callback_code CodeRuleFailure e) ''mask_string'' ''$'')
                 \<lparr>e_rule := safe_diagnostic u (rule_name r)\<rparr>)))))"

definition path_for :: "bytes \<Rightarrow> bytes \<Rightarrow> bytes" where
  "path_for parent key = (if parent = [] then ''$'' else parent) @ ''['' @ key @ '']''"

definition path_for_index :: "bytes \<Rightarrow> nat \<Rightarrow> bytes" where
  "path_for_index parent index = parent @ ''['' @ itoa (int index) @ '']''"

section \<open>Invariant\<close>

definition config_ok :: "config \<Rightarrow> bool" where
  "config_ok cfg \<longleftrightarrow>
     marker cfg \<noteq> [] \<and> valid_utf8 (marker cfg)
   \<and> 0 \<le> max_depth cfg \<and> max_depth cfg \<le> max_depth_limit
   \<and> 0 < max_nodes cfg \<and> 0 < max_input_bytes cfg
   \<and> struct_tag cfg \<noteq> [] \<and> valid_utf8 (struct_tag cfg)
   \<and> builtin_tag_rules \<subseteq>\<^sub>m tag_rules cfg \<and> tag_rules cfg ''omit'' = None
   \<and> (\<forall>r \<in> ran (tag_rules cfg). \<not> is_nil_rule r)"

lemma builtin_not_nil: "r \<in> ran builtin_tag_rules \<Longrightarrow> \<not> is_nil_rule r"
  by (auto simp: builtin_tag_rules_def ran_def is_nil_rule_def split: if_splits)

lemma default_config_ok: "config_ok default_config"
  using builtin_not_nil
  by (simp add: config_ok_def default_config_def default_redaction_marker_def default_struct_tag_def
      max_depth_limit_def) (simp add: builtin_tag_rules_def)

lemma with_tag_rule_ok:
  assumes "config_ok cfg" and "with_tag_rule name r cfg = Inr cfg'"
  shows "config_ok cfg'"
proof -
  have new: "name \<noteq> ''omit''" "tag_rules cfg name = None" "\<not> is_nil_rule r"
    and cfg': "cfg' = cfg\<lparr>tag_rules := (tag_rules cfg)(name \<mapsto> r)\<rparr>"
    using assms(2) by (auto simp: with_tag_rule_def split: if_splits)
  have "builtin_tag_rules \<subseteq>\<^sub>m (tag_rules cfg)(name \<mapsto> r)"
  proof -
    have le: "builtin_tag_rules \<subseteq>\<^sub>m tag_rules cfg" using assms(1) by (simp add: config_ok_def)
    then have "builtin_tag_rules name = None" using new(2) by (metis domIff map_le_def)
    then show ?thesis using le by (auto simp: map_le_def)
  qed
  then show ?thesis using assms(1) new by (auto simp: config_ok_def cfg' ran_def split: if_splits)
qed

lemma apply_option_ok: "config_ok cfg \<Longrightarrow> apply_option opt cfg = Inr cfg' \<Longrightarrow> config_ok cfg'"
  by (cases opt)
     (auto simp: with_redaction_def with_max_depth_def with_max_nodes_def with_max_input_bytes_def
       with_struct_tag_def default_struct_tag_def Let_def config_ok_def split: if_splits
       dest: with_tag_rule_ok [unfolded config_ok_def, rotated])

lemma apply_options_ok: "config_ok cfg \<Longrightarrow> apply_options opts cfg = Inr cfg' \<Longrightarrow> config_ok cfg'"
  by (induction opts arbitrary: cfg) (auto split: sum.splits dest: apply_option_ok)

section \<open>Properties\<close>

text \<open>
  C26: Every \<open>Masker\<close> that \<open>New\<close> returns has a marker that is not empty and valid
  UTF-8, a depth limit between 0 and 10000, positive node and input limits, all the
  built-in tag rules unchanged, no tag rule named omit and none that is nil, and a
  policy that is neither nil, nor an empty chain, nor a chain with a nil link.
\<close>

theorem new_masker_invariant:
  assumes "new_masker p opts = Inr m"
  shows "config_ok (m_cfg m) \<and> need_paths (m_cfg m) = policy_needs_paths p \<and> m_policy m = p
    \<and> \<not> is_nil_policy p \<and> \<not> is_empty_policy_chain p \<and> \<not> has_nil_policy_chain p"
  using assms apply_options_ok [OF default_config_ok, of opts]
  by (auto simp: new_masker_def config_ok_def split: if_splits sum.splits)

theorem new_masker_invariant_witness:
  "config_ok (default_config\<lparr>max_depth := 3, need_paths := True\<rparr>)"
  using new_masker_invariant [of "PolicyFunc (Some (\<lambda>f. Panics))" "[WithMaxDepth 3]"
      "\<lparr>m_policy = PolicyFunc (Some (\<lambda>f. Panics)), m_cfg = default_config\<lparr>max_depth := 3, need_paths := True\<rparr>\<rparr>"]
  by (simp add: new_masker_def with_max_depth_def max_depth_limit_def)

text \<open>
  \<open>MaskString\<close> fails closed: it returns text a rule gave and valid UTF-8, or an
  error and the marker, whatever the rule does: failing, panicking, nil or returning
  bytes that are not text; the error is a panic exactly when the rule panicked.
\<close>

theorem mask_string_fails_closed:
  "case mask_string u (Some m) value r of
     (result, None) \<Rightarrow> valid_utf8 result \<and> rule_method_apply u r
        \<lparr>ri_value = value, ri_kind = KindString, ri_redaction = marker (m_cfg m)\<rparr> = Returns result
   | (result, Some e) \<Rightarrow> result = marker (m_cfg m) \<and>
        (if \<not> is_nil_rule r \<and> rule_method_apply u r
          \<lparr>ri_value = value, ri_kind = KindString, ri_redaction = marker (m_cfg m)\<rparr> = Panics
         then error_is e CodePanic else error_is e CodeRuleFailure)"
  by (auto simp: mask_string_def apply_rule_def callback_code_def new_mask_error_def split: outcome.splits)

end
