(* ===== verification/UrlQuery.thy ===== *)
theory UrlQuery
  imports Prelude
begin

text \<open>
  Rewriting query and form text (\<open>internal/urlquery\<close>).  \<open>url.QueryEscape\<close> and
  \<open>url.QueryUnescape\<close> are modelled.  The callback \<open>callback\<close> threads the state of its
  caller and returns an error or the masked value and whether the pair is kept.
\<close>

section \<open>Percent encoding\<close>

definition query_hex :: "nat \<Rightarrow> char" where
  "query_hex n = ''0123456789ABCDEF'' ! n"

definition query_unreserved :: "char \<Rightarrow> bool" where
  "query_unreserved c \<longleftrightarrow> within CHR ''a'' CHR ''z'' c \<or> within CHR ''A'' CHR ''Z'' c
     \<or> within CHR ''0'' CHR ''9'' c \<or> c \<in> set ''-_.~''"

definition escape_query_char :: "char \<Rightarrow> bytes" where
  "escape_query_char c =
     (if query_unreserved c then [c]
      else if c = CHR '' '' then ''+''
      else [CHR ''%'', query_hex (byte c div 16), query_hex (byte c mod 16)])"

definition query_escape :: "bytes \<Rightarrow> bytes" where
  "query_escape s = concat (map escape_query_char s)"

fun query_unescape :: "bytes \<Rightarrow> bytes option" where
  "query_unescape [] = Some []"
| "query_unescape (c # cs) =
     (if c = CHR ''%'' then
        (case cs of
           a # b # rest \<Rightarrow>
             (case (hex_value a, hex_value b) of
                (Some x, Some y) \<Rightarrow> map_option ((#) (chr (x * 16 + y))) (query_unescape rest)
              | _ \<Rightarrow> None)
         | _ \<Rightarrow> None)
      else map_option ((#) (if c = CHR ''+'' then CHR '' '' else c)) (query_unescape cs))"

section \<open>Rewriting a query\<close>

type_synonym query_pair = "bytes \<times> bytes"

text \<open>The pairs of the text; \<open>None\<close> is \<open>ErrInvalidQuery\<close>.\<close>

function parse_pairs :: "bytes \<Rightarrow> query_pair list option" where
  "parse_pairs remaining =
     (if remaining = [] then Some []
      else case cut (CHR ''&'') remaining of
        (part, remaining', _) \<Rightarrow>
          if CHR '';'' \<in> set part then None
          else if part = [] then parse_pairs remaining'
          else (case cut (CHR ''='') part of
            (key, value, _) \<Rightarrow>
              if key = [] then parse_pairs remaining'
              else (case (query_unescape key, query_unescape value) of
                  (Some k, Some v) \<Rightarrow> map_option ((#) (k, v)) (parse_pairs remaining')
                | _ \<Rightarrow> None)))"
  by pat_completeness auto
termination
  by (relation "measure length") (auto dest: cut_shorter [OF _ sym])

declare parse_pairs.simps [simp del]

datatype 'e query_error = InvalidQuery | CallbackError 'e

type_synonym ('s, 'e) pair_mask = "'s \<Rightarrow> bytes \<Rightarrow> bytes \<Rightarrow> ('e + bytes \<times> bool) \<times> 's"

text \<open>The inner loop over the pairs of one key, which is escaped once.\<close>

fun mask_group ::
    "('s, 'e) pair_mask \<Rightarrow> bytes \<Rightarrow> query_pair list \<Rightarrow> bytes \<Rightarrow> 's \<Rightarrow> ('e query_error + bytes) \<times> 's" where
  "mask_group callback keyEscaped [] out st = (Inr out, st)"
| "mask_group callback keyEscaped ((k, v) # ps) out st = (case callback st k v of
       (Inl e, st) \<Rightarrow> (Inl (CallbackError e), st)
     | (Inr (masked, keep), st) \<Rightarrow>
         if \<not> keep then mask_group callback keyEscaped ps out st
         else mask_group callback keyEscaped ps
           ((if out = [] then [] else out @ ''&'') @ keyEscaped @ ''='' @ query_escape masked) st)"

function mask_groups ::
    "('s, 'e) pair_mask \<Rightarrow> query_pair list \<Rightarrow> bytes \<Rightarrow> 's \<Rightarrow> ('e query_error + bytes) \<times> 's" where
  "mask_groups callback pairs out st = (case pairs of
       [] \<Rightarrow> (Inr out, st)
     | (k, v) # ps \<Rightarrow>
         (case mask_group callback (query_escape k) ((k, v) # takeWhile (\<lambda>p. fst p = k) ps) out st of
            (Inl e, st) \<Rightarrow> (Inl e, st)
          | (Inr out, st) \<Rightarrow> mask_groups callback (dropWhile (\<lambda>p. fst p = k) ps) out st))"
  by pat_completeness auto
termination
  by (relation "measure (\<lambda>(callback, pairs, out, st). length pairs)") (auto simp: less_Suc_eq_le length_dropWhile_le)

declare mask_groups.simps [simp del]

text \<open>\<open>Mask\<close>.  \<open>slices.SortStableFunc\<close> by the bytes of the key is \<open>sort_key\<close>.\<close>

definition mask_query :: "('s, 'e) pair_mask \<Rightarrow> bytes \<Rightarrow> 's \<Rightarrow> ('e query_error + bytes) \<times> 's" where
  "mask_query callback raw st = (case parse_pairs raw of
       None \<Rightarrow> (Inl InvalidQuery, st)
     | Some pairs \<Rightarrow>
         if pairs = [] then (Inr [], st)
         else mask_groups callback (sort_key fst pairs) [] st)"

section \<open>Round trip\<close>

lemma nibbles: "byte c div 16 < 16" "byte c mod 16 < 16"
  using byte_less_256 [of c] by (simp_all add: less_mult_imp_div_less)

lemma query_hex_value: "n < 16 \<Longrightarrow> hex_value (query_hex n) = Some n"
proof -
  assume "n < 16"
  moreover have "\<forall>n \<in> set [0..<16]. hex_value (query_hex n) = Some n" by code_simp
  ultimately show ?thesis by simp
qed

lemma unescape_escape_char: "query_unescape (escape_query_char c @ s) = map_option ((#) c) (query_unescape s)"
proof (cases "query_unreserved c")
  case True
  then have "c \<noteq> CHR ''%''" "c \<noteq> CHR ''+''" by (auto simp: query_unreserved_def char_le_byte)
  then show ?thesis using True by (simp add: escape_query_char_def)
next
  case False
  show ?thesis
  proof (cases "c = CHR '' ''")
    case True
    then show ?thesis using False by (simp add: escape_query_char_def)
  next
    case space: False
    show ?thesis using False space nibbles [of c] by (simp add: escape_query_char_def query_hex_value)
  qed
qed

lemma unescape_escape: "query_unescape (query_escape s) = Some s"
  by (induction s) (simp_all add: query_escape_def unescape_escape_char del: query_unescape.simps(2))

text \<open>What is escaped holds none of the bytes that separate pairs.\<close>

lemma query_hex_safe: "n < 16 \<Longrightarrow> query_hex n \<notin> {CHR ''&'', CHR ''='', CHR '';''}"
proof -
  assume "n < 16"
  moreover have "\<forall>n \<in> set [0..<16]. query_hex n \<notin> {CHR ''&'', CHR ''='', CHR '';''}" by code_simp
  ultimately show ?thesis by simp
qed

lemma escape_char_safe: "x \<in> set (escape_query_char c) \<Longrightarrow> x \<notin> {CHR ''&'', CHR ''='', CHR '';''}"
proof -
  assume x: "x \<in> set (escape_query_char c)"
  show ?thesis
    using x query_hex_safe [OF nibbles(1)] query_hex_safe [OF nibbles(2)]
    by (auto simp: escape_query_char_def query_unreserved_def char_le_byte split: if_splits)
qed

lemma query_escape_safe: "x \<in> set (query_escape s) \<Longrightarrow> x \<notin> {CHR ''&'', CHR ''='', CHR '';''}"
  using escape_char_safe by (fastforce simp: query_escape_def)

lemma query_escape_nonempty: "s \<noteq> [] \<Longrightarrow> query_escape s \<noteq> []"
  by (cases s) (auto simp: query_escape_def escape_query_char_def)

text \<open>A query as text, and what is parsed from it.\<close>

definition encode_pair :: "query_pair \<Rightarrow> bytes" where
  "encode_pair p = query_escape (fst p) @ ''='' @ query_escape (snd p)"

fun encode_query :: "query_pair list \<Rightarrow> bytes" where
  "encode_query [] = []"
| "encode_query [p] = encode_pair p"
| "encode_query (p # q # ps) = encode_pair p @ ''&'' @ encode_query (q # ps)"

lemma encode_pair_safe: "CHR ''&'' \<notin> set (encode_pair p)" "CHR '';'' \<notin> set (encode_pair p)"
  using query_escape_safe by (fastforce simp: encode_pair_def)+

lemma cut_encode_pair: "cut (CHR ''='') (encode_pair p) = (query_escape (fst p), query_escape (snd p), True)"
  using cut_append [of "CHR ''=''" "query_escape (fst p)" "query_escape (snd p)"] query_escape_safe [of _ "fst p"]
  by (auto simp: encode_pair_def)

lemma parse_encode_query:
  "\<forall>p \<in> set ps. fst p \<noteq> [] \<Longrightarrow> parse_pairs (encode_query ps) = Some ps"
proof (induction ps rule: encode_query.induct)
  case 1
  then show ?case by (simp add: parse_pairs.simps)
next
  case (2 p)
  have "encode_pair p \<noteq> []" by (simp add: encode_pair_def)
  then show ?case
    using "2.prems" cut_absent [OF encode_pair_safe(1) [of p]] encode_pair_safe(2) [of p] query_escape_nonempty [of "fst p"]
    by (subst parse_pairs.simps) (simp add: cut_encode_pair unescape_escape parse_pairs.simps [of "[]"])
next
  case (3 p q ps)
  have "encode_pair p \<noteq> []" by (simp add: encode_pair_def)
  moreover have "cut (CHR ''&'') (encode_pair p @ ''&'' @ encode_query (q # ps)) = (encode_pair p, encode_query (q # ps), True)"
    using cut_append [OF encode_pair_safe(1)] by simp
  ultimately show ?case
    using 3 encode_pair_safe(2) [of p] query_escape_nonempty [of "fst p"]
    by (subst parse_pairs.simps) (simp add: cut_encode_pair unescape_escape)
qed

section \<open>What a rewritten query holds\<close>

text \<open>The callback run over a list of pairs: its first error, or the pairs it keeps.\<close>

fun mask_values ::
    "('s, 'e) pair_mask \<Rightarrow> query_pair list \<Rightarrow> 's \<Rightarrow> ('e query_error + query_pair list) \<times> 's" where
  "mask_values callback [] st = (Inr [], st)"
| "mask_values callback ((k, v) # ps) st = (case callback st k v of
       (Inl e, st) \<Rightarrow> (Inl (CallbackError e), st)
     | (Inr (masked, keep), st) \<Rightarrow> (case mask_values callback ps st of
           (Inl e, st) \<Rightarrow> (Inl e, st)
         | (Inr kept, st) \<Rightarrow> (Inr (if keep then (k, masked) # kept else kept), st)))"

lemma mask_values_append:
  "mask_values callback (ps @ qs) st = (case mask_values callback ps st of
       (Inl e, st) \<Rightarrow> (Inl e, st)
     | (Inr kept, st) \<Rightarrow> (case mask_values callback qs st of
           (Inl e, st) \<Rightarrow> (Inl e, st)
         | (Inr kept', st) \<Rightarrow> (Inr (kept @ kept'), st)))"
  by (induction callback ps st rule: mask_values.induct) (auto split: sum.splits prod.splits)

definition add_pairs :: "bytes \<Rightarrow> query_pair list \<Rightarrow> bytes" where
  "add_pairs out ps = (if ps = [] then out else if out = [] then encode_query ps else out @ ''&'' @ encode_query ps)"

lemma encode_query_nonempty: "encode_query ps = [] \<longleftrightarrow> ps = []"
  by (cases ps rule: encode_query.cases) (simp_all add: encode_pair_def)

lemma encode_query_Cons: "encode_query (p # ps) = encode_pair p @ (if ps = [] then [] else ''&'' @ encode_query ps)"
  by (cases ps) simp_all

lemma add_pairs_Cons:
  "add_pairs ((if out = [] then [] else out @ ''&'') @ encode_pair p) ps = add_pairs out (p # ps)"
  by (simp add: add_pairs_def encode_query_Cons) (simp add: encode_pair_def)

lemma add_pairs_append: "add_pairs (add_pairs out ps) qs = add_pairs out (ps @ qs)"
proof (induction ps arbitrary: out)
  case Nil
  then show ?case by (simp add: add_pairs_def)
next
  case (Cons p ps)
  show ?case unfolding add_pairs_Cons [symmetric] append_Cons Cons.IH ..
qed

lemma mask_group_values:
  "\<forall>p \<in> set ps. query_escape (fst p) = keyEscaped \<Longrightarrow> mask_group callback keyEscaped ps out st =
     (case mask_values callback ps st of
        (Inl e, st) \<Rightarrow> (Inl e, st)
      | (Inr kept, st) \<Rightarrow> (Inr (add_pairs out kept), st))"
proof (induction callback keyEscaped ps out st rule: mask_group.induct)
  case (2 callback keyEscaped k v ps out st)
  obtain r st1 where r: "callback st k v = (r, st1)" by (cases "callback st k v")
  show ?case
  proof (cases r)
    case (Inr a)
    then obtain masked keep where a: "r = Inr (masked, keep)" by (cases a) auto
    have k: "query_escape k = keyEscaped" using "2.prems" by simp
    let ?out = "(if out = [] then [] else out @ ''&'') @ keyEscaped @ ''='' @ query_escape masked"
    have out: "?out = (if out = [] then [] else out @ ''&'') @ encode_pair (k, masked)"
      by (simp add: encode_pair_def k)
    have ps: "\<forall>p \<in> set ps. query_escape (fst p) = keyEscaped" using "2.prems" by simp
    define o2 where "o2 = ?out"
    have add: "add_pairs o2 ks = add_pairs out ((k, masked) # ks)" for ks
      by (simp only: o2_def out add_pairs_Cons)
    show ?thesis
    proof (cases keep)
      case True
      have "mask_group callback keyEscaped ps o2 st1 = (case mask_values callback ps st1 of
          (Inl e, st) \<Rightarrow> (Inl e, st) | (Inr kept, st) \<Rightarrow> (Inr (add_pairs o2 kept), st))"
        unfolding o2_def using "2.IH"(2) [OF r [symmetric] a refl] True ps by blast
      moreover have "mask_group callback keyEscaped ((k, v) # ps) out st = mask_group callback keyEscaped ps o2 st1"
        by (simp add: r a True o2_def)
      ultimately show ?thesis by (simp add: r a True add split: prod.splits sum.splits)
    next
      case False
      have "mask_group callback keyEscaped ps out st1 = (case mask_values callback ps st1 of
          (Inl e, st) \<Rightarrow> (Inl e, st) | (Inr kept, st) \<Rightarrow> (Inr (add_pairs out kept), st))"
        using "2.IH"(1) [OF r [symmetric] a refl] False ps by blast
      then show ?thesis using r a False by (simp split: prod.splits sum.splits)
    qed
  qed (simp add: r)
qed (simp add: add_pairs_def)

lemma mask_groups_values:
  "mask_groups callback ps out st = (case mask_values callback ps st of
       (Inl e, st) \<Rightarrow> (Inl e, st)
     | (Inr kept, st) \<Rightarrow> (Inr (add_pairs out kept), st))"
proof (induction callback ps out st rule: mask_groups.induct)
  case (1 callback ps out st)
  show ?case
  proof (cases ps)
    case Nil
    then show ?thesis by (simp add: mask_groups.simps add_pairs_def)
  next
    case (Cons p rest)
    obtain k v where p: "p = (k, v)" by (cases p)
    let ?g = "(k, v) # takeWhile (\<lambda>p. fst p = k) rest" and ?r = "dropWhile (\<lambda>p. fst p = k) rest"
    have g: "mask_group callback (query_escape k) ?g out st = (case mask_values callback ?g st of
        (Inl e, st) \<Rightarrow> (Inl e, st) | (Inr kept, st) \<Rightarrow> (Inr (add_pairs out kept), st))"
      by (rule mask_group_values) (auto dest: set_takeWhileD)
    have split: "mask_values callback ps st = mask_values callback (?g @ ?r) st" by (simp add: Cons p)
    obtain res st1 where m: "mask_values callback ?g st = (res, st1)" by (cases "mask_values callback ?g st")
    show ?thesis
    proof (cases res)
      case (Inl e)
      have gr: "mask_group callback (query_escape k) ?g out st = (Inl e, st1)"
        unfolding g m Inl by simp
      have "mask_groups callback ps out st = (Inl e, st1)"
        unfolding Cons p mask_groups.simps [of callback "(k, v) # rest"] list.case prod.case gr sum.case ..
      then show ?thesis unfolding split mask_values_append m Inl by simp
    next
      case (Inr kept)
      have gr: "mask_group callback (query_escape k) ?g out st = (Inr (add_pairs out kept), st1)"
        unfolding g m Inr by simp
      have step: "mask_groups callback ps out st = mask_groups callback ?r (add_pairs out kept) st1"
        unfolding Cons p mask_groups.simps [of callback "(k, v) # rest"] list.case prod.case gr sum.case ..
      have ih: "mask_groups callback ?r (add_pairs out kept) st1 = (case mask_values callback ?r st1 of
          (Inl e, st) \<Rightarrow> (Inl e, st) | (Inr kept', st) \<Rightarrow> (Inr (add_pairs (add_pairs out kept) kept'), st))"
        by (rule "1.IH" [OF Cons p [symmetric] gr [symmetric] refl])
      show ?thesis unfolding step ih split mask_values_append m Inr
        by (simp add: add_pairs_append split: prod.splits sum.splits)
    qed
  qed
qed

lemma mask_values_keys:
  "mask_values callback ps st = (Inr kept, st') \<Longrightarrow> p \<in> set kept \<Longrightarrow> fst p \<in> fst ` set ps"
proof (induction callback ps st arbitrary: kept rule: mask_values.induct)
  case (2 callback k v ps st)
  from "2.prems"(1) obtain masked keep st1 kept1 st2 where
    r: "callback st k v = (Inr (masked, keep), st1)" "mask_values callback ps st1 = (Inr kept1, st2)"
       "kept = (if keep then (k, masked) # kept1 else kept1)" "st2 = st'"
    by (auto split: prod.splits sum.splits)
  then show ?case using "2.IH" [OF r(1) [symmetric] refl refl, of kept1] "2.prems"(2)
    by (auto split: if_splits)
qed simp

lemma unescape_nonempty: "query_unescape key = Some k \<Longrightarrow> key \<noteq> [] \<Longrightarrow> k \<noteq> []"
  by (cases key) (auto split: if_splits list.splits option.splits)

lemma parse_pairs_keys: "parse_pairs raw = Some ps \<Longrightarrow> p \<in> set ps \<Longrightarrow> fst p \<noteq> []"
proof (induction raw arbitrary: ps rule: measure_induct_rule [of length])
  case (less raw)
  show ?case
  proof (cases "raw = []")
    case False
    obtain part rest f where c: "cut (CHR ''&'') raw = (part, rest, f)" by (cases "cut (CHR ''&'') raw")
    obtain key val g where d: "cut (CHR ''='') part = (key, val, g)" by (cases "cut (CHR ''='') part")
    have short: "length rest < length raw" by (rule cut_shorter [OF False c])
    from less.prems(1) consider "parse_pairs rest = Some ps"
      | k v ps' where "key \<noteq> []" "query_unescape key = Some k" "ps = (k, v) # ps'" "parse_pairs rest = Some ps'"
      by (auto simp: parse_pairs.simps [of raw] False c d split: if_splits option.splits)
    then show ?thesis
    proof cases
      case 1
      then show ?thesis using less.IH [OF short] less.prems(2) by blast
    next
      case 2
      then show ?thesis using less.IH [OF short, of ps'] less.prems(2) unescape_nonempty [of key k] by auto
    qed
  qed (use less.prems in \<open>simp add: parse_pairs.simps\<close>)
qed

lemma mask_query_spec:
  "case parse_pairs raw of
     None \<Rightarrow> mask_query callback raw st = (Inl InvalidQuery, st)
   | Some pairs \<Rightarrow> (case mask_values callback (sort_key fst pairs) st of
       (Inl e, st') \<Rightarrow> mask_query callback raw st = (Inl e, st')
     | (Inr kept, st') \<Rightarrow> \<exists>out. mask_query callback raw st = (Inr out, st') \<and> parse_pairs out = Some kept)"
proof (cases "parse_pairs raw")
  case (Some pairs)
  have m: "mask_query callback raw st = (case mask_values callback (sort_key fst pairs) st of
      (Inl e, st) \<Rightarrow> (Inl e, st) | (Inr kept, st) \<Rightarrow> (Inr (encode_query kept), st))"
    using Some by (auto simp: mask_query_def mask_groups_values add_pairs_def split: prod.splits sum.splits)
  have "parse_pairs (encode_query kept) = Some kept"
    if vs: "mask_values callback (sort_key fst pairs) st = (Inr kept, st')" for kept st'
  proof (rule parse_encode_query, rule ballI)
    fix p assume "p \<in> set kept"
    from mask_values_keys [OF vs this] obtain q where "q \<in> set pairs" "fst p = fst q" by auto
    then show "fst p \<noteq> []" using parse_pairs_keys [OF Some] by simp
  qed
  then show ?thesis by (auto simp: Some m split: prod.splits sum.splits)
qed (simp add: mask_query_def)

section \<open>Properties\<close>

text \<open>
  C27: \<open>Mask\<close> rejects malformed text before the callback sees anything; otherwise it
  runs the callback over the pairs in the order of their keys, stops at its first
  error, and returns a text that parses to exactly the pairs the callback kept, with
  their masked values.
\<close>

theorem mask_query_rewrites:
  "case parse_pairs raw of
     None \<Rightarrow> mask_query callback raw st = (Inl InvalidQuery, st)
   | Some pairs \<Rightarrow> (case mask_values callback (sort_key fst pairs) st of
       (Inl e, st') \<Rightarrow> mask_query callback raw st = (Inl e, st')
     | (Inr kept, st') \<Rightarrow> \<exists>out. mask_query callback raw st = (Inr out, st') \<and> parse_pairs out = Some kept)"
  by (rule mask_query_spec)

end
