(* ===== verification/Members.thy ===== *)
theory Members
  imports JsonEncode
begin

text \<open>
  The members of an object the streaming walker collects before it writes them
  (\<open>upsertStreamMember\<close>, \<open>removeStreamMember\<close> and \<open>sortStreamMembers\<close> in
  \<open>json_stream.go\<close>): a slice in the order of arrival, found by a scan while it is short
  and through a map of positions from 32 members on.  A member holds the range of its
  masked value in the scratch buffer.  The contract is that of a finite map, stated as
  the locale \<open>key_store\<close>: the last value of a key wins.  The code keeps it below 32
  distinct keys only: a key that arrives once the map of positions exists is appended
  without being entered into it, so a later value of that key is appended again.
\<close>

section \<open>The slice and its index\<close>

record stream_member =
  m_key :: bytes
  m_start :: nat
  m_end :: nat

type_synonym member_list = "stream_member list \<times> (bytes \<rightharpoonup> nat) option"

definition member_index_cutoff :: nat where
  "member_index_cutoff = 32"

fun member_position :: "stream_member list \<Rightarrow> bytes \<Rightarrow> nat option" where
  "member_position [] key = None"
| "member_position (m # ms) key = (if m_key m = key then Some 0 else map_option Suc (member_position ms key))"

text \<open>The positions of the members from \<open>first\<close> on, entered into a map.\<close>

fun enter_positions :: "stream_member list \<Rightarrow> nat \<Rightarrow> (bytes \<rightharpoonup> nat) \<Rightarrow> (bytes \<rightharpoonup> nat)" where
  "enter_positions [] first index = index"
| "enter_positions (m # ms) first index = enter_positions ms (Suc first) (index(m_key m \<mapsto> first))"

definition find_stream_member :: "bytes \<Rightarrow> member_list \<Rightarrow> nat option" where
  "find_stream_member key ms = (case snd ms of
       Some index \<Rightarrow> index key
     | None \<Rightarrow> member_position (fst ms) key)"

definition upsert_stream_member :: "bytes \<Rightarrow> nat \<times> nat \<Rightarrow> member_list \<Rightarrow> member_list" where
  "upsert_stream_member key r ms = (case find_stream_member key ms of
       Some i \<Rightarrow> ((fst ms)[i := (fst ms ! i)\<lparr>m_start := fst r, m_end := snd r\<rparr>], snd ms)
     | None \<Rightarrow> (let members = fst ms @ [\<lparr>m_key = key, m_start = fst r, m_end = snd r\<rparr>] in
         (members, if snd ms = None \<and> member_index_cutoff \<le> length members
           then Some (enter_positions members 0 Map.empty) else snd ms)))"

definition remove_stream_member :: "bytes \<Rightarrow> member_list \<Rightarrow> member_list" where
  "remove_stream_member key ms = (case find_stream_member key ms of
       None \<Rightarrow> ms
     | Some i \<Rightarrow> (let members = take i (fst ms) @ drop (Suc i) (fst ms) in
         (members, map_option (\<lambda>index. enter_positions (drop i members) i (index(key := None))) (snd ms))))"

definition no_members :: member_list where
  "no_members = ([], None)"

section \<open>The contract\<close>

locale key_store =
  fixes bound :: nat and ok :: "'s \<Rightarrow> bool" and get :: "'s \<Rightarrow> bytes \<rightharpoonup> 'v"
    and put :: "bytes \<Rightarrow> 'v \<Rightarrow> 's \<Rightarrow> 's" and del :: "bytes \<Rightarrow> 's \<Rightarrow> 's" and empty :: 's
  assumes empty_ok: "ok empty" and get_empty: "get empty = Map.empty"
    and put_ok: "ok s \<Longrightarrow> card (insert k (dom (get s))) < bound \<Longrightarrow> ok (put k v s)"
    and get_put: "ok s \<Longrightarrow> get (put k v s) = (get s)(k \<mapsto> v)"
    and del_ok: "ok s \<Longrightarrow> ok (del k s)" and get_del: "ok s \<Longrightarrow> get (del k s) = (get s)(k := None)"
begin

definition step :: "'s \<Rightarrow> bytes \<times> 'v option \<Rightarrow> 's" where
  "step s x = (case snd x of None \<Rightarrow> del (fst x) s | Some v \<Rightarrow> put (fst x) v s)"

lemma get_step: "ok s \<Longrightarrow> get (step s x) = (get s)(fst x := snd x)"
  by (simp add: step_def get_put get_del split: option.splits)

lemma step_ok: "ok s \<Longrightarrow> card (insert (fst x) (dom (get s))) < bound \<Longrightarrow> ok (step s x)"
  by (simp add: step_def put_ok del_ok split: option.splits)

text \<open>A run over fewer keys than the bound keeps the store in order.\<close>

lemma get_run:
  assumes "ok s" and "dom (get s) \<subseteq> K" and "fst ` set xs \<subseteq> K" and "finite K" and "card K < bound"
  shows "get (foldl step s xs) k = (case map_of (rev xs) k of Some v \<Rightarrow> v | None \<Rightarrow> get s k)"
  using assms
proof (induction xs arbitrary: s)
  case (Cons x xs)
  have sub: "insert (fst x) (dom (get s)) \<subseteq> K" using Cons.prems by auto
  have "ok (step s x)"
    using step_ok [OF Cons.prems(1), of x] card_mono [OF Cons.prems(4) sub] Cons.prems(5) by linarith
  moreover have "dom (get (step s x)) \<subseteq> K"
    using sub by (auto simp: get_step [OF Cons.prems(1)] dom_def split: if_splits)
  ultimately have "get (foldl step s (x # xs)) k = (case map_of (rev xs) k of Some v \<Rightarrow> v | None \<Rightarrow> get (step s x) k)"
    using Cons by simp
  then show ?case using Cons.prems(1)
    by (cases x) (auto simp: get_step map_add_def split: option.splits)
qed simp

text \<open>The last word on a key wins.\<close>

lemma last_wins:
  assumes "card (fst ` set xs) < bound"
  shows "get (foldl step empty xs) k = (case map_of (rev xs) k of Some v \<Rightarrow> v | None \<Rightarrow> None)"
  using get_run [OF empty_ok, of "fst ` set xs" xs] assms by (simp add: get_empty cong: option.case_cong)

end

section \<open>Positions\<close>

definition members_get :: "member_list \<Rightarrow> bytes \<rightharpoonup> nat \<times> nat" where
  "members_get ms = map_of (map (\<lambda>m. (m_key m, m_start m, m_end m)) (fst ms))"

lemma member_position_None: "member_position ms key = None \<longleftrightarrow> key \<notin> m_key ` set ms"
  by (induction ms) auto

lemma member_position_Some: "member_position ms key = Some i \<Longrightarrow> i < length ms \<and> m_key (ms ! i) = key"
  by (induction ms arbitrary: i) (auto split: if_splits)

text \<open>Where a key was found first, the list splits around its member.\<close>

lemma member_split:
  assumes "member_position ms key = Some i"
  obtains xs m ys where "ms = xs @ m # ys" and "length xs = i" and "m_key m = key"
proof -
  have i: "i < length ms" "m_key (ms ! i) = key" using member_position_Some [OF assms] by auto
  show thesis by (rule that [OF id_take_nth_drop [OF i(1)]]) (use i in auto)
qed

text \<open>
  The map of positions never points outside the slice or at another key, so indexing the
  slice with it cannot panic.
\<close>

definition index_sound :: "member_list \<Rightarrow> bool" where
  "index_sound ms \<longleftrightarrow> (case snd ms of
       None \<Rightarrow> True
     | Some index \<Rightarrow> \<forall>key i. index key = Some i \<longrightarrow> i < length (fst ms) \<and> m_key (fst ms ! i) = key)"

lemma find_stream_member_sound:
  "index_sound ms \<Longrightarrow> find_stream_member key ms = Some i \<Longrightarrow> i < length (fst ms) \<and> m_key (fst ms ! i) = key"
  by (auto simp: index_sound_def find_stream_member_def member_position_Some split: option.splits)

lemma enter_positions_sound:
  assumes "enter_positions ms first index key = Some i"
  shows "(first \<le> i \<and> i < first + length ms \<and> m_key (ms ! (i - first)) = key) \<or> (index key = Some i \<and> key \<notin> m_key ` set ms)"
  using assms
proof (induction ms arbitrary: first index)
  case (Cons m ms)
  have "enter_positions ms (Suc first) (index(m_key m \<mapsto> first)) key = Some i" using Cons.prems by simp
  from Cons.IH [OF this] show ?case
  proof
    assume "Suc first \<le> i \<and> i < Suc first + length ms \<and> m_key (ms ! (i - Suc first)) = key"
    then show ?thesis by (auto simp: nth_Cons' Suc_diff_Suc)
  next
    assume "(index(m_key m \<mapsto> first)) key = Some i \<and> key \<notin> m_key ` set ms"
    then show ?thesis by (cases "m_key m = key") auto
  qed
qed simp

lemma upsert_sound:
  assumes "index_sound ms"
  shows "index_sound (upsert_stream_member key r ms)"
proof (cases "find_stream_member key ms")
  case None
  let ?members = "fst ms @ [\<lparr>m_key = key, m_start = fst r, m_end = snd r\<rparr>]"
  have "i < length ?members \<and> m_key (?members ! i) = k"
    if "enter_positions ?members 0 Map.empty k = Some i" for k i
    using enter_positions_sound [OF that] by auto
  moreover have "i < length ?members \<and> m_key (?members ! i) = k" if "snd ms = Some index" "index k = Some i" for index k i
    using assms that by (auto simp: index_sound_def nth_append less_Suc_eq)
  ultimately show ?thesis
    by (simp add: upsert_stream_member_def None Let_def index_sound_def split: option.splits if_splits)
next
  case (Some i)
  then have "i < length (fst ms) \<and> m_key (fst ms ! i) = key" by (rule find_stream_member_sound [OF assms])
  then show ?thesis using assms
    by (auto simp: upsert_stream_member_def Some index_sound_def nth_list_update split: option.splits)
qed

lemma remove_sound:
  assumes "index_sound ms"
  shows "index_sound (remove_stream_member key ms)"
proof (cases "find_stream_member key ms")
  case None
  then show ?thesis using assms by (simp add: remove_stream_member_def)
next
  case (Some i)
  then have i: "i < length (fst ms)" "m_key (fst ms ! i) = key" using find_stream_member_sound [OF assms] by auto
  let ?members = "take i (fst ms) @ drop (Suc i) (fst ms)"
  have "j < length ?members \<and> m_key (?members ! j) = k"
    if index: "snd ms = Some index" and j: "enter_positions (drop i ?members) i (index(key := None)) k = Some j" for index k j
    using enter_positions_sound [OF j]
  proof
    assume "i \<le> j \<and> j < i + length (drop i ?members) \<and> m_key (drop i ?members ! (j - i)) = k"
    then show ?thesis using i(1) by (auto simp: nth_append)
  next
    assume k: "(index(key := None)) k = Some j \<and> k \<notin> m_key ` set (drop i ?members)"
    then have ne: "k \<noteq> key" and jj: "index k = Some j" by (auto split: if_splits)
    then have j: "j < length (fst ms)" "m_key (fst ms ! j) = k" using assms index by (auto simp: index_sound_def)
    have "\<not> i < j"
    proof
      assume "i < j"
      then have "drop (Suc i) (fst ms) ! (j - Suc i) = fst ms ! j" "j - Suc i < length (drop (Suc i) (fst ms))"
        using j(1) by auto
      then have "fst ms ! j \<in> set (drop (Suc i) (fst ms))" by (metis nth_mem)
      then show False using k j(2) i(1) by auto
    qed
    moreover have "j \<noteq> i" using ne i(2) j(2) by auto
    ultimately show ?thesis using i(1) j by (auto simp: nth_append)
  qed
  then show ?thesis
    by (auto simp: remove_stream_member_def Some Let_def index_sound_def split: option.splits)
qed

text \<open>What holds of every range put in holds of every member.\<close>

lemma upsert_all:
  assumes "\<forall>m \<in> set (fst ms). P (m_start m) (m_end m)" and "P (fst r) (snd r)"
  shows "\<forall>m \<in> set (fst (upsert_stream_member key r ms)). P (m_start m) (m_end m)"
  using assms set_update_subset_insert
  by (fastforce simp: upsert_stream_member_def Let_def split: option.splits)

lemma remove_all:
  "\<forall>m \<in> set (fst ms). P m \<Longrightarrow> \<forall>m \<in> set (fst (remove_stream_member key ms)). P m"
  by (auto simp: remove_stream_member_def Let_def split: option.splits dest: in_set_takeD in_set_dropD)

section \<open>Below the cutoff the slice is a map\<close>

definition members_ok :: "member_list \<Rightarrow> bool" where
  "members_ok ms \<longleftrightarrow> snd ms = None \<and> distinct (map m_key (fst ms)) \<and> length (fst ms) < member_index_cutoff"

lemma members_get_dom: "dom (members_get ms) = m_key ` set (fst ms)"
  by (auto simp: members_get_def dom_map_of_conv_image_fst image_iff)

lemma members_card: "members_ok ms \<Longrightarrow> card (dom (members_get ms)) = length (fst ms)"
  unfolding members_get_dom by (metis distinct_card length_map members_ok_def set_map)

lemma map_of_replace:
  "distinct (map m_key (xs @ m # ys)) \<Longrightarrow> members_get (xs @ m\<lparr>m_start := a, m_end := b\<rparr> # ys, i)
     = (members_get (xs @ m # ys, i))(m_key m \<mapsto> (a, b))"
  by (auto simp: members_get_def map_add_def fun_eq_iff map_of_eq_None_iff image_iff split: option.splits
      dest: map_of_SomeD)

lemma map_of_remove:
  "distinct (map m_key (xs @ m # ys)) \<Longrightarrow> members_get (xs @ ys, i) = (members_get (xs @ m # ys, i))(m_key m := None)"
  by (auto simp: members_get_def map_add_def fun_eq_iff map_of_eq_None_iff image_iff split: option.splits
      dest: map_of_SomeD)

lemma position_in_split:
  "distinct (map m_key (xs @ m # ys)) \<Longrightarrow> member_position (xs @ m # ys) (m_key m) = Some (length xs)"
  by (induction xs) auto

lemma members_split:
  assumes "members_ok ms"
  obtains (new) "find_stream_member key ms = None" and "key \<notin> m_key ` set (fst ms)"
    | (found) xs m ys where "ms = (xs @ m # ys, None)" and "find_stream_member key ms = Some (length xs)"
        and "m_key m = key" and "distinct (map m_key (xs @ m # ys))"
proof (cases "member_position (fst ms) key")
  case None
  then show thesis using assms
    by (intro new) (simp_all add: find_stream_member_def members_ok_def member_position_None)
next
  case (Some i)
  obtain xs m ys where split: "fst ms = xs @ m # ys" "length xs = i" "m_key m = key"
    using member_split [OF Some] .
  show thesis
    by (rule found [of xs m ys])
       (use assms split Some in \<open>auto simp: find_stream_member_def members_ok_def intro: prod_eqI\<close>)
qed

lemma upsert_get:
  assumes "members_ok ms"
  shows "members_get (upsert_stream_member key r ms) = (members_get ms)(key \<mapsto> r)"
proof (cases rule: members_split [OF assms, of key])
  case 1
  have "map_of (map (\<lambda>m. (m_key m, m_start m, m_end m)) (fst ms)) key = None"
    using 1(2) by (force simp: map_of_eq_None_iff image_iff)
  then show ?thesis
    by (auto simp: 1 upsert_stream_member_def Let_def members_get_def fun_eq_iff map_add_def split: option.splits)
next
  case (2 xs m ys)
  have "upsert_stream_member key r ms = (xs @ m\<lparr>m_start := fst r, m_end := snd r\<rparr> # ys, None)"
    using 2 by (simp add: upsert_stream_member_def)
  then show ?thesis using map_of_replace [OF 2(4), of "snd r" "fst r" None] 2 by simp
qed

lemma remove_get:
  assumes "members_ok ms"
  shows "members_get (remove_stream_member key ms) = (members_get ms)(key := None)"
proof (cases rule: members_split [OF assms, of key])
  case 1
  then have "key \<notin> dom (members_get ms)" by (simp add: members_get_dom)
  then show ?thesis by (auto simp: remove_stream_member_def 1(1))
next
  case (2 xs m ys)
  then show ?thesis using map_of_remove [OF 2(4), of None] by (simp add: remove_stream_member_def)
qed

lemma remove_ok:
  assumes "members_ok ms"
  shows "members_ok (remove_stream_member key ms)"
proof (cases rule: members_split [OF assms, of key])
  case 1
  then show ?thesis using assms by (simp add: remove_stream_member_def)
next
  case (2 xs m ys)
  then show ?thesis using assms by (simp add: remove_stream_member_def members_ok_def)
qed

lemma upsert_ok:
  assumes "members_ok ms" and "card (insert key (dom (members_get ms))) < member_index_cutoff"
  shows "members_ok (upsert_stream_member key r ms)"
proof (cases rule: members_split [OF assms(1), of key])
  case 1
  then have "card (insert key (dom (members_get ms))) = Suc (length (fst ms))"
    using members_card [OF assms(1)] by (simp add: members_get_dom)
  then show ?thesis using assms 1 by (simp add: upsert_stream_member_def Let_def members_ok_def)
next
  case (2 xs m ys)
  then show ?thesis using assms(1) by (simp add: upsert_stream_member_def members_ok_def)
qed

interpretation members: key_store member_index_cutoff members_ok members_get upsert_stream_member remove_stream_member no_members
proof
  show "members_ok no_members" by (simp add: members_ok_def no_members_def member_index_cutoff_def)
  show "members_get no_members = Map.empty" by (simp add: members_get_def no_members_def)
qed (fact upsert_ok upsert_get remove_ok remove_get)+

section \<open>Properties\<close>

text \<open>The members of an object after a sequence of values (or omissions) of keys.\<close>

definition collect_members :: "(bytes \<times> (nat \<times> nat) option) list \<Rightarrow> member_list" where
  "collect_members xs = foldl (\<lambda>ms x. case snd x of
       None \<Rightarrow> remove_stream_member (fst x) ms
     | Some r \<Rightarrow> upsert_stream_member (fst x) r ms) no_members xs"

lemma collect_members_sound: "index_sound (collect_members xs)"
proof -
  have "index_sound ms \<Longrightarrow> index_sound (foldl (\<lambda>ms x. case snd x of
       None \<Rightarrow> remove_stream_member (fst x) ms
     | Some r \<Rightarrow> upsert_stream_member (fst x) r ms) ms xs)" for ms
    by (induction xs arbitrary: ms) (auto simp: upsert_sound remove_sound split: option.split)
  then show ?thesis by (simp add: collect_members_def no_members_def index_sound_def)
qed

text \<open>
  C29: In an object with fewer than 32 different keys the last value of a key wins: the
  members are those of a finite map, updated in the order of the text, whatever keys
  are repeated or omitted.
\<close>

theorem members_last_wins:
  assumes "card (fst ` set xs) < 32"
  shows "members_get (collect_members xs) key = (case map_of (rev xs) key of Some v \<Rightarrow> v | None \<Rightarrow> None)"
  using members.last_wins [of xs key] assms
  by (simp add: member_index_cutoff_def collect_members_def members.step_def [abs_def])

theorem members_last_wins_witness:
  "members_get (collect_members [(''a'', Some (0, 1)), (''b'', Some (1, 2)), (''a'', Some (2, 3))]) ''a'' = Some (2, 3)"
  using members_last_wins [of "[(''a'', Some (0, 1)), (''b'', Some (1, 2)), (''a'', Some (2, 3))]" "''a''"]
  by (simp add: card_insert_if)











text \<open>
  The map of positions never points outside the slice of members or at a member of
  another key, however keys are repeated and omitted.
\<close>

theorem member_index_never_out_of_range: "index_sound (collect_members xs)"
  by (rule collect_members_sound)

end
