(* ===== verification/Inspect.thy ===== *)
theory Inspect
  imports "HOL-Library.Multiset" "HOL-Library.Product_Lexorder" Masker UrlQuery JsonLex Members
begin

text \<open>
  Documents and secrets inside strings (\<open>embedded.go\<close> and \<open>text.go\<close>): a string may be a
  URL, a JSON document, a form or free text.  What a string is nested in is passed in:
  \<open>nested\<close> inspects a string one level deeper, \<open>inner\<close> runs the streaming walker over a
  document; theory \<open>Stream\<close> closes the recursion.  \<open>net/url\<close> parsing and printing and
  the order \<open>slices.SortFunc\<close> gives to elements that compare equal are parameters.
\<close>

section \<open>The library\<close>

record go_url =
  url_scheme :: bytes
  url_opaque :: bytes
  url_user :: "(bytes \<times> bytes option) option"
  url_host :: bytes
  url_path :: bytes
  url_raw_path :: bytes
  url_omit_host :: bool
  url_force_query :: bool
  url_raw_query :: bytes
  url_fragment :: bytes
  url_raw_fragment :: bytes

definition zero_url :: go_url where
  "zero_url = \<lparr>url_scheme = [], url_opaque = [], url_user = None, url_host = [], url_path = [], url_raw_path = [],
     url_omit_host = False, url_force_query = False, url_raw_query = [], url_fragment = [], url_raw_fragment = []\<rparr>"

record text_edit =
  te_start :: nat
  te_end :: nat
  te_text :: bytes

record golib =
  tables :: unicode_tables
  parse_url :: "bytes \<Rightarrow> go_url option"
  url_string :: "go_url \<Rightarrow> bytes"
  escaped_path :: "go_url \<Rightarrow> bytes"
  sort_text_edits :: "text_edit list \<Rightarrow> text_edit list"
  sort_members :: "stream_member list \<Rightarrow> stream_member list"

definition edit_order :: "text_edit \<Rightarrow> int \<times> int" where
  "edit_order e = (int (te_start e), - int (te_end e))"

text \<open>What \<open>slices.SortFunc\<close> documents: a rearrangement in ascending order.\<close>

definition sorts_by :: "('a \<Rightarrow> 'k::linorder) \<Rightarrow> ('a list \<Rightarrow> 'a list) \<Rightarrow> bool" where
  "sorts_by key f \<longleftrightarrow> (\<forall>xs. mset (f xs) = mset xs \<and> sorted (map key (f xs)))"

definition sorts_ok :: "golib \<Rightarrow> bool" where
  "sorts_ok L \<longleftrightarrow> sorts_by edit_order (sort_text_edits L) \<and> sorts_by m_key (sort_members L)"

text \<open>A library for examples: it parses no URL, and its sorts are stable.\<close>

definition plain_library :: golib where
  "plain_library = \<lparr>tables = ascii_only_tables, parse_url = (\<lambda>_. None), url_string = (\<lambda>_. []), escaped_path = (\<lambda>_. []),
     sort_text_edits = sort_key edit_order, sort_members = sort_key m_key\<rparr>"

lemma plain_library_sorts: "sorts_ok plain_library"
  by (simp add: sorts_ok_def sorts_by_def plain_library_def)

section \<open>The state of an inspection\<close>

record inspect_state =
  st_nodes :: int
  st_errs :: "mask_error list"
  st_stop :: bool

definition add_field_error ::
    "golib \<Rightarrow> error_code \<Rightarrow> field \<Rightarrow> int \<Rightarrow> mask_error list \<Rightarrow> mask_error list" where
  "add_field_error L code f depth errs =
     (if max_mask_errors \<le> length errs then errs else add_mask_error errs (new_field_error (tables L) code f depth))"

definition add_rule_error ::
    "golib \<Rightarrow> error_code \<Rightarrow> field \<Rightarrow> rule \<Rightarrow> mask_error list \<Rightarrow> mask_error list" where
  "add_rule_error L code f r errs =
     (if max_mask_errors \<le> length errs then errs else add_mask_error errs (rule_field_error (tables L) code f r))"

definition limit_code :: "error_code \<Rightarrow> bool" where
  "limit_code code \<longleftrightarrow> code = CodeDepthLimit \<or> code = CodeNodeLimit"

definition fail_inspect :: "golib \<Rightarrow> error_code \<Rightarrow> field \<Rightarrow> int \<Rightarrow> inspect_state \<Rightarrow> inspect_state" where
  "fail_inspect L code f depth st =
     (if limit_code code then
        (if st_stop st then st
         else st\<lparr>st_stop := True,
                 st_errs := add_priority_mask_error (st_errs st) (new_field_error (tables L) code f depth)\<rparr>)
      else st\<lparr>st_errs := add_field_error L code f depth (st_errs st)\<rparr>)"

text \<open>\<open>decideMember\<close>: the new value, whether the policy decided, and whether the member stays.\<close>

definition decide_member ::
    "golib \<Rightarrow> masker \<Rightarrow> field \<Rightarrow> bytes \<Rightarrow> int \<Rightarrow> inspect_state \<Rightarrow> (bytes \<times> bool \<times> bool) \<times> inspect_state" where
  "decide_member L m member val depth st =
     (if st_stop st then ((marker (m_cfg m), True, True), st)
      else if \<not> valid_utf8 (f_key member) then
        ((marker (m_cfg m), True, True), fail_inspect L CodeInvalidUTF8 member (depth + 1) st)
      else if max_depth (m_cfg m) < depth + 1 then
        ((marker (m_cfg m), True, True), fail_inspect L CodeDepthLimit member (depth + 1) st)
      else (let st = st\<lparr>st_nodes := st_nodes st + 1\<rparr> in
        if max_nodes (m_cfg m) < st_nodes st then
          ((marker (m_cfg m), True, True), fail_inspect L CodeNodeLimit member (depth + 1) st)
        else case call_policy (tables L) (m_policy m) member of
          Inl e \<Rightarrow> ((marker (m_cfg m), True, True),
            st\<lparr>st_errs := add_field_error L (callback_code CodePolicyFailure e) member 0 (st_errs st)\<rparr>)
        | Inr d \<Rightarrow>
            if dec_omit d then (([], True, False), st)
            else if is_nil_rule (dec_rule d) then ((val, False, True), st)
            else (case apply_rule (tables L) (dec_rule d)
                \<lparr>ri_value = val, ri_kind = KindString, ri_redaction = marker (m_cfg m)\<rparr> of
              Inl e \<Rightarrow> ((marker (m_cfg m), True, True),
                st\<lparr>st_errs := add_rule_error L (callback_code CodeRuleFailure e) member (dec_rule d) (st_errs st)\<rparr>)
            | Inr result \<Rightarrow> ((result, True, True), st))))"

section \<open>Free text\<close>

definition text_member :: "bytes \<Rightarrow> field \<Rightarrow> pair \<Rightarrow> field" where
  "text_member s f p = (let key = slice s (key_start p) (key_end p) in
     \<lparr>f_key = key, f_path = path_for (f_path f) key, f_source = SourceText, f_kind = KindString\<rparr>)"

text \<open>The loop over the pairs; \<open>None\<close> when the operation stopped.\<close>

fun pair_edits ::
    "golib \<Rightarrow> masker \<Rightarrow> bytes \<Rightarrow> field \<Rightarrow> int \<Rightarrow> pair list \<Rightarrow> inspect_state \<Rightarrow> text_edit list option \<times> inspect_state" where
  "pair_edits L m s f depth [] st = (Some [], st)"
| "pair_edits L m s f depth (p # ps) st =
     (case decide_member L m (text_member s f p) (slice s (value_start p) (value_end p)) depth st of
        ((masked, decided, keep), st) \<Rightarrow>
          if st_stop st then (None, st)
          else if \<not> decided then pair_edits L m s f depth ps st
          else (case pair_edits L m s f depth ps st of
              (edits, st) \<Rightarrow> (map_option ((#) \<lparr>te_start = value_start p, te_end = value_end p,
                te_text = (if keep then masked else marker (m_cfg m))\<rparr>) edits, st)))"

definition span_edit :: "masker \<Rightarrow> bytes \<Rightarrow> span \<Rightarrow> text_edit" where
  "span_edit m s sp = \<lparr>te_start = span_start sp, te_end = span_end sp,
     te_text = (if span_kind sp = KindCard
       then mask_last_four_digits \<lparr>ri_value = slice s (span_start sp) (span_end sp), ri_kind = KindString,
              ri_redaction = marker (m_cfg m)\<rparr>
       else marker (m_cfg m))\<rparr>"

text \<open>
  Copying the text with its edits: \<open>prev\<close> ends the last kept edit, \<open>written\<close> the text
  copied so far; whether anything changed is the second result.
\<close>

fun write_edits :: "bytes \<Rightarrow> nat \<Rightarrow> nat \<Rightarrow> text_edit list \<Rightarrow> bytes \<times> bool" where
  "write_edits s prev written [] = (drop written s, False)"
| "write_edits s prev written (e # edits) =
     (if te_start e < prev then write_edits s prev written edits
      else if te_text e = slice s (te_start e) (te_end e) then write_edits s (te_end e) written edits
      else (slice s written (te_start e) @ te_text e @ fst (write_edits s (te_end e) (te_end e) edits), True))"

definition inspect_text ::
    "golib \<Rightarrow> masker \<Rightarrow> bytes \<Rightarrow> field \<Rightarrow> int \<Rightarrow> inspect_state \<Rightarrow> (bytes \<times> bool) \<times> inspect_state" where
  "inspect_text L m s f depth st = (case find_secrets s (cfg_detect_set (m_cfg m)) of
     (spans, pairs) \<Rightarrow>
       if spans = [] \<and> pairs = [] then ((s, False), st)
       else (case pair_edits L m s f depth pairs st of
           (None, st) \<Rightarrow> ((marker (m_cfg m), True), st)
         | (Some edits, st) \<Rightarrow>
             (case write_edits s 0 0 (sort_text_edits L (edits @ map (span_edit m s) spans)) of
                (out, changed) \<Rightarrow> (if changed then (out, True) else (s, False), st))))"

section \<open>Candidates\<close>

definition embedded_candidate :: "bytes \<Rightarrow> bool" where
  "embedded_candidate s = (case dropWhile json_space s of
       [] \<Rightarrow> False
     | c # _ \<Rightarrow> c = CHR ''{'' \<or> c = CHR ''['' \<or> contains s ''://'' \<or> CHR ''='' \<in> set s)"

definition inspectable :: "masker \<Rightarrow> bytes \<Rightarrow> bool" where
  "inspectable m s \<longleftrightarrow> embedded (m_cfg m) \<and> embedded_candidate s
     \<or> text_detectors (m_cfg m) \<and> candidate s (cfg_detect_set (m_cfg m))"

definition inspectable_token :: "masker \<Rightarrow> bytes \<Rightarrow> bool" where
  "inspectable_token m token =
     (if \<not> embedded (m_cfg m) \<and> \<not> text_detectors (m_cfg m) \<or> length token < 2 then False
      else if backslash \<in> set token then
        (case stream_json_string_text token of None \<Rightarrow> False | Some decoded \<Rightarrow> inspectable m decoded)
      else inspectable m (slice token 1 (length token - 1)))"

section \<open>Forms\<close>

definition ascii_letter :: "char \<Rightarrow> bool" where
  "ascii_letter c \<longleftrightarrow> within CHR ''a'' CHR ''z'' c \<or> within CHR ''A'' CHR ''Z'' c"

definition form_key :: "bytes \<Rightarrow> bool" where
  "form_key key = list_all (\<lambda>c. ascii_letter c \<or> within CHR ''0'' CHR ''9'' c \<or> c \<in> set ''_-.[]%+~*'') key"

function form_parts_ok :: "bytes \<Rightarrow> bool" where
  "form_parts_ok remaining =
     (if remaining = [] then True
      else case cut (CHR ''&'') remaining of
        (part, remaining', _) \<Rightarrow>
          if part = [] then False
          else (case cut (CHR ''='') part of
            (key, val, found) \<Rightarrow>
              if \<not> found \<or> key = [] \<or> \<not> form_key key \<or> CHR ''='' \<in> set val then False
              else if query_unescape key = None then False
              else if query_unescape val = None then False
              else form_parts_ok remaining'))"
  by pat_completeness auto
termination
  by (relation "measure length") (auto dest: cut_shorter [OF _ sym])

declare form_parts_ok.simps [simp del]

definition control_or_space :: "char \<Rightarrow> bool" where
  "control_or_space c \<longleftrightarrow> byte c \<le> 32 \<or> byte c = 127"

definition strict_form_text :: "bytes \<Rightarrow> bool" where
  "strict_form_text s =
     (if list_ex (\<lambda>c. control_or_space c \<or> c = CHR '';'') s then False else form_parts_ok s)"

text \<open>The callback of \<open>maskQueryValues\<close>; its state is that of the inspection and \<open>changed\<close>.\<close>

type_synonym string_inspector = "bytes \<Rightarrow> field \<Rightarrow> inspect_state \<Rightarrow> (bytes \<times> bool) \<times> inspect_state"

definition query_member :: "field \<Rightarrow> bytes \<Rightarrow> field" where
  "query_member f key =
     \<lparr>f_key = key, f_path = path_for (f_path f) key, f_source = SourceURLQuery, f_kind = KindString\<rparr>"

definition mask_pair ::
    "golib \<Rightarrow> masker \<Rightarrow> string_inspector \<Rightarrow> field \<Rightarrow> int \<Rightarrow> (inspect_state \<times> bool, unit) pair_mask" where
  "mask_pair L m nested f depth = (\<lambda>(st, changed) key val.
     case decide_member L m (query_member f key) val depth st of
       ((masked, decided, keep), st) \<Rightarrow>
         if st_stop st then (Inl (), (st, changed))
         else if decided then (Inr (masked, keep), (st, changed \<or> \<not> keep \<or> masked \<noteq> val))
         else (case nested val (query_member f key) st of
             ((inside, nestedChanged), st) \<Rightarrow>
               if nestedChanged then (Inr (inside, True), (st, True))
               else (Inr (val, True), (st, changed))))"

definition mask_query_values ::
    "golib \<Rightarrow> masker \<Rightarrow> string_inspector \<Rightarrow> bytes \<Rightarrow> field \<Rightarrow> int \<Rightarrow> inspect_state \<Rightarrow> bool
      \<Rightarrow> (unit query_error + bytes) \<times> inspect_state \<times> bool" where
  "mask_query_values L m nested raw f depth st changed = mask_query (mask_pair L m nested f depth) raw (st, changed)"

text \<open>A result \<open>None\<close> is \<open>ok = false\<close>: the string is not such a document.\<close>

definition inspect_form ::
    "golib \<Rightarrow> masker \<Rightarrow> string_inspector \<Rightarrow> bytes \<Rightarrow> field \<Rightarrow> int \<Rightarrow> inspect_state \<Rightarrow> (bytes \<times> bool) option \<times> inspect_state" where
  "inspect_form L m nested s f depth st =
     (if CHR ''='' \<notin> set s \<or> \<not> strict_form_text s then (None, st)
      else case mask_query_values L m nested s f depth st False of
        (Inl _, st, _) \<Rightarrow> (Some (marker (m_cfg m), True), st)
      | (Inr query, st, changed) \<Rightarrow> (Some (if changed then (query, True) else (s, False)), st))"

section \<open>URLs\<close>

definition embedded_scheme_end :: "bytes \<Rightarrow> nat option" where
  "embedded_scheme_end s =
     (if s = [] \<or> \<not> ascii_letter (s ! 0) then None
      else (let index = advance (\<lambda>i. ascii_letter (s ! i) \<or> within CHR ''0'' CHR ''9'' (s ! i)
              \<or> s ! i = CHR ''+'' \<or> s ! i = CHR ''-'' \<or> s ! i = CHR ''.'') (length s) 1 in
        if index + 2 < length s \<and> s ! index = CHR '':'' \<and> s ! (index + 1) = CHR ''/'' \<and> s ! (index + 2) = CHR ''/''
        then Some index else None))"

text \<open>Userinfo and fragment become the marker whatever the policy says.\<close>

definition mask_url_parts :: "bytes \<Rightarrow> go_url \<Rightarrow> go_url \<times> bool" where
  "mask_url_parts mark url =
     ((let url = (if url_user url = None then url else url\<lparr>url_user := Some (mark, None)\<rparr>) in
       if url_fragment url = [] then url else url\<lparr>url_fragment := mark, url_raw_fragment := []\<rparr>),
      url_user url \<noteq> None \<or> url_fragment url \<noteq> [])"

definition inspect_url_path ::
    "golib \<Rightarrow> masker \<Rightarrow> go_url \<Rightarrow> field \<Rightarrow> int \<Rightarrow> inspect_state \<Rightarrow> (bytes \<times> bool) \<times> inspect_state" where
  "inspect_url_path L m parsed f depth st =
     (if text_detectors (m_cfg m) \<and> candidate (escaped_path L parsed) (cfg_detect_set (m_cfg m))
      then inspect_text L m (escaped_path L parsed) f depth st
      else (([], False), st))"

definition print_url :: "golib \<Rightarrow> go_url \<Rightarrow> bytes \<times> bool \<Rightarrow> bytes" where
  "print_url L result path =
     (if \<not> snd path then url_string L result
      else url_string L (zero_url\<lparr>url_scheme := url_scheme result, url_user := url_user result, url_host := url_host result\<rparr>)
        @ fst path
        @ url_string L (zero_url\<lparr>url_raw_query := url_raw_query result, url_force_query := url_force_query result,
            url_fragment := url_fragment result, url_raw_fragment := url_raw_fragment result\<rparr>))"

definition inspect_url ::
    "golib \<Rightarrow> masker \<Rightarrow> string_inspector \<Rightarrow> bytes \<Rightarrow> field \<Rightarrow> int \<Rightarrow> inspect_state \<Rightarrow> (bytes \<times> bool) option \<times> inspect_state" where
  "inspect_url L m nested s f depth st =
     (if embedded_scheme_end s = None \<or> list_ex control_or_space s then (None, st)
      else case parse_url L s of
        None \<Rightarrow> (None, st)
      | Some parsed \<Rightarrow>
          if url_opaque parsed \<noteq> [] \<or> url_host parsed = [] then (None, st)
          else (case mask_url_parts (marker (m_cfg m)) parsed of (result, changed) \<Rightarrow>
            (case (if url_raw_query result = [] then (Inr [], st, changed)
                   else mask_query_values L m nested (url_raw_query result) f depth st changed) of
               (Inl _, st, _) \<Rightarrow> (Some (marker (m_cfg m), True), st)
             | (Inr query, st, changed) \<Rightarrow>
                 (let result = (if url_raw_query result = [] then result else result\<lparr>url_raw_query := query\<rparr>) in
                  case inspect_url_path L m parsed f depth st of ((path, pathChanged), st) \<Rightarrow>
                    if text_detectors (m_cfg m) \<and> candidate (escaped_path L parsed) (cfg_detect_set (m_cfg m)) \<and> st_stop st
                    then (Some (marker (m_cfg m), True), st)
                    else if \<not> changed \<and> \<not> pathChanged then (Some (s, False), st)
                    else (Some (print_url L result (path, pathChanged), True), st)))))"

section \<open>JSON documents\<close>

text \<open>
  \<open>inner data field nodes\<close> is the fresh walker run over the document: its output unless
  the document broke off, its state and the number of its changes.
\<close>

type_synonym document_walker = "bytes \<Rightarrow> field \<Rightarrow> int \<Rightarrow> bytes option \<times> inspect_state \<times> nat"

definition looks_like_json :: "bytes \<Rightarrow> bool" where
  "looks_like_json s = (let inside = filter (\<lambda>c. \<not> json_space c) s in
     inside \<noteq> [] \<and> (hd inside = CHR ''{'' \<and> List.last inside = CHR ''}''
       \<or> hd inside = CHR ''['' \<and> List.last inside = CHR '']''))"

definition merge_inner_error :: "mask_error list \<Rightarrow> mask_error \<Rightarrow> mask_error list" where
  "merge_inner_error errs e = (if limit_code (e_code e) then add_priority_mask_error errs e else add_mask_error errs e)"

definition inspect_json ::
    "golib \<Rightarrow> masker \<Rightarrow> document_walker \<Rightarrow> bytes \<Rightarrow> field \<Rightarrow> int \<Rightarrow> inspect_state \<Rightarrow> (bytes \<times> bool) option \<times> inspect_state" where
  "inspect_json L m inner s f depth st =
     (if \<not> looks_like_json s \<or> \<not> valid_json_document s then (None, st)
      else case inner s \<lparr>f_key = f_key f, f_path = f_path f, f_source = SourceJSON, f_kind = KindInvalid\<rparr> (st_nodes st) of
        (out, inside, changes) \<Rightarrow>
          (let st = \<lparr>st_nodes = st_nodes inside, st_errs = foldl merge_inner_error (st_errs st) (st_errs inside),
                     st_stop = (st_stop inside \<or> st_stop st)\<rparr> in
           case out of
             None \<Rightarrow> (Some (marker (m_cfg m), True), fail_inspect L CodeInvalidJSON f depth st)
           | Some out \<Rightarrow>
               if st_errs inside \<noteq> [] then (Some (marker (m_cfg m), True), st)
               else if changes = 0 then (Some (s, False), st)
               else (Some (out, True), st)))"

section \<open>Strings\<close>

text \<open>The stages of \<open>inspectString\<close>: the first that takes the string gives its result.\<close>

definition inspect_embedded ::
    "golib \<Rightarrow> masker \<Rightarrow> string_inspector \<Rightarrow> document_walker \<Rightarrow> bytes \<Rightarrow> field \<Rightarrow> int \<Rightarrow> inspect_state
      \<Rightarrow> (bytes \<times> bool) option \<times> inspect_state" where
  "inspect_embedded L m nested inner s f depth st = (case inspect_url L m nested s f depth st of
       (Some r, st) \<Rightarrow> (Some r, st)
     | (None, st) \<Rightarrow> (case inspect_json L m inner s f depth st of
           (Some r, st) \<Rightarrow> (Some r, st)
         | (None, st) \<Rightarrow> (case inspect_form L m nested s f depth st of
               (r, st) \<Rightarrow>
                 if r \<noteq> None \<and> (snd (the r) \<or> \<not> text_detectors (m_cfg m)) then (r, st)
                 else if st_stop st then (Some (marker (m_cfg m), True), st)
                 else (None, st))))"

definition inspect_string_at ::
    "golib \<Rightarrow> masker \<Rightarrow> string_inspector \<Rightarrow> document_walker \<Rightarrow> int \<Rightarrow> string_inspector" where
  "inspect_string_at L m nested inner depth s f st =
     (if st_stop st then ((marker (m_cfg m), True), st)
      else if max_input_bytes (m_cfg m) < int (length s) then
        ((marker (m_cfg m), True), st\<lparr>st_errs := add_field_error L CodeInputLimit f depth (st_errs st)\<rparr>)
      else case (if embedded (m_cfg m) then inspect_embedded L m nested inner s f depth st else (None, st)) of
        (Some r, st) \<Rightarrow> (r, st)
      | (None, st) \<Rightarrow>
          if text_detectors (m_cfg m) then inspect_text L m s f depth st
          else ((s, False), st))"

end
