(* ===== verification/Stream.thy ===== *)
theory Stream
  imports KeyCache Inspect
begin

text \<open>
  The streaming walker (\<open>json_stream.go\<close>): it masks a JSON text as it reads it and
  never builds a tree.  Each step is given by the steps one level deeper, \<open>child\<close> for a
  value and \<open>nested\<close> for a string found inside a string; \<open>append_value_fuel\<close> and
  \<open>inspect_string_fuel\<close> tie the knot over the levels that are left.  A level below the
  depth limit calls nothing deeper, so \<open>levels\<close> of them are enough, which is proved: the
  functions the other components call, \<open>append_value\<close> and \<open>inspect_string\<close>, satisfy the
  equations of the code without any bound.
\<close>

section \<open>The state of a walk\<close>

datatype path_part = KeyPart bytes | IndexPart nat

record stream_walker =
  w_ins :: inspect_state
  w_root :: bytes
  w_changes :: nat
  w_path :: "path_part list"
  w_keys :: key_cache

definition new_stream_walker :: "int \<Rightarrow> bytes \<Rightarrow> stream_walker" where
  "new_stream_walker nodes root =
     \<lparr>w_ins = \<lparr>st_nodes = nodes, st_errs = [], st_stop = False\<rparr>, w_root = root, w_changes = 0,
      w_path = [], w_keys = empty_key_cache\<rparr>"

definition add_part :: "bytes \<Rightarrow> path_part \<Rightarrow> bytes" where
  "add_part path part = (case part of KeyPart key \<Rightarrow> path_for path key | IndexPart index \<Rightarrow> path_for_index path index)"

definition current_path :: "stream_walker \<Rightarrow> bytes" where
  "current_path w = foldl add_part (if w_root w = [] then ''$'' else w_root w) (w_path w)"

definition push_part :: "path_part \<Rightarrow> stream_walker \<Rightarrow> stream_walker" where
  "push_part part w = w\<lparr>w_path := w_path w @ [part]\<rparr>"

definition pop_part :: "stream_walker \<Rightarrow> stream_walker" where
  "pop_part w = w\<lparr>w_path := butlast (w_path w)\<rparr>"

definition set_ins :: "inspect_state \<Rightarrow> stream_walker \<Rightarrow> stream_walker" where
  "set_ins st w = w\<lparr>w_ins := st\<rparr>"

definition count_change :: "stream_walker \<Rightarrow> stream_walker" where
  "count_change w = w\<lparr>w_changes := w_changes w + 1\<rparr>"

text \<open>A field without a path is located by the walker.\<close>

definition locate :: "stream_walker \<Rightarrow> field \<Rightarrow> field" where
  "locate w f = (if f_path f = [] then f\<lparr>f_path := current_path w\<rparr> else f)"

definition add_stream_error :: "mask_error \<Rightarrow> inspect_state \<Rightarrow> inspect_state" where
  "add_stream_error e st = st\<lparr>st_errs := add_unique (st_errs st) e\<rparr>"

text \<open>\<open>streamJSONWalker.fail\<close>\<close>

definition stream_fail :: "golib \<Rightarrow> error_code \<Rightarrow> field \<Rightarrow> int \<Rightarrow> stream_walker \<Rightarrow> stream_walker" where
  "stream_fail L code f depth w =
     (let w = count_change w; e = new_field_error (tables L) code (locate w f) depth; st = w_ins w in
      if limit_code code then
        (if st_stop st then w
         else set_ins (st\<lparr>st_stop := True, st_errs := add_priority_mask_error (st_errs st) e\<rparr>) w)
      else set_ins (add_stream_error e st) w)"

section \<open>Deciding a value\<close>

text \<open>
  \<open>streamJSONWalker.decide\<close>.  \<open>None\<close>: not handled.  \<open>Some (broken, omitted)\<close>: handled;
  \<open>broken\<close> is the end \<open>-1\<close> of a string that does not decode.
\<close>

definition decide_value ::
    "golib \<Rightarrow> masker \<Rightarrow> field \<Rightarrow> bytes \<Rightarrow> nat \<Rightarrow> nat \<Rightarrow> stream_walker \<Rightarrow> bytes
      \<Rightarrow> (bool \<times> bool) option \<times> stream_walker \<times> bytes" where
  "decide_value L m f data start scalarEnd w out = (case call_policy (tables L) (m_policy m) f of
       Inl e \<Rightarrow> (Some (False, False), stream_fail L (callback_code CodePolicyFailure e) f 0 w,
                 append_json_string out (marker (m_cfg m)))
     | Inr d \<Rightarrow>
         if dec_omit d then (Some (False, True), count_change w, out)
         else if is_nil_rule (dec_rule d) then (None, w, out)
         else (case (if f_kind f = KindString then stream_json_string_text (slice data start scalarEnd)
                     else if 0 < scalarEnd \<and> f_kind f \<noteq> KindNil then Some (slice data start scalarEnd)
                     else Some []) of
             None \<Rightarrow> (Some (True, False), w, out)
           | Some text \<Rightarrow>
               (case apply_rule (tables L) (dec_rule d)
                   \<lparr>ri_value = text, ri_kind = f_kind f, ri_redaction = marker (m_cfg m)\<rparr> of
                  Inl e \<Rightarrow>
                    (Some (False, False),
                     count_change (set_ins (add_stream_error (rule_field_error (tables L)
                       (callback_code CodeRuleFailure e) (locate w f) (dec_rule d)) (w_ins w)) w),
                     append_json_string out (marker (m_cfg m)))
                | Inr result \<Rightarrow> (Some (False, False), count_change w, append_json_string out result))))"

section \<open>Containers\<close>

text \<open>
  The result of a step: the position after the value and whether it was omitted, or
  \<open>None\<close> for \<open>ok = false\<close>; the walker; the output.
\<close>

type_synonym walk_result = "(nat \<times> bool) option \<times> stream_walker \<times> bytes"

type_synonym value_walker = "bytes \<Rightarrow> nat \<Rightarrow> field \<Rightarrow> stream_walker \<Rightarrow> bytes \<Rightarrow> walk_result"

definition write_member :: "bytes \<Rightarrow> stream_member \<Rightarrow> bytes" where
  "write_member scratch mem = append_json_string [] (m_key mem) @ '':'' @ slice scratch (m_start mem) (m_end mem)"

definition write_object :: "golib \<Rightarrow> bytes \<Rightarrow> stream_member list \<Rightarrow> bytes" where
  "write_object L scratch ms = ''{'' @ join '','' (map (write_member scratch) (sort_members L ms)) @ ''}''"

definition stream_field :: "bytes \<Rightarrow> field" where
  "stream_field key = \<lparr>f_key = key, f_path = [], f_source = SourceJSON, f_kind = KindInvalid\<rparr>"

text \<open>
  The key of a member and the position of its value, after the colon; \<open>None\<close> when the
  text breaks off.
\<close>

definition object_key :: "bytes \<Rightarrow> nat \<Rightarrow> stream_walker \<Rightarrow> (bytes \<times> nat) option \<times> stream_walker" where
  "object_key data position w =
     (if length data \<le> position \<or> data ! position \<noteq> quote_char then (None, w)
      else (let keyEnd = scan_json_string data position in
        if keyEnd \<le> position \<or> length data < keyEnd then (None, w)
        else case stream_object_key data position keyEnd (w_keys w) of
          (None, cache) \<Rightarrow> (None, w\<lparr>w_keys := cache\<rparr>)
        | (Some key, cache) \<Rightarrow>
            (let position = skip_json_space data keyEnd in
             if length data \<le> position \<or> data ! position \<noteq> CHR '':'' then (None, w\<lparr>w_keys := cache\<rparr>)
             else (Some (key, skip_json_space data (position + 1)), w\<lparr>w_keys := cache\<rparr>))))"

text \<open>
  The loop over the members.  Every round moves past a key, so \<open>length data - position\<close>
  rounds are enough.
\<close>

fun object_loop ::
    "golib \<Rightarrow> nat \<Rightarrow> value_walker \<Rightarrow> bytes \<Rightarrow> nat \<Rightarrow> bytes \<Rightarrow> member_list \<Rightarrow> stream_walker
      \<Rightarrow> (nat \<times> bytes) option \<times> stream_walker" where
  "object_loop L 0 child data position scratch ms w = (None, w)"
| "object_loop L (Suc rounds) child data position scratch ms w =
     (case object_key data position w of
        (None, w) \<Rightarrow> (None, w)
      | (Some (key, valueStart), w) \<Rightarrow>
          (case child data valueStart (stream_field key) (push_part (KeyPart key) w) scratch of
             (None, w, scratch') \<Rightarrow> (None, pop_part w)
           | (Some (next, omitted), w, scratch') \<Rightarrow>
               (let w = pop_part w;
                    ms = (if omitted then remove_stream_member key ms
                          else upsert_stream_member key (length scratch, length scratch') ms);
                    position = skip_json_space data next in
                if length data \<le> position then (None, w)
                else if data ! position = CHR '','' then
                  object_loop L rounds child data (skip_json_space data (position + 1)) scratch' ms w
                else if data ! position = CHR ''}'' then (Some (position + 1, write_object L scratch' (fst ms)), w)
                else (None, w))))"

definition append_object :: "golib \<Rightarrow> value_walker \<Rightarrow> bytes \<Rightarrow> nat \<Rightarrow> stream_walker \<Rightarrow> bytes \<Rightarrow> walk_result" where
  "append_object L child data start w out =
     (let position = skip_json_space data (start + 1) in
      if position < length data \<and> data ! position = CHR ''}'' then (Some (position + 1, False), w, out @ ''{}'')
      else case object_loop L (Suc (length data - position)) child data position [] no_members w of
        (None, w) \<Rightarrow> (None, w, out)
      | (Some (end, object), w) \<Rightarrow> (Some (end, False), w, out @ object))"

fun array_loop ::
    "nat \<Rightarrow> value_walker \<Rightarrow> bytes \<Rightarrow> nat \<Rightarrow> nat \<Rightarrow> stream_walker \<Rightarrow> bytes \<Rightarrow> walk_result" where
  "array_loop 0 child data position index w out = (None, w, out)"
| "array_loop (Suc rounds) child data position index w out =
     (let out = (if 0 < index then out @ '','' else out) in
      case child data position (stream_field []) (push_part (IndexPart index) w) out of
        (None, w, out) \<Rightarrow> (None, pop_part w, out)
      | (Some (next, omitted), w, out) \<Rightarrow>
          (let w = pop_part w;
               out = (if omitted then out @ ''null'' else out);
               position = skip_json_space data next in
           if length data \<le> position then (None, w, out)
           else if data ! position = CHR '','' then
             array_loop rounds child data (skip_json_space data (position + 1)) (index + 1) w out
           else if data ! position = CHR '']'' then (Some (position + 1, False), w, out @ '']'')
           else (None, w, out)))"

definition append_array :: "value_walker \<Rightarrow> bytes \<Rightarrow> nat \<Rightarrow> stream_walker \<Rightarrow> bytes \<Rightarrow> walk_result" where
  "append_array child data start w out =
     (let out = out @ ''[''; position = skip_json_space data (start + 1) in
      if position < length data \<and> data ! position = CHR '']'' then (Some (position + 1, False), w, out @ '']'')
      else array_loop (Suc (length data - position)) child data position 0 w out)"

section \<open>A value\<close>

text \<open>A value that is not looked into: it is stepped over and the marker written.\<close>

definition skip_masked :: "masker \<Rightarrow> bytes \<Rightarrow> nat \<Rightarrow> stream_walker \<Rightarrow> bytes \<Rightarrow> walk_result" where
  "skip_masked m data start w out =
     (map_option (\<lambda>end. (end, False)) (skip_json_value data start), w, append_json_string out (marker (m_cfg m)))"

definition append_token :: "bytes \<Rightarrow> nat \<Rightarrow> stream_walker \<Rightarrow> bytes \<Rightarrow> walk_result" where
  "append_token token end w out = (case append_stream_json_string out token of
       None \<Rightarrow> (None, w, out)
     | Some out \<Rightarrow> (Some (end, False), w, out))"

definition append_string ::
    "masker \<Rightarrow> string_inspector \<Rightarrow> bytes \<Rightarrow> nat \<Rightarrow> field \<Rightarrow> stream_walker \<Rightarrow> bytes \<Rightarrow> walk_result" where
  "append_string m inspect token end f w out =
     (if \<not> inspectable_token m token then append_token token end w out
      else case stream_json_string_text token of
        None \<Rightarrow> (None, w, out)
      | Some decoded \<Rightarrow> (case inspect decoded (locate w f) (w_ins w) of
            ((masked, True), st) \<Rightarrow> (Some (end, False), count_change (set_ins st w), append_json_string out masked)
          | ((masked, False), st) \<Rightarrow> append_token token end (set_ins st w) out))"

definition append_kind ::
    "golib \<Rightarrow> masker \<Rightarrow> string_inspector \<Rightarrow> value_walker \<Rightarrow> bytes \<Rightarrow> nat \<Rightarrow> nat \<Rightarrow> field \<Rightarrow> stream_walker \<Rightarrow> bytes
      \<Rightarrow> walk_result" where
  "append_kind L m inspect child data start scalarEnd f w out =
     (let token = slice data start scalarEnd in
      case f_kind f of
        KindString \<Rightarrow> append_string m inspect token scalarEnd f w out
      | KindBool \<Rightarrow> (Some (scalarEnd, False), w,
          if preserve_safe (m_cfg m) then out @ token else append_json_string out token)
      | KindNil \<Rightarrow> (Some (scalarEnd, False), w, out @ ''null'')
      | KindNumber \<Rightarrow> (Some (scalarEnd, False), w, out @ token)
      | KindObject \<Rightarrow> append_object L child data start w out
      | KindArray \<Rightarrow> append_array child data start w out
      | KindInvalid \<Rightarrow> (None, w, out))"

definition append_value_at ::
    "golib \<Rightarrow> masker \<Rightarrow> string_inspector \<Rightarrow> value_walker \<Rightarrow> int \<Rightarrow> value_walker" where
  "append_value_at L m inspect child depth data start f w out =
     (let start = skip_json_space data start in
      if length data \<le> start then (None, w, out)
      else if st_stop (w_ins w) then skip_masked m data start w out
      else if max_depth (m_cfg m) < depth then skip_masked m data start (stream_fail L CodeDepthLimit f depth w) out
      else (let w = set_ins ((w_ins w)\<lparr>st_nodes := st_nodes (w_ins w) + 1\<rparr>) w in
        if max_nodes (m_cfg m) < st_nodes (w_ins w) then
          skip_masked m data start (stream_fail L CodeNodeLimit f depth w) out
        else (let kind = stream_json_kind (data ! start) in
          if kind = KindInvalid then (None, w, out)
          else (let f = (if need_paths (m_cfg m) then f\<lparr>f_path := current_path w\<rparr> else f)\<lparr>f_kind := kind\<rparr> in
            case stream_scalar_end data start kind of
              None \<Rightarrow> (None, w, out)
            | Some scalarEnd \<Rightarrow> (case decide_value L m f data start scalarEnd w out of
                  (Some (broken, omitted), w, out) \<Rightarrow>
                    (if broken then None
                     else map_option (\<lambda>end. (end, omitted)) (skip_json_value data start), w,
                     if omitted \<and> w_path w = [] then out @ ''null'' else out)
                | (None, w, out) \<Rightarrow> append_kind L m inspect child data start scalarEnd f w out)))))"

section \<open>Tying the knot\<close>

text \<open>A document inside a string is walked from a fresh walker at its own path.\<close>

definition walk_document :: "value_walker \<Rightarrow> document_walker" where
  "walk_document walk data f nodes = (case walk data 0 f (new_stream_walker nodes (f_path f)) [] of
     (r, w, out) \<Rightarrow> (if r = None then None else Some out, w_ins w, w_changes w))"

fun append_value_fuel :: "golib \<Rightarrow> masker \<Rightarrow> nat \<Rightarrow> int \<Rightarrow> value_walker"
  and inspect_string_fuel :: "golib \<Rightarrow> masker \<Rightarrow> nat \<Rightarrow> int \<Rightarrow> string_inspector" where
  "append_value_fuel L m 0 depth = (\<lambda>data start f w out. (None, w, out))"
| "inspect_string_fuel L m 0 depth = (\<lambda>s f st. ((marker (m_cfg m), True), st))"
| "append_value_fuel L m (Suc n) depth =
     append_value_at L m
       (inspect_string_at L m (inspect_string_fuel L m n (depth + 1))
          (walk_document (append_value_fuel L m n (depth + 1))) depth)
       (append_value_fuel L m n (depth + 1)) depth"
| "inspect_string_fuel L m (Suc n) depth =
     inspect_string_at L m (inspect_string_fuel L m n (depth + 1))
       (walk_document (append_value_fuel L m n (depth + 1))) depth"

declare append_value_fuel.simps [simp del] inspect_string_fuel.simps [simp del]

lemmas fuel_step = append_value_fuel.simps(2) inspect_string_fuel.simps(2)

definition levels :: "masker \<Rightarrow> int \<Rightarrow> nat" where
  "levels m depth = nat (max_depth (m_cfg m) + 1 - depth) + 2"

definition append_value :: "golib \<Rightarrow> masker \<Rightarrow> int \<Rightarrow> value_walker" where
  "append_value L m depth = append_value_fuel L m (levels m depth) depth"

definition inspect_string :: "golib \<Rightarrow> masker \<Rightarrow> int \<Rightarrow> string_inspector" where
  "inspect_string L m depth = inspect_string_fuel L m (levels m depth) depth"

section \<open>Enough levels\<close>

text \<open>At the depth limit no member is left to the inspection, so nothing is nested.\<close>

lemma decide_member_deep:
  assumes "max_depth (m_cfg m) < depth + 1"
  shows "\<exists>v keep st'. decide_member L m member val depth st = ((v, True, keep), st')"
  using assms by (auto simp: decide_member_def)

lemma mask_pair_deep:
  assumes "max_depth (m_cfg m) < depth + 1"
  shows "mask_pair L m nested f depth = mask_pair L m nested' f depth"
proof (intro ext)
  fix x :: "inspect_state \<times> bool" and key val
  obtain st :: inspect_state and changed :: bool where x: "x = (st, changed)" by (cases x)
  obtain v keep st' where "decide_member L m (query_member f key) val depth st = ((v, True, keep), st')"
    using decide_member_deep [OF assms] by blast
  then show "mask_pair L m nested f depth x key val = mask_pair L m nested' f depth x key val"
    by (simp add: x mask_pair_def)
qed

lemma inspect_string_deep:
  assumes "max_depth (m_cfg m) < depth + 1"
  shows "inspect_string_at L m nested inner depth = inspect_string_at L m nested' inner depth"
  unfolding inspect_string_at_def [abs_def] inspect_embedded_def inspect_url_def inspect_form_def mask_query_values_def
    mask_pair_deep [OF assms, of L nested _ nested'] ..

lemma append_value_deep:
  assumes "max_depth (m_cfg m) < depth"
  shows "append_value_at L m inspect child depth = append_value_at L m inspect' child' depth"
  using assms by (intro ext) (simp add: append_value_at_def Let_def)

lemma fuel_deep: "max_depth (m_cfg m) < depth \<Longrightarrow> append_value_fuel L m (Suc n) depth = append_value_fuel L m (Suc n') depth"
  unfolding fuel_step by (rule append_value_deep)

lemma more_fuel:
  assumes "levels m depth \<le> n"
  shows "append_value_fuel L m (Suc n) depth = append_value_fuel L m n depth
    \<and> inspect_string_fuel L m (Suc n) depth = inspect_string_fuel L m n depth"
  using assms
proof (induction n arbitrary: depth)
  case 0
  then show ?case by (simp add: levels_def)
next
  case (Suc n)
  note step = fuel_step(1) [of L m "Suc n" depth] fuel_step(1) [of L m n depth]
    fuel_step(2) [of L m "Suc n" depth] fuel_step(2) [of L m n depth]
  show ?case
  proof (cases "max_depth (m_cfg m) < depth")
    case True
    then obtain k where n: "n = Suc k" using Suc.prems by (cases n) (simp_all add: levels_def)
    have walk: "append_value_fuel L m (Suc n) (depth + 1) = append_value_fuel L m n (depth + 1)"
      unfolding n by (rule fuel_deep) (use True in simp)
    have "inspect_string_fuel L m (Suc (Suc n)) depth = inspect_string_fuel L m (Suc n) depth"
      unfolding step walk by (rule inspect_string_deep) (use True in simp)
    then show ?thesis using fuel_deep [OF True] by blast
  next
    case False
    then have "levels m (depth + 1) \<le> n" using Suc.prems by (simp add: levels_def)
    from Suc.IH [OF this] show ?thesis by (simp only: step)
  qed
qed

lemma enough_fuel:
  "levels m depth \<le> n \<Longrightarrow> append_value_fuel L m n depth = append_value L m depth
    \<and> inspect_string_fuel L m n depth = inspect_string L m depth"
proof (induction n rule: dec_induct)
  case base
  show ?case by (simp add: append_value_def inspect_string_def)
next
  case (step n)
  then show ?case using more_fuel [of m depth n L] by simp
qed

lemma inspect_string_unfold:
  "inspect_string L m depth = inspect_string_at L m (inspect_string L m (depth + 1))
     (walk_document (append_value L m (depth + 1))) depth"
proof -
  let ?n = "max (levels m depth) (levels m (depth + 1))"
  have "inspect_string L m depth = inspect_string_fuel L m (Suc ?n) depth"
    using enough_fuel [of m depth "Suc ?n" L] by simp
  then show ?thesis using enough_fuel [of m "depth + 1" ?n L] by (simp add: fuel_step)
qed

lemma append_value_unfold:
  "append_value L m depth = append_value_at L m (inspect_string L m depth) (append_value L m (depth + 1)) depth"
proof -
  let ?n = "max (levels m depth) (levels m (depth + 1))"
  have "append_value L m depth = append_value_fuel L m (Suc ?n) depth"
    using enough_fuel [of m depth "Suc ?n" L] by simp
  then show ?thesis using enough_fuel [of m "depth + 1" ?n L]
    by (simp add: fuel_step inspect_string_unfold [of L m depth])
qed

section \<open>Properties\<close>

text \<open>
  C28: The recursion of the walker and of the inspection ends for every input: the levels
  the model grants are enough, so both satisfy the equations of the code with no bound.
\<close>

theorem walk_terminates:
  "append_value L m depth = append_value_at L m (inspect_string L m depth) (append_value L m (depth + 1)) depth
    \<and> inspect_string L m depth = inspect_string_at L m (inspect_string L m (depth + 1))
        (walk_document (append_value L m (depth + 1))) depth"
  using append_value_unfold inspect_string_unfold by blast

end
