(* ===== verification/Adapter.thy ===== *)
theory Adapter
  imports Stream
begin

text \<open>
  The entry points of the logger and HTTP adapters into the core (\<open>adapter.go\<close> and the
  variables of \<open>internal/adapter\<close> it sets), and \<open>MaskField\<close> on a plain string, the only
  kind of value the HTTP adapter passes (\<open>maskScalarField\<close> in \<open>walk.go\<close>).  How
  \<open>log/slog\<close> prints a float or a time is the parameter \<open>txt\<close>.
\<close>

section \<open>A string under a key\<close>

definition start_inspection :: inspect_state where
  "start_inspection = \<lparr>st_nodes = 1, st_errs = [], st_stop = False\<rparr>"

text \<open>
  The result is the new text, \<open>None\<close> when it is omitted; with an error it is the marker.
\<close>

definition mask_scalar_string ::
    "golib \<Rightarrow> masker \<Rightarrow> field \<Rightarrow> bytes \<Rightarrow> bytes option \<times> go_error option" where
  "mask_scalar_string L m f s =
     (let failure = (\<lambda>e. (Some (marker (m_cfg m)), Some e)) in
      if \<not> valid_utf8 (f_key f) then failure (MaskError (new_mask_error (tables L) CodeInvalidUTF8 ''mask'' (f_path f)))
      else (let f = (if f_kind f = KindInvalid then f\<lparr>f_kind := KindString\<rparr> else f) in
        if \<not> valid_utf8 s then failure (MaskError (new_mask_error (tables L) CodeInvalidUTF8 ''mask'' (f_path f)))
        else case call_policy (tables L) (m_policy m) f of
          Inl e \<Rightarrow> failure (MaskErrors [new_field_error (tables L) (callback_code CodePolicyFailure e) f 0])
        | Inr d \<Rightarrow>
            if dec_omit d then (None, None)
            else if is_nil_rule (dec_rule d) then
              (if \<not> inspectable m s then (Some s, None)
               else case inspect_string L m 0 s f start_inspection of
                 ((masked, True), st) \<Rightarrow>
                   if st_errs st \<noteq> [] then failure (MaskErrors (st_errs st)) else (Some masked, None)
               | ((masked, False), st) \<Rightarrow> (Some s, None))
            else (let r = (if f_source f = SourceHeader then Builtin FullRule else dec_rule d) in
              case apply_rule (tables L) r \<lparr>ri_value = s, ri_kind = f_kind f, ri_redaction = marker (m_cfg m)\<rparr> of
                Inl e \<Rightarrow> failure (MaskErrors [rule_field_error (tables L) (callback_code CodeRuleFailure e) f r])
              | Inr result \<Rightarrow> (Some result, None))))"

definition mask_string_field :: "golib \<Rightarrow> masker \<Rightarrow> field \<Rightarrow> bytes \<Rightarrow> bytes option \<times> go_error option" where
  "mask_string_field L m f s = mask_scalar_string L m
     (if f_path f = [] then f\<lparr>f_path := path_for ''$'' (f_key f)\<rparr> else f) s"

section \<open>Free text\<close>

definition adapter_free_text :: "golib \<Rightarrow> masker \<Rightarrow> bytes \<Rightarrow> bytes \<Rightarrow> bytes \<times> go_error option" where
  "adapter_free_text L m path text =
     (if \<not> valid_utf8 text then
        (marker (m_cfg m), Some (MaskError (new_mask_error (tables L) CodeInvalidUTF8 ''mask'' path)))
      else if \<not> inspectable m text then (text, None)
      else case inspect_string L m 0 text
          \<lparr>f_key = [], f_path = path, f_source = SourceText, f_kind = KindString\<rparr> start_inspection of
        ((masked, _), st) \<Rightarrow> (case aggregate_errors (st_errs st) of
            Some e \<Rightarrow> (marker (m_cfg m), Some e)
          | None \<Rightarrow> (masked, None)))"

section \<open>Attributes\<close>

datatype adapter_action = ActKeep | ActReplace | ActOmit | ActFail

datatype slog_value =
    SlogString bytes | SlogInt64 int | SlogUint64 nat | SlogFloat64 nat | SlogBool bool
  | SlogDuration int | SlogTime nat

definition slog_kind :: "slog_value \<Rightarrow> value_kind" where
  "slog_kind v = (case v of
       SlogBool _ \<Rightarrow> KindBool
     | SlogInt64 _ \<Rightarrow> KindNumber | SlogUint64 _ \<Rightarrow> KindNumber | SlogFloat64 _ \<Rightarrow> KindNumber
     | SlogDuration _ \<Rightarrow> KindNumber
     | _ \<Rightarrow> KindString)"

text \<open>\<open>slog.Value.String\<close>; a duration prints with its unit, which is again the library's.\<close>

definition slog_string :: "(slog_value \<Rightarrow> bytes) \<Rightarrow> slog_value \<Rightarrow> bytes" where
  "slog_string txt v = (case v of
       SlogString s \<Rightarrow> s
     | SlogInt64 i \<Rightarrow> itoa i
     | SlogUint64 n \<Rightarrow> itoa (int n)
     | SlogBool b \<Rightarrow> (if b then ''true'' else ''false'')
     | _ \<Rightarrow> txt v)"

definition adapter_text :: "(slog_value \<Rightarrow> bytes) \<Rightarrow> slog_value \<Rightarrow> bytes" where
  "adapter_text txt v = (case v of SlogDuration d \<Rightarrow> itoa d | _ \<Rightarrow> slog_string txt v)"

definition adapter_append :: "(slog_value \<Rightarrow> bytes) \<Rightarrow> bytes \<Rightarrow> slog_value \<Rightarrow> bytes" where
  "adapter_append txt dst v = dst @ (case v of
       SlogInt64 i \<Rightarrow> itoa i
     | SlogUint64 n \<Rightarrow> itoa (int n)
     | SlogFloat64 _ \<Rightarrow> txt v
     | SlogBool b \<Rightarrow> (if b then ''true'' else ''false'')
     | SlogDuration d \<Rightarrow> itoa d
     | _ \<Rightarrow> slog_string txt v)"

definition adapter_path :: "bytes list \<Rightarrow> bytes \<Rightarrow> bytes" where
  "adapter_path groups key = ''$'' @ concat (map (\<lambda>g. ''['' @ g @ '']'') groups) @ ''['' @ key @ '']''"

definition finish_scalar :: "bytes \<Rightarrow> bytes \<Rightarrow> bytes \<Rightarrow> adapter_action \<times> bytes" where
  "finish_scalar text masked mark = (if masked = text \<and> masked \<noteq> mark then (ActKeep, []) else (ActReplace, masked))"

definition adapter_inspect :: "golib \<Rightarrow> masker \<Rightarrow> bytes \<Rightarrow> field \<Rightarrow> adapter_action \<times> bytes" where
  "adapter_inspect L m text f = (case inspect_string L m 0 text f start_inspection of
       ((masked, changed), st) \<Rightarrow>
         if \<not> changed then (ActKeep, [])
         else if st_errs st \<noteq> [] then (ActFail, [])
         else finish_scalar text masked (marker (m_cfg m)))"

definition attribute_field :: "masker \<Rightarrow> bytes list \<Rightarrow> bytes \<Rightarrow> value_kind \<Rightarrow> field" where
  "attribute_field m groups key kind =
     \<lparr>f_key = key, f_path = (if need_paths (m_cfg m) then adapter_path groups key else []),
      f_source = SourceMap, f_kind = kind\<rparr>"

definition redacting_rules :: "rule set" where
  "redacting_rules = {Builtin FullRule, Builtin PasswordRule, Builtin TokenRule}"

definition adapter_scalar ::
    "golib \<Rightarrow> masker \<Rightarrow> (slog_value \<Rightarrow> bytes) \<Rightarrow> bytes list \<Rightarrow> bytes \<Rightarrow> slog_value \<Rightarrow> adapter_action \<times> bytes" where
  "adapter_scalar L m txt groups key v =
     (if \<not> valid_utf8 key then (ActFail, [])
      else if (case v of SlogString s \<Rightarrow> \<not> valid_utf8 s | _ \<Rightarrow> False) then (ActFail, [])
      else (let f = attribute_field m groups key (slog_kind v) in
        case call_policy (tables L) (m_policy m) f of
          Inl _ \<Rightarrow> (ActFail, [])
        | Inr d \<Rightarrow>
            if dec_omit d then (ActOmit, [])
            else if \<not> is_nil_rule (dec_rule d) then
              (if dec_rule d \<in> redacting_rules then (ActReplace, marker (m_cfg m))
               else (let text = adapter_text txt v in
                 case apply_rule (tables L) (dec_rule d)
                     \<lparr>ri_value = text, ri_kind = slog_kind v, ri_redaction = marker (m_cfg m)\<rparr> of
                   Inl _ \<Rightarrow> (ActFail, [])
                 | Inr result \<Rightarrow> finish_scalar text result (marker (m_cfg m))))
            else (case v of
                SlogString text \<Rightarrow> if \<not> inspectable m text then (ActKeep, []) else adapter_inspect L m text f
              | _ \<Rightarrow> if \<not> inspectable m (adapter_append txt [] v) then (ActKeep, [])
                     else adapter_inspect L m (adapter_append txt [] v) f)))"

text \<open>The groups around an attribute, outermost first.\<close>

fun adapter_group_from :: "golib \<Rightarrow> masker \<Rightarrow> bytes list \<Rightarrow> bytes list \<Rightarrow> adapter_action" where
  "adapter_group_from L m outer [] = ActKeep"
| "adapter_group_from L m outer (name # groups) =
     (if \<not> valid_utf8 name then ActFail
      else case call_policy (tables L) (m_policy m) (attribute_field m outer name KindObject) of
        Inl _ \<Rightarrow> ActFail
      | Inr d \<Rightarrow>
          if dec_omit d then ActOmit
          else if \<not> is_nil_rule (dec_rule d) then ActFail
          else adapter_group_from L m (outer @ [name]) groups)"

definition adapter_group :: "golib \<Rightarrow> masker \<Rightarrow> bytes list \<Rightarrow> adapter_action" where
  "adapter_group L m groups = adapter_group_from L m [] groups"

text \<open>\<open>adapter.Scalar\<close> and the others take the core as \<open>any\<close>; \<open>None\<close> is not a masker.\<close>

definition core_free_text :: "golib \<Rightarrow> masker option \<Rightarrow> bytes \<Rightarrow> bytes \<Rightarrow> bytes \<times> go_error option" where
  "core_free_text L core path text = (case core of
       None \<Rightarrow> (default_redaction_marker, Some (MaskError (new_mask_error (tables L) CodeInvalidConfig ''mask'' path)))
     | Some m \<Rightarrow> adapter_free_text L m path text)"

section \<open>Properties\<close>

lemma adapter_append_text: "adapter_append txt dst v = dst @ adapter_text txt v"
  by (cases v) (simp_all add: adapter_append_def adapter_text_def slog_string_def)

text \<open>
  The shortcut of the attribute path for the three rules that redact in full is
  exact: it returns what applying the rule would have returned, without the text.
\<close>

theorem redacting_shortcut_exact:
  assumes "r \<in> redacting_rules" and "valid_utf8 (marker (m_cfg m))"
  shows "(case apply_rule u r \<lparr>ri_value = s, ri_kind = kind, ri_redaction = marker (m_cfg m)\<rparr> of
      Inl _ \<Rightarrow> (ActFail, []) | Inr result \<Rightarrow> finish_scalar s result (marker (m_cfg m)))
    = (ActReplace, marker (m_cfg m))"
  using assms
  by (auto simp: redacting_rules_def apply_rule_def is_nil_rule_def rule_method_apply_def builtin_fn_def finish_scalar_def)

theorem redacting_shortcut_exact_witness:
  "apply_rule ascii_only_tables (Builtin TokenRule) \<lparr>ri_value = ''s3cret'', ri_kind = KindString, ri_redaction = ''[REDACTED]''\<rparr> = Inr ''[REDACTED]''"
proof -
  let ?m = "\<lparr>m_policy = PolicyFunc None, m_cfg = default_config\<rparr>"
  have "valid_utf8 (marker (m_cfg ?m))" using default_config_ok by (simp add: config_ok_def)
  from redacting_shortcut_exact [where r = "Builtin TokenRule" and u = ascii_only_tables and s = "''s3cret''"
      and kind = KindString, OF _ this]
  show ?thesis by (auto simp: redacting_rules_def default_config_def default_redaction_marker_def
      finish_scalar_def split: sum.splits if_splits)
qed

text \<open>
  C33: An attribute keeps its value only if the policy has no opinion on it and the
  inspection of its text left it alone, or the rule returned exactly that text; and a
  failing policy or rule never lets the value through.
\<close>

theorem attribute_kept_only_if_unchanged:
  assumes "adapter_scalar L m txt groups key v = (ActKeep, text)"
  shows "\<exists>d. call_policy (tables L) (m_policy m) (attribute_field m groups key (slog_kind v)) = Inr d \<and> \<not> dec_omit d
    \<and> (if is_nil_rule (dec_rule d) then
         \<not> inspectable m (adapter_text txt v)
         \<or> (let r = fst (inspect_string L m 0 (adapter_text txt v) (attribute_field m groups key (slog_kind v)) start_inspection)
            in \<not> snd r \<or> fst r = adapter_text txt v)
       else apply_rule (tables L) (dec_rule d)
         \<lparr>ri_value = adapter_text txt v, ri_kind = slog_kind v, ri_redaction = marker (m_cfg m)\<rparr> = Inr (adapter_text txt v))"
proof -
  let ?f = "attribute_field m groups key (slog_kind v)"
  obtain d where d: "call_policy (tables L) (m_policy m) ?f = Inr d"
    using assms by (auto simp: adapter_scalar_def Let_def split: if_splits sum.splits)
  show ?thesis
  proof (intro exI [of _ d] conjI)
    show "call_policy (tables L) (m_policy m) ?f = Inr d" by (rule d)
    show "\<not> dec_omit d" using assms d by (auto simp: adapter_scalar_def Let_def split: if_splits)
    have nil: "\<not> inspectable m (adapter_text txt v) \<or> adapter_inspect L m (adapter_text txt v) ?f = (ActKeep, text)"
      if "is_nil_rule (dec_rule d)"
      using assms d that
      by (cases v) (auto simp: adapter_scalar_def Let_def adapter_append_text adapter_text_def slog_string_def split: if_splits)
    have rule: "apply_rule (tables L) (dec_rule d)
         \<lparr>ri_value = adapter_text txt v, ri_kind = slog_kind v, ri_redaction = marker (m_cfg m)\<rparr> = Inr (adapter_text txt v)"
      if "\<not> is_nil_rule (dec_rule d)"
      using assms d that by (auto simp: adapter_scalar_def Let_def finish_scalar_def split: if_splits sum.splits)
    show "if is_nil_rule (dec_rule d) then
         \<not> inspectable m (adapter_text txt v)
         \<or> (let r = fst (inspect_string L m 0 (adapter_text txt v) ?f start_inspection)
            in \<not> snd r \<or> fst r = adapter_text txt v)
       else apply_rule (tables L) (dec_rule d)
         \<lparr>ri_value = adapter_text txt v, ri_kind = slog_kind v, ri_redaction = marker (m_cfg m)\<rparr> = Inr (adapter_text txt v)"
      using nil rule by (auto simp: adapter_inspect_def finish_scalar_def split: prod.splits if_splits)
  qed
qed

theorem attribute_kept_only_if_unchanged_witness:
  "\<not> dec_omit no_opinion \<and> \<not> inspectable \<lparr>m_policy = PolicyFunc (Some (\<lambda>f. Returns no_opinion)),
     m_cfg = default_config\<lparr>embedded := False, text_detectors := False\<rparr>\<rparr> ''7''"
proof -
  let ?m = "\<lparr>m_policy = PolicyFunc (Some (\<lambda>f. Returns no_opinion)),
     m_cfg = default_config\<lparr>embedded := False, text_detectors := False\<rparr>\<rparr>"
  have call: "call_policy u (PolicyFunc (Some (\<lambda>f. Returns no_opinion))) f = Inr no_opinion" for u f
    by (simp add: call_policy_def)
  have "adapter_scalar plain_library ?m (\<lambda>_. []) [] ''n'' (SlogInt64 7) = (ActKeep, [])"
    by (simp add: adapter_scalar_def Let_def call) (simp add: no_opinion_def is_nil_rule_def inspectable_def)
  from attribute_kept_only_if_unchanged [OF this] show ?thesis
    by (auto simp: call) (auto simp: inspectable_def)
qed

end
