(* ===== verification/HttpMask.thy ===== *)
theory HttpMask
  imports Adapter
begin

text \<open>
  The HTTP adapter (\<open>httpmask/adapter.go\<close>): headers, URLs and URL strings.  A header map
  is a list of its entries in the order Go ranges over it.
\<close>

section \<open>The adapter\<close>

datatype http_error = HttpFailed bytes | CoreFailed go_error

record http_adapter =
  ha_core :: "masker option"
  ha_preserve_fragment :: bool
  ha_mark :: bytes

datatype http_option = NilHttpOption | WithPreserveFragment

fun apply_http_options :: "http_option list \<Rightarrow> bool \<Rightarrow> http_error + bool" where
  "apply_http_options [] preserve = Inr preserve"
| "apply_http_options (NilHttpOption # opts) preserve = Inl (HttpFailed ''httpmask: nil option'')"
| "apply_http_options (WithPreserveFragment # opts) preserve = apply_http_options opts True"

definition new_http_adapter :: "golib \<Rightarrow> masker option \<Rightarrow> http_option list \<Rightarrow> http_error + http_adapter" where
  "new_http_adapter L core opts = (case core of
       None \<Rightarrow> Inl (HttpFailed ''httpmask: nil core masker'')
     | Some m \<Rightarrow> (case apply_http_options opts False of
           Inl e \<Rightarrow> Inl e
         | Inr preserve \<Rightarrow> (case mask_string (tables L) (Some m) [] (Builtin FullRule) of
               (mark, Some e) \<Rightarrow> Inl (CoreFailed e)
             | (mark, None) \<Rightarrow>
                 Inr \<lparr>ha_core = Some m, ha_preserve_fragment = preserve, ha_mark = mark\<rparr>)))"

definition http_marker :: "http_adapter \<Rightarrow> bytes" where
  "http_marker a = (if ha_mark a \<noteq> [] then ha_mark a else default_redaction_marker)"

section \<open>Headers\<close>

definition header_field :: "bytes \<Rightarrow> field" where
  "header_field key = \<lparr>f_key = key, f_path = path_for ''$'' key, f_source = SourceHeader, f_kind = KindString\<rparr>"

definition is_cookie :: "golib \<Rightarrow> bytes \<Rightarrow> bool" where
  "is_cookie L key \<longleftrightarrow> equal_fold (tables L) key ''Cookie'' \<or> equal_fold (tables L) key ''Set-Cookie''"

text \<open>A value of a header: \<open>None\<close> when the policy omits it.\<close>

definition mask_header_value :: "golib \<Rightarrow> masker \<Rightarrow> bytes \<Rightarrow> bytes \<Rightarrow> http_error + bytes option" where
  "mask_header_value L m key v =
     (if is_cookie L key then
        (case mask_string (tables L) (Some m) v (Builtin FullRule) of
           (masked, None) \<Rightarrow> Inr (Some masked)
         | (_, Some e) \<Rightarrow> Inl (CoreFailed e))
      else (case mask_string_field L m (header_field key) v of
           (masked, None) \<Rightarrow> Inr masked
         | (_, Some e) \<Rightarrow> Inl (CoreFailed e)))"

fun mask_header_values :: "golib \<Rightarrow> masker \<Rightarrow> bytes \<Rightarrow> bytes list \<Rightarrow> http_error + bytes list" where
  "mask_header_values L m key [] = Inr []"
| "mask_header_values L m key (v # vs) = (case mask_header_value L m key v of
       Inl e \<Rightarrow> Inl e
     | Inr masked \<Rightarrow> (case mask_header_values L m key vs of
           Inl e \<Rightarrow> Inl e
         | Inr rest \<Rightarrow> Inr (case masked of None \<Rightarrow> rest | Some s \<Rightarrow> s # rest)))"

type_synonym headers = "(bytes \<times> bytes list) list"

fun mask_header_entries :: "golib \<Rightarrow> masker \<Rightarrow> headers \<Rightarrow> http_error + headers" where
  "mask_header_entries L m [] = Inr []"
| "mask_header_entries L m ((key, vs) # entries) = (case mask_header_values L m key vs of
       Inl e \<Rightarrow> Inl e
     | Inr copied \<Rightarrow> (case mask_header_entries L m entries of
           Inl e \<Rightarrow> Inl e
         | Inr rest \<Rightarrow> Inr (if copied = [] then rest else (key, copied) # rest)))"

text \<open>\<open>Headers\<close>; a nil adapter is \<open>None\<close>.\<close>

definition http_headers :: "golib \<Rightarrow> http_adapter option \<Rightarrow> headers \<Rightarrow> headers \<times> http_error option" where
  "http_headers L a src = (case a of
       None \<Rightarrow> ([], Some (HttpFailed ''httpmask: nil adapter''))
     | Some a \<Rightarrow> (case ha_core a of
           None \<Rightarrow> ([], Some (HttpFailed ''httpmask: nil adapter''))
         | Some m \<Rightarrow> (case mask_header_entries L m src of
               Inl e \<Rightarrow> ([], Some e)
             | Inr result \<Rightarrow> (result, None))))"

section \<open>URLs\<close>

definition http_query_field :: "bytes \<Rightarrow> field" where
  "http_query_field key =
     \<lparr>f_key = key, f_path = path_for ''$'' key, f_source = SourceURLQuery, f_kind = KindString\<rparr>"

definition mask_query_pair :: "golib \<Rightarrow> masker \<Rightarrow> (unit, go_error) pair_mask" where
  "mask_query_pair L m = (\<lambda>st key val. (case mask_string_field L m (http_query_field key) val of
       (_, Some e) \<Rightarrow> Inl e
     | (None, None) \<Rightarrow> Inr ([], False)
     | (Some masked, None) \<Rightarrow> Inr (masked, True), st))"

definition http_mask_query :: "golib \<Rightarrow> masker \<Rightarrow> bytes \<Rightarrow> http_error + bytes" where
  "http_mask_query L m raw = (case mask_query (mask_query_pair L m) raw () of
       (Inl InvalidQuery, _) \<Rightarrow> Inl (HttpFailed ''httpmask: invalid query'')
     | (Inl (CallbackError e), _) \<Rightarrow> Inl (CoreFailed e)
     | (Inr query, _) \<Rightarrow> Inr query)"

definition http_mask_path :: "golib \<Rightarrow> masker \<Rightarrow> go_url \<Rightarrow> http_error + go_url" where
  "http_mask_path L m url =
     (if url_path url = [] then Inr url
      else case core_free_text L (Some m) ''$.path'' (url_path url) of
        (_, Some e) \<Rightarrow> Inl (CoreFailed e)
      | (path, None) \<Rightarrow> Inr (if path \<noteq> url_path url then url\<lparr>url_path := path, url_raw_path := []\<rparr> else url))"

definition http_mask_fragment :: "http_adapter \<Rightarrow> go_url \<Rightarrow> go_url" where
  "http_mask_fragment a url =
     (if ha_preserve_fragment a \<or> url_fragment url = [] then url
      else url\<lparr>url_fragment := http_marker a, url_raw_fragment := []\<rparr>)"

definition http_mask_url :: "golib \<Rightarrow> http_adapter \<Rightarrow> masker \<Rightarrow> go_url \<Rightarrow> http_error + go_url" where
  "http_mask_url L a m url =
     (let url = (if url_user url = None then url else url\<lparr>url_user := Some (http_marker a, None)\<rparr>) in
      case http_mask_path L m url of
        Inl e \<Rightarrow> Inl e
      | Inr url \<Rightarrow>
          if url_raw_query url = [] then Inr (http_mask_fragment a url)
          else (case http_mask_query L m (url_raw_query url) of
              Inl e \<Rightarrow> Inl e
            | Inr query \<Rightarrow> Inr (http_mask_fragment a (url\<lparr>url_raw_query := query\<rparr>))))"

definition marker_url :: "bytes \<Rightarrow> go_url" where
  "marker_url mark = zero_url\<lparr>url_path := mark\<rparr>"

text \<open>\<open>URL\<close>: the adapter and the URL may be nil.\<close>

definition http_url :: "golib \<Rightarrow> http_adapter option \<Rightarrow> go_url option \<Rightarrow> go_url \<times> http_error option" where
  "http_url L a src = (case a of
       None \<Rightarrow> (marker_url default_redaction_marker, Some (HttpFailed ''httpmask: nil adapter''))
     | Some a \<Rightarrow> (case ha_core a of
           None \<Rightarrow> (marker_url (http_marker a), Some (HttpFailed ''httpmask: nil adapter''))
         | Some m \<Rightarrow> (case src of
               None \<Rightarrow> (marker_url (http_marker a), Some (HttpFailed ''httpmask: unsupported URL''))
             | Some url \<Rightarrow>
                 if url_opaque url \<noteq> [] then (marker_url (http_marker a), Some (HttpFailed ''httpmask: unsupported URL''))
                 else (case http_mask_url L a m url of
                     Inl e \<Rightarrow> (marker_url (http_marker a), Some e)
                   | Inr result \<Rightarrow> (result, None)))))"

definition http_url_string :: "golib \<Rightarrow> http_adapter option \<Rightarrow> bytes \<Rightarrow> bytes \<times> http_error option" where
  "http_url_string L a raw = (case a of
       None \<Rightarrow> (default_redaction_marker, Some (HttpFailed ''httpmask: nil adapter''))
     | Some a \<Rightarrow> (case ha_core a of
           None \<Rightarrow> (default_redaction_marker, Some (HttpFailed ''httpmask: nil adapter''))
         | Some m \<Rightarrow> (case parse_url L raw of
               None \<Rightarrow> (http_marker a, Some (HttpFailed ''httpmask: invalid URL''))
             | Some url \<Rightarrow>
                 if url_opaque url \<noteq> [] then (http_marker a, Some (HttpFailed ''httpmask: unsupported URL''))
                 else (case http_mask_url L a m url of
                     Inl e \<Rightarrow> (http_marker a, Some e)
                   | Inr result \<Rightarrow> (url_string L result, None)))))"

section \<open>Properties\<close>

lemma full_rule_marker:
  "valid_utf8 (marker (m_cfg m)) \<Longrightarrow> mask_string u (Some m) v (Builtin FullRule) = (marker (m_cfg m), None)"
  by (simp add: mask_string_def apply_rule_def is_nil_rule_def rule_method_apply_def builtin_fn_def)

lemma mask_scalar_string_cases:
  "mask_scalar_string L m f s = (r, e) \<Longrightarrow> e = None \<or> r = Some (marker (m_cfg m))"
  by (auto simp: mask_scalar_string_def Let_def split: if_splits sum.splits prod.splits bool.splits)

definition kept_values :: "golib \<Rightarrow> masker \<Rightarrow> bytes \<Rightarrow> bytes list \<Rightarrow> bytes list" where
  "kept_values L m key vs = List.map_filter (\<lambda>v.
     if is_cookie L key then Some (marker (m_cfg m)) else fst (mask_string_field L m (header_field key) v)) vs"

definition masked_without_error :: "golib \<Rightarrow> masker \<Rightarrow> bytes \<Rightarrow> bytes list \<Rightarrow> bool" where
  "masked_without_error L m key vs \<longleftrightarrow>
     is_cookie L key \<or> list_all (\<lambda>v. snd (mask_string_field L m (header_field key) v) = None) vs"

lemma mask_header_values_spec:
  assumes "valid_utf8 (marker (m_cfg m))" and "mask_header_values L m key vs = Inr copied"
  shows "copied = kept_values L m key vs \<and> masked_without_error L m key vs"
  using assms(2)
proof (induction vs arbitrary: copied)
  case (Cons v vs)
  then obtain masked rest where r: "mask_header_value L m key v = Inr masked" "mask_header_values L m key vs = Inr rest"
      "copied = (case masked of None \<Rightarrow> rest | Some s \<Rightarrow> s # rest)"
    by (auto split: sum.splits)
  have ih: "rest = kept_values L m key vs" "masked_without_error L m key vs" using Cons.IH [OF r(2)] by auto
  show ?case
  proof (cases "is_cookie L key")
    case True
    then have "masked = Some (marker (m_cfg m))"
      using r(1) by (simp add: mask_header_value_def full_rule_marker [OF assms(1)])
    then show ?thesis using r ih True by (simp add: kept_values_def masked_without_error_def map_filter_simps)
  next
    case False
    then have "mask_string_field L m (header_field key) v = (masked, None)"
      using r(1) by (auto simp: mask_header_value_def split: prod.splits option.splits)
    then show ?thesis using r(3) ih False
      by (cases masked) (simp_all add: kept_values_def masked_without_error_def map_filter_simps)
  qed
qed (simp add: kept_values_def masked_without_error_def map_filter_simps)

lemma mask_header_entries_spec:
  assumes "valid_utf8 (marker (m_cfg m))" and "mask_header_entries L m src = Inr result"
  shows "result = filter (\<lambda>(_, vs). vs \<noteq> []) (map (\<lambda>(key, vs). (key, kept_values L m key vs)) src)
    \<and> list_all (\<lambda>(key, vs). masked_without_error L m key vs) src"
  using assms(2)
proof (induction src arbitrary: result)
  case (Cons x src)
  obtain key vs where x: "x = (key, vs)" by (cases x)
  from Cons.prems obtain copied rest where r: "mask_header_values L m key vs = Inr copied"
      "mask_header_entries L m src = Inr rest" "result = (if copied = [] then rest else (key, copied) # rest)"
    by (auto simp: x split: sum.splits)
  show ?case using mask_header_values_spec [OF assms(1) r(1)] Cons.IH [OF r(2)] r(3) by (auto simp: x)
qed simp

text \<open>
  C34: Masking headers fails closed: with an error the result is empty; otherwise every
  cookie value is the marker, every other value is what \<open>MaskField\<close> made of a value of
  that header without an error, in order, an omitted value is gone, and a header that
  has no values left is too.
\<close>

theorem headers_masked:
  assumes "ha_core a = Some m" and "valid_utf8 (marker (m_cfg m))"
  shows "case http_headers L (Some a) src of
      (result, Some e) \<Rightarrow> result = []
    | (result, None) \<Rightarrow> list_all (\<lambda>(key, vs). masked_without_error L m key vs) src
        \<and> result = filter (\<lambda>(_, vs). vs \<noteq> []) (map (\<lambda>(key, vs). (key, kept_values L m key vs)) src)"
proof (cases "mask_header_entries L m src")
  case (Inr result)
  then show ?thesis using mask_header_entries_spec [OF assms(2) Inr] by (simp add: http_headers_def assms(1))
qed (simp add: http_headers_def assms(1))

theorem headers_masked_witness:
  "kept_values plain_library \<lparr>m_policy = PolicyFunc None, m_cfg = default_config\<rparr> ''Cookie'' [''sid=1''] = [default_redaction_marker]"
proof -
  let ?m = "\<lparr>m_policy = PolicyFunc None, m_cfg = default_config\<rparr>"
  let ?a = "\<lparr>ha_core = Some ?m, ha_preserve_fragment = False, ha_mark = []\<rparr>"
  have v: "valid_utf8 (marker (m_cfg ?m))" using default_config_ok by (simp add: config_ok_def)
  have cookie: "is_cookie plain_library ''Cookie''"
    by (simp add: is_cookie_def equal_fold_def plain_library_def ascii_only_tables_def list_all2_refl)
  have "http_headers plain_library (Some ?a) [(''Cookie'', [''sid=1''])] = ([(''Cookie'', [default_redaction_marker])], None)"
    using v by (simp add: http_headers_def mask_header_value_def cookie full_rule_marker)
      (simp add: default_config_def)
  with headers_masked [of ?a ?m plain_library "[(''Cookie'', [''sid=1''])]"] v
  show ?thesis by (auto split: if_splits)
qed

lemma http_mask_query_spec:
  assumes "http_mask_query L m raw = Inr query"
  shows "\<exists>pairs kept. parse_pairs raw = Some pairs \<and> parse_pairs query = Some kept
    \<and> mask_values (mask_query_pair L m) (sort_key fst pairs) () = (Inr kept, ())"
proof -
  from assms have q: "mask_query (mask_query_pair L m) raw () = (Inr query, ())"
    by (auto simp: http_mask_query_def split: prod.splits sum.splits query_error.splits)
  show ?thesis
    using mask_query_spec [where raw = raw and callback = "mask_query_pair L m" and st = "()"] q
    by (auto split: option.splits prod.splits sum.splits)
qed

lemma http_mask_path_parts:
  "http_mask_path L m url = Inr url' \<Longrightarrow> url_user url' = url_user url \<and> url_raw_query url' = url_raw_query url
    \<and> url_fragment url' = url_fragment url \<and> url_host url' = url_host url \<and> url_scheme url' = url_scheme url"
  by (auto simp: http_mask_path_def split: if_splits prod.splits option.splits)

text \<open>
  C35: Masking a URL fails closed: with an error the result holds nothing but the marker;
  otherwise its userinfo is gone or the marker, its fragment is the marker unless the
  adapter preserves fragments, its query parses to the pairs the policy kept, masked, and
  scheme and host are those of the source.
\<close>

theorem url_masked:
  assumes "ha_core a = Some m"
  shows "case http_url L (Some a) (Some url) of
      (result, Some e) \<Rightarrow> result = marker_url (http_marker a)
    | (result, None) \<Rightarrow>
        url_user result = (if url_user url = None then None else Some (http_marker a, None))
      \<and> url_fragment result = (if ha_preserve_fragment a \<or> url_fragment url = [] then url_fragment url else http_marker a)
      \<and> url_host result = url_host url \<and> url_scheme result = url_scheme url
      \<and> (if url_raw_query url = [] then url_raw_query result = []
         else \<exists>pairs kept. parse_pairs (url_raw_query url) = Some pairs \<and> parse_pairs (url_raw_query result) = Some kept
           \<and> mask_values (mask_query_pair L m) (sort_key fst pairs) () = (Inr kept, ()))"
proof (cases "http_url L (Some a) (Some url)")
  case (Pair result err)
  show ?thesis
  proof (cases err)
    case (Some e)
    then show ?thesis using Pair assms by (auto simp: http_url_def split: if_splits sum.splits)
  next
    case None
    let ?u = "if url_user url = None then url else url\<lparr>url_user := Some (http_marker a, None)\<rparr>"
    have "http_mask_url L a m url = Inr result"
      using Pair None assms by (auto simp: http_url_def split: if_splits sum.splits)
    then obtain url' where p: "http_mask_path L m ?u = Inr url'"
      and r: "if url_raw_query url' = [] then result = http_mask_fragment a url'
        else \<exists>query. http_mask_query L m (url_raw_query url') = Inr query \<and> result = http_mask_fragment a (url'\<lparr>url_raw_query := query\<rparr>)"
      by (auto simp: http_mask_url_def Let_def split: sum.splits if_splits)
    note same = http_mask_path_parts [OF p]
    show ?thesis
    proof (cases "url_raw_query url = []")
      case True
      then have "result = http_mask_fragment a url'" using r same by (simp split: if_splits)
      then show ?thesis using same True by (simp add: Pair None http_mask_fragment_def split: if_splits)
    next
      case False
      then obtain query where q: "http_mask_query L m (url_raw_query url) = Inr query"
          "result = http_mask_fragment a (url'\<lparr>url_raw_query := query\<rparr>)"
        using r same by (auto split: if_splits)
      then show ?thesis using same False http_mask_query_spec [OF q(1)]
        by (simp add: Pair None http_mask_fragment_def split: if_splits)
    qed
  qed
qed

theorem url_masked_witness:
  "fst (http_url plain_library (Some \<lparr>ha_core = Some \<lparr>m_policy = PolicyFunc None, m_cfg = default_config\<rparr>,
      ha_preserve_fragment = False, ha_mark = ''***''\<rparr>) (Some (zero_url\<lparr>url_opaque := ''x''\<rparr>))) = marker_url ''***''"
  using url_masked [of "\<lparr>ha_core = Some \<lparr>m_policy = PolicyFunc None, m_cfg = default_config\<rparr>,
      ha_preserve_fragment = False, ha_mark = ''***''\<rparr>" "\<lparr>m_policy = PolicyFunc None, m_cfg = default_config\<rparr>"
      "zero_url\<lparr>url_opaque := ''x''\<rparr>" plain_library]
  by (simp add: http_url_def http_marker_def)

end
