(* ===== verification/TextMask.thy ===== *)
theory TextMask
  imports Inspect
begin

text \<open>
  What \<open>inspectText\<close> (\<open>text.go\<close>) promises: the text with some of its edits applied
  and every other byte as it was, no two of them overlapping, and an edit left out only
  where it starts inside one that was applied.
\<close>

section \<open>The edits that are kept\<close>

fun kept_edits :: "nat \<Rightarrow> text_edit list \<Rightarrow> text_edit list" where
  "kept_edits prev [] = []"
| "kept_edits prev (e # es) = (if te_start e < prev then kept_edits prev es else e # kept_edits (te_end e) es)"

text \<open>A text with edits applied, from a position on.\<close>

fun replaced :: "bytes \<Rightarrow> nat \<Rightarrow> text_edit list \<Rightarrow> bytes" where
  "replaced s pos [] = drop pos s"
| "replaced s pos (e # es) = slice s pos (te_start e) @ te_text e @ replaced s (te_end e) es"

definition edit_in :: "bytes \<Rightarrow> text_edit \<Rightarrow> bool" where
  "edit_in s e \<longleftrightarrow> te_start e < te_end e \<and> te_end e \<le> length s"

definition edit_changes :: "bytes \<Rightarrow> text_edit \<Rightarrow> bool" where
  "edit_changes s e \<longleftrightarrow> te_text e \<noteq> slice s (te_start e) (te_end e)"

lemma set_kept_edits: "set (kept_edits prev es) \<subseteq> set es"
  by (induction prev es rule: kept_edits.induct) auto

lemma kept_after: "e \<in> set (kept_edits prev es) \<Longrightarrow> \<forall>x \<in> set es. edit_in s x \<Longrightarrow> prev \<le> te_start e"
proof (induction prev es rule: kept_edits.induct)
  case (2 prev x xs)
  then show ?case by (auto simp: edit_in_def split: if_splits)
qed simp

lemma kept_apart:
  "\<forall>x \<in> set es. edit_in s x \<Longrightarrow> sorted_wrt (\<lambda>a b. te_end a \<le> te_start b) (kept_edits prev es)"
  by (induction prev es rule: kept_edits.induct) (auto intro: kept_after)

text \<open>An edit that is left out starts inside one that is kept.\<close>

lemma dropped_inside:
  assumes "sorted (map te_start es)" and "e \<in> set es" and "e \<notin> set (kept_edits prev es)" and "prev \<le> te_start e"
  shows "\<exists>k \<in> set (kept_edits prev es). te_start k \<le> te_start e \<and> te_start e < te_end k"
  using assms
proof (induction prev es rule: kept_edits.induct)
  case (2 prev x xs)
  show ?case
  proof (cases "te_start x < prev")
    case True
    then show ?thesis using 2 by auto
  next
    case False
    show ?thesis
    proof (cases "te_end x \<le> te_start e")
      case True
      then show ?thesis using 2 False by auto
    next
      case inside: False
      have "te_start x \<le> te_start e" using 2(3,4) by auto
      then show ?thesis using inside False by auto
    qed
  qed
qed simp

lemma replaced_from:
  assumes "pos \<le> prev" and "prev \<le> length s" and "\<forall>e \<in> set es. prev \<le> te_start e \<and> edit_in s e"
  shows "replaced s pos es = slice s pos prev @ replaced s prev es"
proof (cases es)
  case Nil
  have "slice s pos prev @ slice s prev (length s) = slice s pos (length s)" using assms(1,2) by (rule slice_append)
  then show ?thesis by (simp add: Nil slice_def)
next
  case (Cons e es')
  then have "slice s pos prev @ slice s prev (te_start e) = slice s pos (te_start e)"
    using assms by (intro slice_append) auto
  then show ?thesis by (simp add: Cons flip: append_assoc)
qed

lemma write_edits_replaced:
  assumes "written \<le> prev" and "prev \<le> length s" and "\<forall>e \<in> set es. edit_in s e"
  shows "write_edits s prev written es = (replaced s written (kept_edits prev es), list_ex (edit_changes s) (kept_edits prev es))"
  using assms
proof (induction s prev written es rule: write_edits.induct)
  case (2 s prev written e es)
  consider (drop) "te_start e < prev" | (same) "\<not> te_start e < prev" "\<not> edit_changes s e" | (edit) "\<not> te_start e < prev" "edit_changes s e"
    by blast
  then show ?case
  proof cases
    case drop
    then show ?thesis using 2 by simp
  next
    case same
    have e: "te_text e = slice s (te_start e) (te_end e)" "te_start e < te_end e" "te_end e \<le> length s" "written \<le> te_start e"
      using same 2(4,6) by (auto simp: edit_changes_def edit_in_def)
    have "replaced s written (kept_edits (te_end e) es) = slice s written (te_end e) @ replaced s (te_end e) (kept_edits (te_end e) es)"
      using e 2(6) set_kept_edits [of "te_end e" es] by (intro replaced_from) (auto intro: kept_after)
    moreover have "slice s written (te_end e) = slice s written (te_start e) @ te_text e"
      using e by (simp add: slice_append)
    ultimately show ?thesis using 2(2) [OF same(1) e(1)] 2(6) same e by (simp add: edit_changes_def)
  next
    case edit
    then show ?thesis using 2(3) 2(6) by (simp add: edit_changes_def edit_in_def)
  qed
qed simp

section \<open>Where the edits come from\<close>

lemma pair_edits_values:
  assumes "pair_edits L m s f depth ps st = (Some edits, st')" and "e \<in> set edits"
  shows "\<exists>p \<in> set ps. te_start e = value_start p \<and> te_end e = value_end p"
  using assms
proof (induction ps arbitrary: st edits st')
  case (Cons p ps)
  obtain masked decided keep st1 where
    d: "decide_member L m (text_member s f p) (slice s (value_start p) (value_end p)) depth st = ((masked, decided, keep), st1)"
    by (metis surj_pair)
  obtain r st2 where r: "pair_edits L m s f depth ps st1 = (r, st2)" by (metis surj_pair)
  show ?case
  proof (cases r)
    case None
    then show ?thesis using Cons.prems d r by (auto split: if_splits)
  next
    case (Some rest)
    then show ?thesis using Cons.prems Cons.IH [OF r [unfolded Some]] d r by (auto split: if_splits)
  qed
qed simp

lemma all_edits_in:
  assumes "find_secrets s dset = (spans, pairs)" and "pair_edits L m s f depth pairs st = (Some edits, st')"
    and "e \<in> set (edits @ map (span_edit m s) spans)"
  shows "edit_in s e"
proof (cases "e \<in> set edits")
  case True
  then obtain p where "p \<in> set pairs" "te_start e = value_start p" "te_end e = value_end p"
    using pair_edits_values [OF assms(2)] by blast
  then show ?thesis using hits_are_ok [of s 0 dset] assms(1)
    by (auto simp: find_secrets_hits hits_ok_def list_all_iff pair_ok_def edit_in_def)
next
  case False
  then obtain sp where "sp \<in> set spans" "e = span_edit m s sp" using assms(3) by auto
  then show ?thesis using hits_are_ok [of s 0 dset] assms(1)
    by (auto simp: find_secrets_hits hits_ok_def list_all_iff span_ok_def edit_in_def span_edit_def)
qed

lemma sorted_edits:
  assumes "sorts_by edit_order srt"
  shows "set (srt es) = set es" and "sorted (map te_start (srt es))"
proof -
  have s: "mset (srt es) = mset es" "sorted (map edit_order (srt es))" using assms by (simp_all add: sorts_by_def)
  show "set (srt es) = set es" using s(1) by (metis set_mset_mset)
  have "sorted_wrt (\<lambda>a b. edit_order a \<le> edit_order b) (srt es)" using s(2) by (simp add: sorted_map)
  then have "sorted_wrt (\<lambda>a b. te_start a \<le> te_start b) (srt es)"
    by (rule sorted_wrt_mono_rel [rotated]) (auto simp: edit_order_def less_eq_prod_def)
  then show "sorted (map te_start (srt es))" by (simp add: sorted_map)
qed

section \<open>The text with its edits\<close>

lemma kept_unchanged:
  assumes "\<not> list_ex (edit_changes s) (kept_edits prev es)" and "pos \<le> prev" and "\<forall>e \<in> set es. edit_in s e"
  shows "replaced s pos (kept_edits prev es) = drop pos s"
  using assms
proof (induction prev es arbitrary: pos rule: kept_edits.induct)
  case (2 prev e es)
  show ?case
  proof (cases "te_start e < prev")
    case False
    then have e: "te_text e = slice s (te_start e) (te_end e)" "te_start e < te_end e" "te_end e \<le> length s" "pos \<le> te_start e"
      using 2(3-5) by (auto simp: edit_changes_def edit_in_def)
    have "slice s pos (te_start e) @ slice s (te_start e) (te_end e) @ slice s (te_end e) (length s) = slice s pos (length s)"
      using e by (simp add: slice_append)
    then show ?thesis using 2 False e by (simp add: slice_def)
  qed (use 2 in simp)
qed simp

text \<open>\<open>inspectText\<close> returns the text with the kept ones of all edits applied.\<close>

lemma inspect_text_kept:
  assumes sorts: "sorts_ok L" and found: "find_secrets s (cfg_detect_set (m_cfg m)) = (spans, pairs)"
    and p: "pair_edits L m s f depth pairs st = (Some edits, st')"
    and es: "es = kept_edits 0 (sort_text_edits L (edits @ map (span_edit m s) spans))"
  shows "inspect_text L m s f depth st = ((replaced s 0 es, list_ex (edit_changes s) es), st')"
    and "set es \<subseteq> set (edits @ map (span_edit m s) spans)" and "list_all (edit_in s) es"
    and "sorted_wrt (\<lambda>a b. te_end a \<le> te_start b) es"
    and "\<And>e. e \<in> set (edits @ map (span_edit m s) spans) \<Longrightarrow>
      e \<in> set es \<or> (\<exists>k \<in> set es. te_start k \<le> te_start e \<and> te_start e < te_end k)"
proof -
  let ?all = "edits @ map (span_edit m s) spans"
  let ?sorted = "sort_text_edits L ?all"
  note order = sorted_edits [of "sort_text_edits L" ?all]
  have sorted: "set ?sorted = set ?all" "sorted (map te_start ?sorted)"
    using order sorts by (simp_all add: sorts_ok_def)
  have ins: "\<forall>e \<in> set ?sorted. edit_in s e" using all_edits_in [OF found p] sorted(1) by blast
  have w: "write_edits s 0 0 ?sorted = (replaced s 0 es, list_ex (edit_changes s) es)"
    unfolding es by (rule write_edits_replaced [OF _ _ ins]) simp_all
  have unchanged: "replaced s 0 es = s" if "\<not> list_ex (edit_changes s) es"
    using kept_unchanged [of s 0 ?sorted 0] that ins by (simp add: es)
  show "inspect_text L m s f depth st = ((replaced s 0 es, list_ex (edit_changes s) es), st')"
  proof (cases "spans = [] \<and> pairs = []")
    case True
    then have "edits = []" "st' = st" using p by auto
    then have "es = []" using True sorted(1) by (simp add: es)
    then show ?thesis using True found \<open>st' = st\<close> by (simp add: inspect_text_def)
  next
    case False
    have r: "inspect_text L m s f depth st =
        (if list_ex (edit_changes s) es then (replaced s 0 es, True) else (s, False), st')"
      unfolding inspect_text_def found prod.case if_not_P [OF False] p option.case w ..
    show ?thesis using unchanged unfolding r by (cases "list_ex (edit_changes s) es") simp_all
  qed
  show "set es \<subseteq> set ?all" using set_kept_edits [of 0 ?sorted] sorted(1) by (simp add: es)
  then show "list_all (edit_in s) es" using ins sorted(1) by (auto simp: list_all_iff)
  show "sorted_wrt (\<lambda>a b. te_end a \<le> te_start b) es" unfolding es by (rule kept_apart [OF ins])
  show "e \<in> set es \<or> (\<exists>k \<in> set es. te_start k \<le> te_start e \<and> te_start e < te_end k)" if "e \<in> set ?all" for e
    using dropped_inside [OF sorted(2), of e 0] that sorted(1) by (auto simp: es)
qed

lemma replaced_split: "\<exists>pre. replaced s pos (as @ e # bs) = pre @ te_text e @ replaced s (te_end e) bs"
  by (induction as arbitrary: pos) (simp_all, metis append_assoc)

section \<open>Properties\<close>

text \<open>
  C36: A text is returned with a list of edits applied that lie in the text, do not
  overlap and leave every other byte as it was; every edit the policy or a detector asked
  for is among them or starts inside one of them.  When the operation stops, the whole
  text becomes the marker.
\<close>

theorem text_edits_applied:
  assumes "sorts_ok L" and "find_secrets s (cfg_detect_set (m_cfg m)) = (spans, pairs)"
  shows "case pair_edits L m s f depth pairs st of
      (None, st') \<Rightarrow> inspect_text L m s f depth st = ((marker (m_cfg m), True), st')
    | (Some edits, st') \<Rightarrow> (\<exists>es. inspect_text L m s f depth st = ((replaced s 0 es, list_ex (edit_changes s) es), st')
        \<and> list_all (edit_in s) es \<and> sorted_wrt (\<lambda>a b. te_end a \<le> te_start b) es
        \<and> (\<forall>e \<in> set (edits @ map (span_edit m s) spans). e \<in> set es
            \<or> (\<exists>k \<in> set es. te_start k \<le> te_start e \<and> te_start e < te_end k)))"
proof -
  obtain r st' where p: "pair_edits L m s f depth pairs st = (r, st')" by (metis surj_pair)
  show ?thesis
  proof (cases r)
    case None
    have "pairs \<noteq> []" using p None by auto
    then show ?thesis using p None assms(2) by (simp add: inspect_text_def)
  next
    case (Some edits)
    note kept = inspect_text_kept [OF assms p [unfolded Some] refl]
    show ?thesis unfolding p Some prod.case option.case using kept(1,3,4,5) by blast
  qed
qed

text \<open>A masker that replaces every member by the marker and looks for card numbers.\<close>

definition redact_all :: masker where
  "redact_all = \<lparr>m_policy = PolicyFunc (Some (\<lambda>f. Returns \<lparr>dec_rule = Builtin FullRule, dec_omit = False\<rparr>)),
     m_cfg = default_config\<lparr>cfg_detect_set := \<lparr>cards = True, aws_key_ids = False\<rparr>\<rparr>\<rparr>"

definition text_field :: field where
  "text_field = \<lparr>f_key = [], f_path = ''$'', f_source = SourceText, f_kind = KindString\<rparr>"

definition fresh_state :: inspect_state where
  "fresh_state = \<lparr>st_nodes = 0, st_errs = [], st_stop = False\<rparr>"

lemma redact_all_config:
  "cfg_detect_set (m_cfg redact_all) = \<lparr>cards = True, aws_key_ids = False\<rparr>" "marker (m_cfg redact_all) = ''[REDACTED]''"
  by (simp_all add: redact_all_def default_config_def default_redaction_marker_def)

lemma redact_all_member:
  assumes "valid_utf8 (f_key g)"
  shows "decide_member L redact_all g v 0 fresh_state
    = ((''[REDACTED]'', True, True), fresh_state\<lparr>st_nodes := 1\<rparr>)"
proof -
  have v: "valid_utf8 ''[REDACTED]''" by (rule valid_utf8_ascii) simp
  show ?thesis using assms v
    by (simp add: decide_member_def fresh_state_def redact_all_def default_config_def call_policy_def is_nil_rule_def
        apply_rule_def rule_method_apply_def builtin_fn_def Let_def default_redaction_marker_def)
qed

text \<open>
  The leak: the policy decides the pair, whose value ends at the space; the card number
  starts one byte behind the start of that value, so its edit is left out as a whole and
  the part of the number behind the space stays in the text.
\<close>

lemma leak_found:
  "find_secrets ''secret=/4111 1111 1111 1111'' \<lparr>cards = True, aws_key_ids = False\<rparr>
    = ([\<lparr>span_start = 8, span_end = 27, span_kind = KindCard\<rparr>],
       [\<lparr>key_start = 0, key_end = 6, value_start = 7, value_end = 12\<rparr>])"
  by code_simp

lemma leak_edits:
  "pair_edits L redact_all ''secret=/4111 1111 1111 1111'' text_field 0
      [\<lparr>key_start = 0, key_end = 6, value_start = 7, value_end = 12\<rparr>] fresh_state
    = (Some [\<lparr>te_start = 7, te_end = 12, te_text = ''[REDACTED]''\<rparr>], fresh_state\<lparr>st_nodes := 1\<rparr>)"
proof -
  have "valid_utf8 (f_key (text_member ''secret=/4111 1111 1111 1111'' text_field
      \<lparr>key_start = 0, key_end = 6, value_start = 7, value_end = 12\<rparr>))"
    by (rule valid_utf8_ascii) (simp add: text_member_def Let_def slice_def)
  from redact_all_member [OF this] show ?thesis by (simp add: fresh_state_def)
qed

theorem text_edits_applied_witness:
  "\<exists>es. inspect_text plain_library redact_all ''secret=/4111 1111 1111 1111'' text_field 0 fresh_state
      = ((replaced ''secret=/4111 1111 1111 1111'' 0 es, list_ex (edit_changes ''secret=/4111 1111 1111 1111'') es),
         fresh_state\<lparr>st_nodes := 1\<rparr>)"
  using text_edits_applied [OF plain_library_sorts leak_found [folded redact_all_config(1)], of text_field 0 fresh_state]
  unfolding leak_edits by auto

text \<open>
  C37: A secret that starts inside an applied edit and ends behind it is masked only up to
  the end of that edit: behind the text of the edit the result goes on with the rest of
  the secret as it stood, where no other edit is in the way (every other one ends before
  the edit, starts inside it, or starts behind the secret).  The witness shows the last
  twelve digits of a card number behind a decided value.
\<close>

theorem partly_covered_secret_shown:
  assumes "sorts_ok L" and "find_secrets s (cfg_detect_set (m_cfg m)) = (spans, pairs)"
    and "pair_edits L m s f depth pairs st = (Some edits, st')"
    and e: "e \<in> set (edits @ map (span_edit m s) spans)"
    and "sp \<in> set spans" and "te_start e < span_start sp" and "span_start sp < te_end e" and covers: "te_end e < span_end sp"
    and alone: "\<forall>x \<in> set (edits @ map (span_edit m s) spans). x = e \<or> te_end x \<le> te_start e
      \<or> te_start e < te_start x \<and> (te_start x < te_end e \<or> span_end sp \<le> te_start x)"
  shows "\<exists>pre post. fst (fst (inspect_text L m s f depth st)) = pre @ te_text e @ slice s (te_end e) (span_end sp) @ post"
proof -
  define es where "es = kept_edits 0 (sort_text_edits L (edits @ map (span_edit m s) spans))"
  note kept = inspect_text_kept [OF assms(1-3) es_def]
  have "e \<in> set es"
  proof (rule ccontr)
    assume out: "e \<notin> set es"
    with kept(5) [OF e] obtain k where k: "k \<in> set es" "te_start k \<le> te_start e" "te_start e < te_end k" by blast
    then have "k \<noteq> e" using out by blast
    then show False using alone k kept(2) by fastforce
  qed
  then obtain as bs where es: "es = as @ e # bs" by (meson split_list)
  have "edit_in s (span_edit m s sp)" by (rule all_edits_in [OF assms(2,3)]) (use assms(5) in simp)
  then have len: "span_end sp \<le> length s" by (simp add: edit_in_def span_edit_def)
  have "\<exists>post. replaced s (te_end e) bs = slice s (te_end e) (span_end sp) @ post"
  proof (cases bs)
    case Nil
    have "drop (te_end e) s = slice s (te_end e) (span_end sp) @ drop (span_end sp) s"
      using slice_append [of "te_end e" "span_end sp" "length s" s] covers len by (simp add: slice_def)
    then show ?thesis by (simp add: Nil)
  next
    case (Cons b bs')
    have "te_end e \<le> te_start b" "b \<in> set es" using kept(4) by (simp_all add: es Cons sorted_wrt_append)
    moreover have "te_start b < te_end b" "te_start e < te_end e"
      using kept(3) by (simp_all add: es Cons edit_in_def)
    ultimately have "span_end sp \<le> te_start b" using alone kept(2) by fastforce
    then have "slice s (te_end e) (te_start b) = slice s (te_end e) (span_end sp) @ slice s (span_end sp) (te_start b)"
      using covers by (simp add: slice_append)
    then show ?thesis by (simp add: Cons)
  qed
  moreover obtain pre where "replaced s 0 es = pre @ te_text e @ replaced s (te_end e) bs"
    using replaced_split [of s 0 as e bs] es by blast
  ultimately show ?thesis using kept(1) by auto
qed

theorem partly_covered_secret_shown_witness:
  "\<exists>pre post. fst (fst (inspect_text plain_library redact_all ''secret=/4111 1111 1111 1111'' text_field 0 fresh_state))
    = pre @ ''[REDACTED] 1111 1111 1111'' @ post"
proof -
  let ?e = "\<lparr>te_start = 7, te_end = 12, te_text = ''[REDACTED]''\<rparr>"
    and ?sp = "\<lparr>span_start = 8, span_end = 27, span_kind = KindCard\<rparr>"
  have "\<exists>pre post. fst (fst (inspect_text plain_library redact_all ''secret=/4111 1111 1111 1111'' text_field 0 fresh_state))
    = pre @ te_text ?e @ slice ''secret=/4111 1111 1111 1111'' (te_end ?e) (span_end ?sp) @ post"
    by (rule partly_covered_secret_shown [OF plain_library_sorts leak_found [folded redact_all_config(1)] leak_edits])
       (simp_all add: span_edit_def)
  then show ?thesis by (simp add: slice_def)
qed

end
