(* ===== verification/JsonGrammar.thy ===== *)
theory JsonGrammar
  imports JsonLex
begin

text \<open>
  The grammar of JSON texts and the proof that \<open>skipJSONValue\<close> recognises it: the
  machine steps over exactly one value, and accepts nothing that is not one but a
  lone quotation mark that ends the text.
\<close>

section \<open>String tokens\<close>

text \<open>A body the scanner walks through: every backslash has a byte to skip, no quote is bare.\<close>

fun clean_body :: "bytes \<Rightarrow> bool" where
  "clean_body [] = True"
| "clean_body (c # cs) =
     (\<not> c < CHR 0x20 \<and>
      (if c = backslash then (case cs of [] \<Rightarrow> False | d # ds \<Rightarrow> \<not> d < CHR 0x20 \<and> clean_body ds)
       else c \<noteq> quote_char \<and> clean_body cs))"

definition plain_char :: "char \<Rightarrow> bool" where
  "plain_char c \<longleftrightarrow> \<not> c < CHR 0x20 \<and> c \<noteq> backslash \<and> c \<noteq> quote_char"

lemma clean_body_plain: "list_all plain_char p \<Longrightarrow> clean_body (p @ b) = clean_body b"
  by (induction p) (auto simp: plain_char_def)

lemma hex_value_plain: "hex_value c \<noteq> None \<Longrightarrow> plain_char c"
  by (auto simp: hex_value_def plain_char_def char_to_byte split: if_splits)

lemma hex4_split:
  assumes "hex4 s = Some (n, r)"
  obtains h where "s = h @ r" and "list_all plain_char h"
proof -
  obtain a b c d where s: "s = [a, b, c, d] @ r" and h: "hex_value a \<noteq> None" "hex_value b \<noteq> None"
      "hex_value c \<noteq> None" "hex_value d \<noteq> None"
    using assms by (cases s rule: hex4.cases) (auto split: option.splits)
  show thesis by (rule that [OF s]) (use h in \<open>simp add: hex_value_plain\<close>)
qed

lemma hex4_clean: "hex4 s = Some (n, r) \<Longrightarrow> clean_body s = clean_body r"
  by (metis hex4_split clean_body_plain)

lemma surrogate_pair_split:
  assumes "surrogate_pair hi s = Some (p, r)"
  obtains cs lo where "s = backslash # CHR ''u'' # cs" and "hex4 cs = Some (lo, r)"
  using assms by (cases "(hi, s)" rule: surrogate_pair.cases) (auto split: option.splits if_splits)

lemma clean_body_escape: "clean_body (backslash # e # b) \<longleftrightarrow> \<not> e < CHR 0x20 \<and> clean_body b"
  by (simp add: char_less_byte)

lemma clean_body_u: "hex4 s = Some (n, r) \<Longrightarrow> clean_body (backslash # CHR ''u'' # s) = clean_body r"
  by (simp only: clean_body_escape hex4_clean) (simp add: char_less_byte)

lemma surrogate_pair_clean: "surrogate_pair hi s = Some (p, r) \<Longrightarrow> clean_body s = clean_body r"
  by (erule surrogate_pair_split) (simp only: clean_body_u)

lemma simple_escape_plain: "simple_escape e = Some d \<Longrightarrow> \<not> e < CHR 0x20"
  by (auto simp: simple_escape_def char_less_byte split: if_splits)

lemma clean_body_not_ascii: "list_all (\<lambda>c. \<not> byte c < 128) p \<Longrightarrow> clean_body (p @ b) = clean_body b"
  by (rule clean_body_plain, induction p) (auto dest: not_ascii_not_special simp: plain_char_def)

lemma unquote_clean: "unquote_body b \<noteq> None \<Longrightarrow> clean_body b"
proof (induction b rule: measure_induct_rule [of length])
  case (less b)
  show ?case
  proof (cases b)
    case (Cons c cs)
    note unq = less.prems [unfolded Cons unquote_body.simps(2)]
    consider (esc) "c = backslash" | (bad) "c = quote_char \<or> c < CHR 0x20" "c \<noteq> backslash"
      | (ascii) "c \<noteq> backslash" "\<not> (c = quote_char \<or> c < CHR 0x20)" "byte c < 128"
      | (multi) "c \<noteq> backslash" "\<not> (c = quote_char \<or> c < CHR 0x20)" "\<not> byte c < 128" by blast
    then show ?thesis
    proof cases
      case esc
      then obtain e rest where cs: "cs = e # rest" using unq by (auto split: list.splits)
      show ?thesis
      proof (cases "e = CHR ''u''")
        case True
        then obtain n r where h: "hex4 rest = Some (n, r)"
          using unq esc cs by (cases "hex4 rest") auto
        have "clean_body r"
        proof (cases "55296 \<le> n \<and> n < 57344 \<and> surrogate_pair n r \<noteq> None")
          case sp: True
          then obtain p r2 where p: "surrogate_pair n r = Some (p, r2)" by auto
          then have "unquote_body r2 \<noteq> None" using unq esc cs True h sp by simp
          with p less.IH [of r2] show ?thesis
            using surrogate_pair_shorter [OF p] hex4_shorter [OF h]
            by (simp add: Cons cs surrogate_pair_clean [OF p])
        next
          case False
          then have "unquote_body r \<noteq> None" using unq esc cs True h by (auto split: if_splits option.splits)
          with less.IH [of r] show ?thesis using hex4_shorter [OF h] by (simp add: Cons cs)
        qed
        then show ?thesis by (simp only: Cons esc cs True clean_body_u [OF h])
      next
        case False
        then obtain d where d: "simple_escape e = Some d" "unquote_body rest \<noteq> None"
          using unq esc cs by (cases "simple_escape e") auto
        then show ?thesis using less.IH [of rest] simple_escape_plain [OF d(1)]
          by (simp only: Cons esc cs clean_body_escape) simp
      qed
    next
      case ascii
      then show ?thesis using unq less.IH [of cs] by (simp add: Cons)
    next
      case multi
      let ?n = "snd (decode_rune (c # cs))"
      have "clean_body (drop ?n (c # cs))"
        using unq multi less.IH [of "drop ?n (c # cs)"] decode_rune_progress [of c cs] by (simp add: Cons)
      moreover have "list_all (\<lambda>c. \<not> byte c < 128) (take ?n (c # cs))"
        unfolding list_all_iff
        using decode_multibyte_bytes [OF prod.collapse [symmetric] multi(3)] by blast
      ultimately show ?thesis
        using clean_body_not_ascii [of "take ?n (c # cs)" "drop ?n (c # cs)"] by (simp add: Cons)
    qed (use unq in auto)
  qed simp
qed

text \<open>The scanner steps over a clean body to the quote that follows it.\<close>

lemma scan_clean_body:
  "clean_body b \<Longrightarrow> scan_string_from (pre @ b @ quote_char # post) (length pre) = length pre + length b + 1"
proof (induction b arbitrary: pre rule: clean_body.induct)
  case 1
  then show ?case by (simp add: scan_string_from.simps [of _ "length pre"])
next
  case (2 c cs)
  show ?case
  proof (cases "c = backslash")
    case True
    with "2.prems" obtain d ds where cs: "cs = d # ds" "clean_body ds" by (auto split: list.splits)
    show ?thesis
      using "2.IH"(1) [OF True cs(1), of "pre @ [c, d]"] cs(2) True
      by (subst scan_string_from.simps) (simp add: cs(1))
  next
    case False
    then show ?thesis
      using "2.IH"(2) [of "pre @ [c]"] "2.prems" by (subst scan_string_from.simps) simp
  qed
qed

lemma scan_token_complete:
  assumes "string_token t"
  shows "scan_json_string_token (pre @ t @ post) (length pre) = Some (length pre + length t)"
proof -
  obtain d where "unmarshal_string t = Some d" using assms by (auto simp: string_token_def)
  from unmarshal_string_Some [OF this] obtain b
    where t: "t = quote_char # b @ [quote_char]" and b: "unquote_body b = Some d" by blast
  define data where "data = pre @ t @ post"
  have clean: "clean_body b" by (rule unquote_clean) (simp add: b)
  have e: "scan_json_string data (length pre) = length pre + length t"
    using scan_clean_body [OF clean, of "pre @ [quote_char]" post]
    by (simp add: data_def t scan_json_string_def)
  have token: "slice data (length pre) (length pre + length t) = t"
    unfolding data_def by (rule slice_middle)
  have safe: "\<not> c < CHR 0x20" if "c \<in> set b" for c
    using clean that by (induction b rule: clean_body.induct) (auto split: if_splits list.splits)
  have nth: "data ! (length pre + Suc i) = b ! i" if "i < length b" for i
    using that by (simp add: data_def t nth_append)
  define i where "i = advance (\<lambda>i. \<not> data ! i < CHR 0x20 \<and> data ! i \<noteq> backslash)
      (length pre + length t - Suc 0) (Suc (length pre))"
  have "\<not> data ! i < CHR 0x20" if "i < length pre + length t - Suc 0"
  proof -
    have "Suc (length pre) \<le> i" by (simp add: i_def advance_ge)
    then obtain k where k: "i = length pre + Suc k" by (metis add_Suc_right add_Suc le_Suc_ex)
    with that have "k < length b" by (simp add: t)
    then show ?thesis using nth [of k] safe [of "b ! k"] by (simp add: k)
  qed
  moreover have "length pre < length data" "data ! length pre = quote_char"
      "data ! (length pre + length t - 1) = quote_char" "length pre + length t \<le> length data"
      "2 \<le> length t"
    by (simp_all add: data_def t nth_append)
  ultimately show ?thesis
    using e token assms unfolding data_def [symmetric]
    by (auto simp: scan_json_string_token_def Let_def string_token_def simp flip: i_def)
qed

text \<open>
  Conversely a scanned token is well formed, or it is the quote that ends the text:
  there \<open>scanJSONString\<close> returns the position after the opening quote, and the check
  of the closing quote looks at the opening one.
\<close>

lemma unquote_plain_body:
  "\<forall>c \<in> set b. plain_char c \<Longrightarrow> unquote_body b \<noteq> None"
proof (induction b rule: measure_induct_rule [of length])
  case (less b)
  show ?case
  proof (cases b)
    case (Cons c cs)
    have c: "c \<noteq> backslash" "c \<noteq> quote_char" "\<not> c < CHR 0x20"
      using less.prems by (auto simp: Cons plain_char_def)
    let ?n = "snd (decode_rune (c # cs))"
    have "\<forall>x \<in> set (drop ?n (c # cs)). plain_char x"
      using less.prems set_drop_subset [of ?n "c # cs"] unfolding Cons by blast
    then have "unquote_body (drop ?n (c # cs)) \<noteq> None"
      using decode_rune_progress [of c cs] by (intro less.IH) (simp_all add: Cons)
    moreover have "unquote_body cs \<noteq> None" using less.prems by (intro less.IH) (auto simp: Cons)
    ultimately show ?thesis using c by (simp add: Cons unquote_body.simps(2))
  qed simp
qed

lemma scan_string_no_escape:
  assumes "\<And>k. i \<le> k \<Longrightarrow> k < scan_string_from data i - 1 \<Longrightarrow> data ! k \<noteq> backslash"
    and "i \<le> k" and "k < scan_string_from data i - 1"
  shows "data ! k \<noteq> quote_char"
  using assms
proof (induction data i rule: scan_string_from.induct)
  case (1 data i)
  show ?case
  proof (cases "i < length data \<and> data ! i \<noteq> backslash \<and> data ! i \<noteq> quote_char")
    case True
    then have step: "scan_string_from data i = scan_string_from data (i + 1)"
      by (simp add: scan_string_from.simps [of data i])
    show ?thesis
      using "1.IH"(2) "1.prems" True unfolding step by (cases "i = k") auto
  next
    case False
    have "data ! i \<noteq> backslash" using "1.prems" by simp
    then have "scan_string_from data i \<le> i + 1"
      using False by (simp add: scan_string_from.simps [of data i])
    then show ?thesis using "1.prems"(2,3) by simp
  qed
qed

lemma scan_token_sound:
  assumes "scan_json_string_token data start = Some e"
  shows "string_token (slice data start e) \<or> e = Suc start \<and> e = length data"
proof (cases "e = Suc start")
  case True
  have "start + 1 < length data \<Longrightarrow> start + 1 < scan_json_string data start"
    unfolding scan_json_string_def by (rule scan_string_from_ge)
  then show ?thesis using assms True scan_json_string_le [of data start]
    by (auto simp: scan_json_string_token_def Let_def split: if_splits)
next
  case False
  from assms have e: "e = scan_string_from data (Suc start)" "start < e" "e \<le> length data"
      "data ! start = quote_char" "data ! (e - 1) = quote_char"
    by (auto simp: scan_json_string_token_def scan_json_string_def Let_def split: if_splits)
  define i where "i = advance (\<lambda>i. \<not> data ! i < CHR 0x20 \<and> data ! i \<noteq> backslash) (e - 1) (start + 1)"
  show ?thesis
  proof (cases "i < e - 1")
    case True
    then have "unmarshal_string (slice data start e) \<noteq> None"
      using assms by (auto simp: scan_json_string_token_def scan_json_string_def Let_def i_def e(1) split: if_splits)
    then show ?thesis by (simp add: string_token_def)
  next
    case no: False
    have plain: "\<not> data ! k < CHR 0x20 \<and> data ! k \<noteq> backslash" if "start + 1 \<le> k" "k < e - 1" for k
      using advance_all [of "start + 1" k "\<lambda>i. \<not> data ! i < CHR 0x20 \<and> data ! i \<noteq> backslash" "e - 1"]
        that no unfolding i_def by simp
    have "data ! k \<noteq> quote_char" if "start + 1 \<le> k" "k < e - 1" for k
      using scan_string_no_escape [of "Suc start" data k] plain that unfolding e(1) [symmetric] by simp
    with plain have "\<forall>k. start + 1 \<le> k \<and> k < e - 1 \<longrightarrow> plain_char (data ! k)"
      by (simp add: plain_char_def)
    then have "\<forall>c \<in> set (slice data (start + 1) (e - 1)). plain_char c"
      using e(3) by (fastforce simp: in_set_conv_nth length_slice nth_slice)
    from unquote_plain_body [OF this]
    have "unmarshal_string (quote_char # slice data (start + 1) (e - 1) @ [quote_char]) \<noteq> None"
      by (simp add: unmarshal_quoted)
    moreover have "slice data start e = [quote_char] @ slice data (start + 1) (e - 1) @ [quote_char]"
      using slice_snoc [of start start data] slice_snoc [of start "e - 1" data] e False
        slice_append [of start "Suc start" "e - 1" data]
      by (simp add: slice_def [of data start start])
    ultimately show ?thesis by (simp add: string_token_def)
  qed
qed

section \<open>The grammar\<close>

definition json_ws :: "bytes \<Rightarrow> bool" where
  "json_ws w \<longleftrightarrow> list_all json_space w"

inductive json_value :: "bytes \<Rightarrow> bool" and json_members :: "bytes \<Rightarrow> bool"
    and json_elements :: "bytes \<Rightarrow> bool" where
  json_string: "string_token t \<Longrightarrow> json_value t"
| json_literal: "t \<in> {''true'', ''false'', ''null''} \<Longrightarrow> json_value t"
| json_number: "json_number_grammar t \<Longrightarrow> json_value t"
| json_object0: "json_ws w \<Longrightarrow> json_value (''{'' @ w @ ''}'')"
| json_object: "json_members m \<Longrightarrow> json_value (''{'' @ m @ ''}'')"
| json_array0: "json_ws w \<Longrightarrow> json_value (''['' @ w @ '']'')"
| json_array: "json_elements m \<Longrightarrow> json_value (''['' @ m @ '']'')"
| json_member: "\<lbrakk>json_ws w1; string_token k; json_ws w2; json_ws w3; json_value v; json_ws w4\<rbrakk>
    \<Longrightarrow> json_members (w1 @ k @ w2 @ '':'' @ w3 @ v @ w4)"
| json_member_Cons: "\<lbrakk>json_ws w1; string_token k; json_ws w2; json_ws w3; json_value v; json_ws w4;
      json_members m\<rbrakk> \<Longrightarrow> json_members (w1 @ k @ w2 @ '':'' @ w3 @ v @ w4 @ '','' @ m)"
| json_element: "\<lbrakk>json_ws w1; json_value v; json_ws w2\<rbrakk> \<Longrightarrow> json_elements (w1 @ v @ w2)"
| json_element_Cons: "\<lbrakk>json_ws w1; json_value v; json_ws w2; json_elements m\<rbrakk>
    \<Longrightarrow> json_elements (w1 @ v @ w2 @ '','' @ m)"

definition json_text :: "bytes \<Rightarrow> bool" where
  "json_text s \<longleftrightarrow> (\<exists>w1 v w2. s = w1 @ v @ w2 \<and> json_ws w1 \<and> json_value v \<and> json_ws w2)"

lemma json_ws_Nil [simp]: "json_ws []"
  by (simp add: json_ws_def)

lemma json_ws_append [simp]: "json_ws (v @ w) = (json_ws v \<and> json_ws w)"
  by (simp add: json_ws_def)

lemma json_ws_skipped: "p \<le> length data \<Longrightarrow> json_ws (slice data p (skip_json_space data p))"
proof -
  assume p: "p \<le> length data"
  have "json_space (data ! (p + i))" if "i < skip_json_space data p - p" for i
    using advance_all [of p "p + i" "\<lambda>i. json_space (data ! i)" "length data"] that
    by (simp add: skip_json_space_def)
  then show ?thesis
    using skip_json_space_le [OF p] by (auto simp: json_ws_def list_all_length length_slice nth_slice)
qed

lemma skip_json_space_idem [simp]: "skip_json_space data (skip_json_space data p) = skip_json_space data p"
  by (simp add: skip_json_space_def advance_between advance_ge)

lemma skip_json_space_ws:
  assumes "json_ws w" and "\<forall>c cs. post = c # cs \<longrightarrow> \<not> json_space c"
  shows "skip_json_space (pre @ w @ post) (length pre) = length pre + length w"
  unfolding skip_json_space_def
proof (rule advance_eqI)
  fix k
  assume "length pre \<le> k" "k < length pre + length w"
  then show "json_space ((pre @ w @ post) ! k)"
    using assms(1) by (auto simp: nth_append json_ws_def list_all_length)
next
  assume "length pre + length w < length (pre @ w @ post)"
  then show "\<not> json_space ((pre @ w @ post) ! (length pre + length w))"
    using assms(2) by (cases post) (auto simp: nth_append)
qed auto

section \<open>Every value of the grammar is stepped over\<close>

lemma string_token_quoted: "string_token t \<Longrightarrow> \<exists>b. t = quote_char # b @ [quote_char]"
  by (auto simp: string_token_def elim: unmarshal_string_Some)

definition number_char :: "char \<Rightarrow> bool" where
  "number_char c \<longleftrightarrow> json_digit c \<or> c \<in> {CHR ''-'', CHR ''+'', CHR ''.'', CHR ''e'', CHR ''E''}"

lemma number_char_not_end: "number_char c \<Longrightarrow> \<not> primitive_end c"
  by (auto simp: number_char_def primitive_end_def json_space_def json_digit_def char_to_byte)

lemma digits_number_chars: "list_all json_digit ds \<Longrightarrow> list_all number_char ds"
  by (auto simp: list_all_iff number_char_def)

lemma nonzero_digit: "CHR ''1'' \<le> d \<Longrightarrow> d \<le> CHR ''9'' \<Longrightarrow> json_digit d"
  by (simp add: json_digit_def char_le_byte)

lemma int_part_chars:
  assumes "int_part i"
  obtains d ds where "i = d # ds" and "json_digit d" and "list_all number_char i"
proof (cases "i = ''0''")
  case True
  then show thesis by (intro that [of "CHR ''0''" "[]"]) (simp_all add: json_digit_def number_char_def)
next
  case False
  with assms obtain d ds where "i = d # ds" "json_digit d" "list_all json_digit ds"
    by (auto simp: int_part_def nonzero_digit)
  then show thesis by (intro that) (simp_all add: digits_number_chars number_char_def)
qed

lemma number_grammar_chars: "json_number_grammar t \<Longrightarrow> list_all number_char t"
  unfolding json_number_grammar_def frac_part_def exp_part_def json_digits_def
  by (auto elim!: int_part_chars simp: digits_number_chars) (auto simp: number_char_def)

lemma number_grammar_head:
  assumes "json_number_grammar t"
  obtains c cs where "t = c # cs" and "c = CHR ''-'' \<or> json_digit c"
proof -
  obtain sg i r where t: "t = sg @ i @ r" "sg = [] \<or> sg = ''-''" "int_part i"
    using assms by (auto simp: json_number_grammar_def)
  from t(3) obtain d ds where "i = d # ds" "json_digit d" by (rule int_part_chars)
  then show thesis using t(1,2) that by auto
qed

text \<open>The first byte of a value is neither white space nor a closing bracket.\<close>

lemma json_value_head:
  assumes "json_value v"
  obtains c cs where "v = c # cs" and "\<not> primitive_end c"
  using assms
proof cases
  case json_string
  then show thesis using string_token_quoted that [of quote_char]
    by (auto simp: primitive_end_def json_space_def)
next
  case json_number
  then show thesis
    using number_grammar_head that number_char_not_end by (metis number_char_def insertI1)
qed (auto intro: that simp: primitive_end_def json_space_def)

definition value_delimiter :: "bytes \<Rightarrow> bool" where
  "value_delimiter post \<longleftrightarrow> (\<forall>c cs. post = c # cs \<longrightarrow> primitive_end c)"

lemma value_delimiter_ws: "json_ws w \<Longrightarrow> primitive_end c \<Longrightarrow> value_delimiter (w @ c # post)"
  by (cases w) (auto simp: value_delimiter_def primitive_end_def json_ws_def)

lemma scan_primitive_complete:
  assumes "list_all (\<lambda>c. \<not> primitive_end c) v" and "value_delimiter post"
  shows "scan_json_primitive (pre @ v @ post) (length pre) = length pre + length v"
proof -
  have "advance (\<lambda>i. \<not> primitive_end ((pre @ v @ post) ! i)) (length (pre @ v @ post)) (length pre)
      = length pre + length v"
  proof (rule advance_eqI)
    fix k
    assume "length pre \<le> k" "k < length pre + length v"
    then show "\<not> primitive_end ((pre @ v @ post) ! k)"
      using assms(1) by (auto simp: nth_append list_all_length)
  next
    assume "length pre + length v < length (pre @ v @ post)"
    then show "\<not> \<not> primitive_end ((pre @ v @ post) ! (length pre + length v))"
      using assms(2) by (cases post) (auto simp: nth_append value_delimiter_def)
  qed auto
  then show ?thesis by (simp add: scan_json_primitive_def)
qed

lemma digit_not_letter:
  "json_digit c \<Longrightarrow> c \<notin> {CHR ''{'', CHR ''['', quote_char, CHR ''t'', CHR ''f'', CHR ''n''}"
  by (auto simp: json_digit_def char_le_byte)

lemma number_kind:
  assumes "c = CHR ''-'' \<or> json_digit c" shows "stream_json_kind c = KindNumber"
proof (cases "json_digit c")
  case True
  from digit_not_letter [OF True] show ?thesis using True
    by (simp add: stream_json_kind_def json_digit_def)
next
  case False
  with assms have "c = CHR ''-''" by simp
  then show ?thesis by (simp add: stream_json_kind_def)
qed

lemma valid_stream_primitive_sound:
  "valid_stream_primitive t kind \<Longrightarrow> t \<in> {''true'', ''false'', ''null''} \<or> json_number_grammar t"
  unfolding valid_stream_primitive_def valid_json_number_iff
  by (cases kind) (simp_all only: value_kind.simps insert_iff empty_iff simp_thms, blast)

lemma valid_skipped_primitive_iff:
  "valid_skipped_primitive t \<longleftrightarrow> t \<in> {''true'', ''false'', ''null''} \<or> json_number_grammar t"
proof
  assume "valid_skipped_primitive t"
  then show "t \<in> {''true'', ''false'', ''null''} \<or> json_number_grammar t"
    by (intro valid_stream_primitive_sound [of t "stream_json_kind (t ! 0)"])
       (simp add: valid_skipped_primitive_def Let_def split: if_split_asm)
next
  assume t: "t \<in> {''true'', ''false'', ''null''} \<or> json_number_grammar t"
  show "valid_skipped_primitive t"
  proof (cases "json_number_grammar t")
    case True
    then obtain c cs where "t = c # cs" "c = CHR ''-'' \<or> json_digit c" by (rule number_grammar_head)
    then have "t \<noteq> []" "stream_json_kind (t ! 0) = KindNumber"
      by (simp_all add: number_kind)
    then show ?thesis
      using True by (simp add: valid_skipped_primitive_def valid_stream_primitive_def valid_json_number_iff)
  next
    case False
    with t have "t = ''true'' \<or> t = ''false'' \<or> t = ''null''" by blast
    then show ?thesis
      by (elim disjE)
         (simp_all only: valid_skipped_primitive_def valid_stream_primitive_def stream_json_kind_def, simp_all)
  qed
qed

text \<open>The loop once a value has ended at \<open>p\<close>, with \<open>frames\<close> still waiting for it.\<close>

definition skip_resume :: "bytes \<Rightarrow> nat \<Rightarrow> skip_frame list \<Rightarrow> nat option" where
  "skip_resume data p frames = (if frames = [] then Some p else skip_loop data (p, frames, False))"

definition skip_done :: "bytes \<Rightarrow> nat \<Rightarrow> skip_frame list \<Rightarrow> nat option" where
  "skip_done data p frames =
     (case complete_skipped_value frames of None \<Rightarrow> None | Some fs \<Rightarrow> skip_resume data p fs)"

definition skip_continue :: "bytes \<Rightarrow> nat option + skip_config \<Rightarrow> nat option" where
  "skip_continue data r = (case r of Inl result \<Rightarrow> result | Inr st \<Rightarrow> skip_loop data st)"

lemma skip_after_value_skipped:
  "frames \<noteq> [] \<Longrightarrow> skip_after_value data (skip_json_space data p) frames = skip_after_value data p frames"
  by (cases frames) (simp_all add: skip_after_value_def)

lemma skip_resume_step: "skip_resume data p frames = skip_continue data (skip_after_value data p frames)"
proof (cases "frames = []")
  case True
  then show ?thesis by (simp add: skip_resume_def skip_continue_def skip_after_value_def)
next
  case False
  then show ?thesis
    by (simp add: skip_resume_def skip_loop.simps [of data "(p, frames, False)"] skip_after_value_skipped
        skip_continue_def)
qed

lemma skip_loop_value:
  "skip_loop data (p, frames, True) = (case skip_value_part data (skip_json_space data p) frames of
       None \<Rightarrow> None | Some (q, fs) \<Rightarrow> skip_resume data q fs)"
  by (simp add: skip_loop.simps [of data "(p, frames, True)"] skip_resume_step skip_continue_def
      split: option.splits prod.splits)

lemma skip_close_done: "skip_continue data (close_skipped_frame p frames) = skip_done data p frames"
proof (cases "complete_skipped_value frames")
  case (Some fs)
  then have "fs = [] \<longleftrightarrow> frames = []"
    by (cases frames) (auto split: skip_state.splits)
  with Some show ?thesis
    by (auto simp: skip_continue_def close_skipped_frame_def skip_done_def skip_resume_def)
qed (auto simp: skip_continue_def close_skipped_frame_def skip_done_def)

text \<open>One frame step at the first byte after white space.\<close>

lemma skip_loop_frame:
  assumes "data = pre @ w @ c # post" and "json_ws w" and "\<not> json_space c"
  shows "skip_loop data (length pre, f # fs, False)
    = skip_continue data (skip_frame_part data (length pre + length w) f fs)"
proof -
  have p: "skip_json_space data (length pre) = length pre + length w"
    unfolding assms(1) using assms(2,3) by (intro skip_json_space_ws) auto
  have "skip_after_value data (length pre) (f # fs) = skip_frame_part data (length pre + length w) f fs"
    by (simp add: skip_after_value_def p) (simp add: assms(1))
  then show ?thesis
    by (simp add: skip_loop.simps [of data "(length pre, f # fs, False)"] skip_continue_def
        skip_after_value_skipped)
qed

lemma nth_after: "data = pre @ w @ c # post \<Longrightarrow> data ! (length pre + length w) = c"
  by (simp add: nth_append)

lemma skip_object_key_complete:
  assumes data: "data = pre @ w1 @ k @ w2 @ '':'' @ post" and "json_ws w1" "string_token k" "json_ws w2"
    and state: "frame_state f = SkipObjectKeyOrEnd \<and> frame_close f = CHR ''}'' \<or> frame_state f = SkipObjectKey"
  shows "skip_loop data (length pre, f # fs, False)
    = skip_loop data (length (pre @ w1 @ k @ w2 @ '':''), f\<lparr>frame_state := SkipObjectValue\<rparr> # fs, True)"
proof -
  obtain b where k: "k = quote_char # b @ [quote_char]" using string_token_quoted assms(3) by blast
  have q: "data = pre @ w1 @ quote_char # (b @ [quote_char] @ w2 @ '':'' @ post)" by (simp add: data k)
  have token: "scan_json_string_token data (length pre + length w1) = Some (length (pre @ w1 @ k))"
    using scan_token_complete [OF assms(3), of "pre @ w1" "w2 @ '':'' @ post"] by (simp add: data)
  have space: "skip_json_space data (length (pre @ w1 @ k)) = length (pre @ w1 @ k) + length w2"
    using skip_json_space_ws [OF assms(4), of "'':'' @ post" "pre @ w1 @ k"]
    by (simp add: data json_space_def)
  have colon: "data ! (length (pre @ w1 @ k) + length w2) = CHR '':''"
    using nth_after [of data "pre @ w1 @ k" w2] data by simp
  have "skip_object_key data (length pre + length w1) f fs
      = Inr (length (pre @ w1 @ k @ w2 @ '':''), f\<lparr>frame_state := SkipObjectValue\<rparr> # fs, True)"
    using colon nth_after [OF q] unfolding skip_object_key_def token Let_def option.case space
    by (simp add: data)
  moreover have "skip_frame_part data (length pre + length w1) f fs = skip_object_key data (length pre + length w1) f fs"
    using state nth_after [OF q] by (auto simp: skip_frame_part_def)
  ultimately show ?thesis
    using skip_loop_frame [OF q assms(2), of f fs] by (simp add: json_space_def skip_continue_def)
qed

lemma skip_object_comma:
  assumes data: "data = pre @ w @ c # post" and "json_ws w" and "frame_state f = SkipObjectCommaOrEnd"
  shows "c = CHR '','' \<Longrightarrow> skip_loop data (length pre, f # fs, False)
      = skip_loop data (length (pre @ w @ [c]), f\<lparr>frame_state := SkipObjectKey\<rparr> # fs, False)"
    and "c = CHR ''}'' \<Longrightarrow> skip_loop data (length pre, f # fs, False) = skip_done data (length (pre @ w @ [c])) fs"
  using skip_loop_frame [OF data assms(2), of f fs] nth_after [OF data] assms(3)
  by (simp_all add: json_space_def skip_frame_part_def skip_close_done) (simp add: skip_continue_def)

lemma skip_array_comma:
  assumes data: "data = pre @ w @ c # post" and "json_ws w" and "frame_state f = SkipArrayCommaOrEnd"
  shows "c = CHR '','' \<Longrightarrow> skip_loop data (length pre, f # fs, False)
      = skip_loop data (length (pre @ w @ [c]), f\<lparr>frame_state := SkipArrayValue\<rparr> # fs, False)"
    and "c = CHR '']'' \<Longrightarrow> skip_loop data (length pre, f # fs, False) = skip_done data (length (pre @ w @ [c])) fs"
  using skip_loop_frame [OF data assms(2), of f fs] nth_after [OF data] assms(3)
  by (simp_all add: json_space_def skip_frame_part_def skip_close_done) (simp add: skip_continue_def)

lemma skip_array_element:
  assumes data: "data = pre @ w @ v @ post" and "json_ws w" and "json_value v"
    and state: "frame_state f = SkipArrayValueOrEnd \<and> frame_close f = CHR '']'' \<or> frame_state f = SkipArrayValue"
  shows "skip_loop data (length pre, f # fs, False) = skip_loop data (length pre, f # fs, True)"
proof -
  obtain c cs where v: "v = c # cs" "\<not> primitive_end c" using assms(3) by (rule json_value_head)
  have q: "data = pre @ w @ c # (cs @ post)" by (simp add: data v)
  have p: "skip_json_space data (length pre) = length pre + length w"
    unfolding q using assms(2) v(2) by (intro skip_json_space_ws) (auto simp: primitive_end_def)
  have "skip_frame_part data (length pre + length w) f fs = Inr (length pre + length w, f # fs, True)"
    using state v(2) nth_after [OF q] by (auto simp: skip_frame_part_def primitive_end_def)
  then have "skip_loop data (length pre, f # fs, False) = skip_loop data (skip_json_space data (length pre), f # fs, True)"
    using skip_loop_frame [OF q assms(2), of f fs] v(2) by (simp add: skip_continue_def p primitive_end_def)
  then show ?thesis by (simp add: skip_loop_value)
qed

lemma skip_scalar:
  assumes data: "data = pre @ w @ v @ post" and "json_ws w" and "v \<noteq> []" and "\<not> json_space (hd v)"
    and part: "skip_value_part data (length pre + length w) frames
      = map_option (Pair (length pre + length w + length v)) (complete_skipped_value frames)"
  shows "skip_loop data (length pre, frames, True) = skip_done data (length pre + length w + length v) frames"
proof -
  have "skip_json_space data (length pre) = length pre + length w"
    unfolding data using assms(2-4) by (intro skip_json_space_ws) (auto simp: neq_Nil_conv)
  then show ?thesis by (simp add: skip_loop_value part skip_done_def split: option.splits)
qed

lemma skip_container:
  assumes data: "data = pre @ w @ c # post" and "json_ws w" and "\<not> json_space c"
    and part: "skip_value_part data (length pre + length w) frames = Some (q, fs)" and "fs \<noteq> []"
  shows "skip_loop data (length pre, frames, True) = skip_loop data (q, fs, False)"
proof -
  have "skip_json_space data (length pre) = length pre + length w"
    unfolding data using assms(2,3) by (intro skip_json_space_ws) auto
  then show ?thesis using assms(5) by (simp add: skip_loop_value part skip_resume_def)
qed

definition object_frame :: skip_frame where
  "object_frame = \<lparr>frame_close = CHR ''}'', frame_state = SkipObjectKeyOrEnd\<rparr>"

definition array_frame :: skip_frame where
  "array_frame = \<lparr>frame_close = CHR '']'', frame_state = SkipArrayValueOrEnd\<rparr>"

lemma skip_open:
  assumes data: "data = pre @ w @ c # post" and "json_ws w"
  shows "c = CHR ''{'' \<Longrightarrow> skip_loop data (length pre, frames, True)
      = skip_loop data (length (pre @ w @ [c]), object_frame # frames, False)"
    and "c = CHR ''['' \<Longrightarrow> skip_loop data (length pre, frames, True)
      = skip_loop data (length (pre @ w @ [c]), array_frame # frames, False)"
proof -
  have n: "length pre + length w < length data" by (simp add: data)
  show "c = CHR ''{'' \<Longrightarrow> skip_loop data (length pre, frames, True)
      = skip_loop data (length (pre @ w @ [c]), object_frame # frames, False)"
    using n nth_after [OF data]
    by (intro skip_container [OF data assms(2)]) (auto simp: skip_value_part_def object_frame_def json_space_def)
  show "c = CHR ''['' \<Longrightarrow> skip_loop data (length pre, frames, True)
      = skip_loop data (length (pre @ w @ [c]), array_frame # frames, False)"
    using n nth_after [OF data]
    by (intro skip_container [OF data assms(2)]) (auto simp: skip_value_part_def array_frame_def json_space_def)
qed

lemma skip_close:
  assumes data: "data = pre @ w @ c # post" and "json_ws w" and c: "frame_close f = c" "c = CHR '']'' \<or> c = CHR ''}''"
    and "frame_state f = SkipObjectKeyOrEnd \<or> frame_state f = SkipArrayValueOrEnd"
  shows "skip_loop data (length pre, f # fs, False) = skip_done data (length (pre @ w @ [c])) fs"
  using skip_loop_frame [OF data assms(2), of f fs] nth_after [OF data] c assms(5)
  by (auto simp: json_space_def skip_frame_part_def skip_close_done)

text \<open>The three statements of the induction over the grammar.\<close>

definition skips_value :: "bytes \<Rightarrow> bool" where
  "skips_value v \<longleftrightarrow> (\<forall>data pre w post frames. data = pre @ w @ v @ post \<longrightarrow> json_ws w \<longrightarrow> value_delimiter post
     \<longrightarrow> skip_loop data (length pre, frames, True) = skip_done data (length (pre @ w @ v)) frames)"

definition skips_members :: "bytes \<Rightarrow> bool" where
  "skips_members m \<longleftrightarrow> (\<forall>data pre post f fs. data = pre @ m @ CHR ''}'' # post
     \<longrightarrow> frame_state f = SkipObjectKeyOrEnd \<and> frame_close f = CHR ''}'' \<or> frame_state f = SkipObjectKey
     \<longrightarrow> skip_loop data (length pre, f # fs, False) = skip_done data (length (pre @ m @ ''}'')) fs)"

definition skips_elements :: "bytes \<Rightarrow> bool" where
  "skips_elements m \<longleftrightarrow> (\<forall>data pre post f fs. data = pre @ m @ CHR '']'' # post
     \<longrightarrow> frame_state f = SkipArrayValueOrEnd \<and> frame_close f = CHR '']'' \<or> frame_state f = SkipArrayValue
     \<longrightarrow> skip_loop data (length pre, f # fs, False) = skip_done data (length (pre @ m @ '']'')) fs)"

lemma skips_string: "string_token t \<Longrightarrow> skips_value t"
  unfolding skips_value_def
proof (intro allI impI)
  fix data pre w post frames
  assume t: "string_token t" and data: "data = pre @ w @ t @ post" and w: "json_ws w"
  obtain b where b: "t = quote_char # b @ [quote_char]" using string_token_quoted [OF t] by blast
  have q: "data = pre @ w @ quote_char # (b @ [quote_char] @ post)" by (simp add: data b)
  have "scan_json_string_token data (length pre + length w) = Some (length pre + length w + length t)"
    using scan_token_complete [OF t, of "pre @ w" post] by (simp add: data)
  moreover have "length pre + length w < length data" by (simp add: q)
  ultimately have "skip_value_part data (length pre + length w) frames
      = map_option (Pair (length pre + length w + length t)) (complete_skipped_value frames)"
    using nth_after [OF q] by (simp add: skip_value_part_def)
  then show "skip_loop data (length pre, frames, True) = skip_done data (length (pre @ w @ t)) frames"
    using skip_scalar [OF data w] by (simp add: b json_space_def add.assoc)
qed

lemma skips_primitive: "t \<in> {''true'', ''false'', ''null''} \<or> json_number_grammar t \<Longrightarrow> skips_value t"
  unfolding skips_value_def
proof (intro allI impI)
  fix data pre w post frames
  assume t: "t \<in> {''true'', ''false'', ''null''} \<or> json_number_grammar t"
    and data: "data = pre @ w @ t @ post" and w: "json_ws w" and post: "value_delimiter post"
  have v: "json_value t" using t by (auto intro: json_literal json_number)
  then obtain c cs where c: "t = c # cs" "\<not> primitive_end c" by (rule json_value_head)
  have q: "data = pre @ w @ c # (cs @ post)" by (simp add: data c)
  have "list_all (\<lambda>c. \<not> primitive_end c) t"
    using t number_grammar_chars number_char_not_end
    by (auto simp: list_all_iff primitive_end_def json_space_def)
  from scan_primitive_complete [OF this post, of "pre @ w"]
  have e: "scan_json_primitive data (length pre + length w) = length pre + length w + length t"
    by (simp add: data)
  have tok: "valid_skipped_primitive (slice data (length pre + length w) (length pre + length w + length t))"
    using slice_middle [of "pre @ w" t post] t by (simp add: data valid_skipped_primitive_iff add.assoc)
  have "c \<noteq> quote_char \<and> c \<noteq> CHR ''{'' \<and> c \<noteq> CHR ''[''"
    using t digit_not_letter [of c] by (auto simp: c(1) elim: number_grammar_head)
  then have "skip_value_part data (length pre + length w) frames
      = map_option (Pair (length pre + length w + length t)) (complete_skipped_value frames)"
    using nth_after [OF q] e tok c(1) by (simp add: skip_value_part_def data)
  then show "skip_loop data (length pre, frames, True) = skip_done data (length (pre @ w @ t)) frames"
    using skip_scalar [OF data w] c by (simp add: primitive_end_def add.assoc)
qed

lemma skips_member_value:
  assumes data: "data = pre @ w1 @ k @ w2 @ '':'' @ w3 @ v @ w4 @ c # post"
    and "json_ws w1" "string_token k" "json_ws w2" "json_ws w3" "skips_value v" "json_ws w4" "primitive_end c"
    and state: "frame_state f = SkipObjectKeyOrEnd \<and> frame_close f = CHR ''}'' \<or> frame_state f = SkipObjectKey"
  shows "skip_loop data (length pre, f # fs, False)
    = skip_loop data (length (pre @ w1 @ k @ w2 @ '':'' @ w3 @ v), f\<lparr>frame_state := SkipObjectCommaOrEnd\<rparr> # fs, False)"
proof -
  have "skip_loop data (length (pre @ w1 @ k @ w2 @ '':''), f\<lparr>frame_state := SkipObjectValue\<rparr> # fs, True)
      = skip_done data (length ((pre @ w1 @ k @ w2 @ '':'') @ w3 @ v)) (f\<lparr>frame_state := SkipObjectValue\<rparr> # fs)"
    using assms(6) unfolding skips_value_def
    by (elim allE [of _ data] allE [of _ "pre @ w1 @ k @ w2 @ '':''"] allE [of _ w3] allE [of _ "w4 @ c # post"])
       (simp add: data assms(5) value_delimiter_ws [OF assms(7,8)])
  then show ?thesis
    using skip_object_key_complete [OF data assms(2-4) state] by (simp add: skip_done_def skip_resume_def)
qed

lemma skips_element_value:
  assumes data: "data = pre @ w1 @ v @ w2 @ c # post"
    and "json_ws w1" "json_value v" "skips_value v" "json_ws w2" "primitive_end c"
    and state: "frame_state f = SkipArrayValueOrEnd \<and> frame_close f = CHR '']'' \<or> frame_state f = SkipArrayValue"
  shows "skip_loop data (length pre, f # fs, False)
    = skip_loop data (length (pre @ w1 @ v), f\<lparr>frame_state := SkipArrayCommaOrEnd\<rparr> # fs, False)"
proof -
  have "skip_loop data (length pre, f # fs, True) = skip_done data (length (pre @ w1 @ v)) (f # fs)"
    using assms(4) unfolding skips_value_def
    by (elim allE [of _ data] allE [of _ pre] allE [of _ w1] allE [of _ "w2 @ c # post"])
       (simp add: data assms(2) value_delimiter_ws [OF assms(5,6)])
  also have "\<dots> = skip_loop data (length (pre @ w1 @ v), f\<lparr>frame_state := SkipArrayCommaOrEnd\<rparr> # fs, False)"
    using state by (auto simp: skip_done_def skip_resume_def)
  finally show ?thesis using skip_array_element [OF data assms(2,3) state] by simp
qed

lemma skips_container:
  assumes "c = CHR ''{'' \<and> d = CHR ''}'' \<and> f = object_frame \<or> c = CHR ''['' \<and> d = CHR '']'' \<and> f = array_frame"
    and "\<And>data pre post fs. data = pre @ m @ d # post
      \<Longrightarrow> skip_loop data (length pre, f # fs, False) = skip_done data (length (pre @ m @ [d])) fs"
  shows "skips_value (c # m @ [d])"
  unfolding skips_value_def
proof (intro allI impI)
  fix data pre w post frames
  assume data: "data = pre @ w @ (c # m @ [d]) @ post" and w: "json_ws w"
  have q: "data = pre @ w @ c # (m @ d # post)" by (simp add: data)
  have "skip_loop data (length pre, frames, True) = skip_loop data (length (pre @ w @ [c]), f # frames, False)"
    using assms(1) skip_open [OF q w, of frames] by auto
  also have "\<dots> = skip_done data (length ((pre @ w @ [c]) @ m @ [d])) frames"
    by (rule assms(2)) (simp add: data)
  finally show "skip_loop data (length pre, frames, True) = skip_done data (length (pre @ w @ c # m @ [d])) frames"
    by simp
qed

lemma skips_membersI:
  assumes "\<And>data pre post f fs. data = pre @ m @ CHR ''}'' # post
      \<Longrightarrow> frame_state f = SkipObjectKeyOrEnd \<and> frame_close f = CHR ''}'' \<or> frame_state f = SkipObjectKey
      \<Longrightarrow> skip_loop data (length pre, f # fs, False) = skip_done data (length (pre @ m @ ''}'')) fs"
  shows "skips_members m"
  using assms unfolding skips_members_def by blast

lemma skips_elementsI:
  assumes "\<And>data pre post f fs. data = pre @ m @ CHR '']'' # post
      \<Longrightarrow> frame_state f = SkipArrayValueOrEnd \<and> frame_close f = CHR '']'' \<or> frame_state f = SkipArrayValue
      \<Longrightarrow> skip_loop data (length pre, f # fs, False) = skip_done data (length (pre @ m @ '']'')) fs"
  shows "skips_elements m"
  using assms unfolding skips_elements_def by blast

lemma skips_membersD:
  "skips_members m \<Longrightarrow> data = pre @ m @ CHR ''}'' # post
    \<Longrightarrow> frame_state f = SkipObjectKeyOrEnd \<and> frame_close f = CHR ''}'' \<or> frame_state f = SkipObjectKey
    \<Longrightarrow> skip_loop data (length pre, f # fs, False) = skip_done data (length (pre @ m @ ''}'')) fs"
  unfolding skips_members_def by blast

lemma skips_elementsD:
  "skips_elements m \<Longrightarrow> data = pre @ m @ CHR '']'' # post
    \<Longrightarrow> frame_state f = SkipArrayValueOrEnd \<and> frame_close f = CHR '']'' \<or> frame_state f = SkipArrayValue
    \<Longrightarrow> skip_loop data (length pre, f # fs, False) = skip_done data (length (pre @ m @ '']'')) fs"
  unfolding skips_elements_def by blast

lemma skips_grammar:
  shows "json_value v \<Longrightarrow> skips_value v"
    and "json_members m \<Longrightarrow> skips_members m"
    and "json_elements e \<Longrightarrow> skips_elements e"
proof (induction rule: json_value_json_members_json_elements.inducts)
  case (json_object0 w)
  have "skips_value (CHR ''{'' # w @ [CHR ''}''])"
  proof (rule skips_container [of _ _ object_frame])
    fix data pre post fs
    assume data: "data = pre @ w @ CHR ''}'' # post"
    show "skip_loop data (length pre, object_frame # fs, False) = skip_done data (length (pre @ w @ [CHR ''}''])) fs"
      by (rule skip_close [OF data json_object0]) (simp_all add: object_frame_def)
  qed simp
  then show ?case by simp
next
  case (json_object m)
  have "skips_value (CHR ''{'' # m @ [CHR ''}''])"
    by (rule skips_container [of _ _ object_frame])
       (auto simp: object_frame_def skips_membersD [OF json_object.IH])
  then show ?case by simp
next
  case (json_array0 w)
  have "skips_value (CHR ''['' # w @ [CHR '']''])"
  proof (rule skips_container [of _ _ array_frame])
    fix data pre post fs
    assume data: "data = pre @ w @ CHR '']'' # post"
    show "skip_loop data (length pre, array_frame # fs, False) = skip_done data (length (pre @ w @ [CHR '']''])) fs"
      by (rule skip_close [OF data json_array0]) (simp_all add: array_frame_def)
  qed simp
  then show ?case by simp
next
  case (json_array m)
  have "skips_value (CHR ''['' # m @ [CHR '']''])"
    by (rule skips_container [of _ _ array_frame])
       (auto simp: array_frame_def skips_elementsD [OF json_array.IH])
  then show ?case by simp
next
  case (json_member w1 k w2 w3 v w4)
  show ?case
  proof (rule skips_membersI)
    fix data pre post and f :: skip_frame and fs
    assume data: "data = pre @ (w1 @ k @ w2 @ '':'' @ w3 @ v @ w4) @ CHR ''}'' # post"
      and f: "frame_state f = SkipObjectKeyOrEnd \<and> frame_close f = CHR ''}'' \<or> frame_state f = SkipObjectKey"
    have "skip_loop data (length pre, f # fs, False)
        = skip_loop data (length (pre @ w1 @ k @ w2 @ '':'' @ w3 @ v), f\<lparr>frame_state := SkipObjectCommaOrEnd\<rparr> # fs, False)"
      by (rule skips_member_value [OF _ json_member.hyps(1-4) json_member.IH json_member.hyps(6) _ f,
            where c = "CHR ''}''" and post = post])
        (simp_all add: data primitive_end_def)
    also have "\<dots> = skip_done data (length ((pre @ w1 @ k @ w2 @ '':'' @ w3 @ v) @ w4 @ ''}'')) fs"
      by (rule skip_object_comma(2) [OF _ json_member.hyps(6), where post = post]) (simp_all add: data)
    finally show "skip_loop data (length pre, f # fs, False)
        = skip_done data (length (pre @ (w1 @ k @ w2 @ '':'' @ w3 @ v @ w4) @ ''}'')) fs" by simp
  qed
next
  case (json_member_Cons w1 k w2 w3 v w4 m)
  show ?case
  proof (rule skips_membersI)
    fix data pre post and f :: skip_frame and fs
    assume data: "data = pre @ (w1 @ k @ w2 @ '':'' @ w3 @ v @ w4 @ '','' @ m) @ CHR ''}'' # post"
      and f: "frame_state f = SkipObjectKeyOrEnd \<and> frame_close f = CHR ''}'' \<or> frame_state f = SkipObjectKey"
    let ?p = "pre @ w1 @ k @ w2 @ '':'' @ w3 @ v"
    have "skip_loop data (length pre, f # fs, False)
        = skip_loop data (length ?p, f\<lparr>frame_state := SkipObjectCommaOrEnd\<rparr> # fs, False)"
      by (rule skips_member_value [OF _ json_member_Cons.hyps(1-4) json_member_Cons.IH(1) json_member_Cons.hyps(6) _ f,
            where c = "CHR '',''" and post = "m @ CHR ''}'' # post"])
         (simp_all add: data primitive_end_def)
    also have "\<dots> = skip_loop data (length (?p @ w4 @ '',''), f\<lparr>frame_state := SkipObjectKey\<rparr> # fs, False)"
      using skip_object_comma(1) [OF _ json_member_Cons.hyps(6), where pre = ?p and c = "CHR '',''"
          and post = "m @ CHR ''}'' # post" and data = data and f = "f\<lparr>frame_state := SkipObjectCommaOrEnd\<rparr>"]
      by (simp add: data)
    also have "\<dots> = skip_done data (length ((?p @ w4 @ '','') @ m @ ''}'')) fs"
      by (rule skips_membersD [OF json_member_Cons.IH(2), where post = post]) (simp_all add: data)
    finally show "skip_loop data (length pre, f # fs, False)
        = skip_done data (length (pre @ (w1 @ k @ w2 @ '':'' @ w3 @ v @ w4 @ '','' @ m) @ ''}'')) fs" by simp
  qed
next
  case (json_element w1 v w2)
  show ?case
  proof (rule skips_elementsI)
    fix data pre post and f :: skip_frame and fs
    assume data: "data = pre @ (w1 @ v @ w2) @ CHR '']'' # post"
      and f: "frame_state f = SkipArrayValueOrEnd \<and> frame_close f = CHR '']'' \<or> frame_state f = SkipArrayValue"
    have "skip_loop data (length pre, f # fs, False)
        = skip_loop data (length (pre @ w1 @ v), f\<lparr>frame_state := SkipArrayCommaOrEnd\<rparr> # fs, False)"
      by (rule skips_element_value [OF _ json_element.hyps(1,2) json_element.IH json_element.hyps(3) _ f,
            where c = "CHR '']''" and post = post])
         (simp_all add: data primitive_end_def)
    also have "\<dots> = skip_done data (length ((pre @ w1 @ v) @ w2 @ '']'')) fs"
      by (rule skip_array_comma(2) [where post = post]) (simp_all add: data json_element)
    finally show "skip_loop data (length pre, f # fs, False) = skip_done data (length (pre @ (w1 @ v @ w2) @ '']'')) fs"
      by simp
  qed
next
  case (json_element_Cons w1 v w2 m)
  show ?case
  proof (rule skips_elementsI)
    fix data pre post and f :: skip_frame and fs
    assume data: "data = pre @ (w1 @ v @ w2 @ '','' @ m) @ CHR '']'' # post"
      and f: "frame_state f = SkipArrayValueOrEnd \<and> frame_close f = CHR '']'' \<or> frame_state f = SkipArrayValue"
    have "skip_loop data (length pre, f # fs, False)
        = skip_loop data (length (pre @ w1 @ v), f\<lparr>frame_state := SkipArrayCommaOrEnd\<rparr> # fs, False)"
      by (rule skips_element_value [OF _ json_element_Cons.hyps(1,2) json_element_Cons.IH(1) json_element_Cons.hyps(3) _ f,
            where c = "CHR '',''" and post = "m @ CHR '']'' # post"])
         (simp_all add: data primitive_end_def)
    also have "\<dots> = skip_loop data (length ((pre @ w1 @ v) @ w2 @ '',''), f\<lparr>frame_state := SkipArrayValue\<rparr> # fs, False)"
      using skip_array_comma(1) [OF _ json_element_Cons.hyps(3), where pre = "pre @ w1 @ v" and c = "CHR '',''"
          and post = "m @ CHR '']'' # post" and data = data and f = "f\<lparr>frame_state := SkipArrayCommaOrEnd\<rparr>"]
      by (simp add: data)
    also have "\<dots> = skip_done data (length (((pre @ w1 @ v) @ w2 @ '','') @ m @ '']'')) fs"
      by (rule skips_elementsD [OF json_element_Cons.IH(2), where post = post]) (simp_all add: data)
    finally show "skip_loop data (length pre, f # fs, False)
        = skip_done data (length (pre @ (w1 @ v @ w2 @ '','' @ m) @ '']'')) fs" by simp
  qed
qed (auto intro: skips_string skips_primitive)

lemma json_text_valid: "json_text data \<Longrightarrow> valid_json_document data"
proof -
  assume "json_text data"
  then obtain w1 v w2 where data: "data = w1 @ v @ w2" and w: "json_ws w1" "json_ws w2" and v: "json_value v"
    by (auto simp: json_text_def)
  obtain c cs where c: "v = c # cs" "\<not> primitive_end c" using v by (rule json_value_head)
  have delimiter: "value_delimiter w2" using w(2) by (auto simp: value_delimiter_def primitive_end_def json_ws_def)
  have p: "skip_json_space data 0 = length w1"
    using skip_json_space_ws [OF w(1), of "v @ w2" "[]"] c by (simp add: data primitive_end_def)
  have "data = [] @ w1 @ v @ w2" by (simp add: data)
  from skips_grammar(1) [OF v, unfolded skips_value_def, rule_format, OF this w(1) delimiter, of "[]"]
  have "skip_loop data (0, [], True) = Some (length (w1 @ v))"
    by (simp add: skip_done_def skip_resume_def)
  then have "skip_loop data (length w1, [], True) = Some (length (w1 @ v))"
    using skip_json_space_idem [of data 0] by (simp add: skip_loop_value p)
  moreover have "skip_json_space data (length (w1 @ v)) = length data"
    using skip_json_space_ws [OF w(2), of "[]" "w1 @ v"] by (simp add: data)
  ultimately show ?thesis
    by (simp add: valid_json_document_def skip_json_value_def p) (simp add: data c)
qed

section \<open>Nothing else is accepted\<close>

text \<open>
  What a frame still expects, up to and with its closing bracket, and the text that
  completes a stack of frames once the value the top frame waits for is read.
\<close>

definition frame_rest :: "skip_frame \<Rightarrow> bytes \<Rightarrow> bool" where
  "frame_rest f a \<longleftrightarrow> (case frame_state f of
       SkipObjectKeyOrEnd \<Rightarrow> (\<exists>w. a = w @ [frame_close f] \<and> json_ws w) \<or> (\<exists>m. a = m @ ''}'' \<and> json_members m)
     | SkipObjectKey \<Rightarrow> (\<exists>m. a = m @ ''}'' \<and> json_members m)
     | SkipObjectValue \<Rightarrow> (\<exists>w1 v w2. a = w1 @ v @ w2 @ ''}'' \<and> json_ws w1 \<and> json_value v \<and> json_ws w2)
         \<or> (\<exists>w1 v w2 m. a = w1 @ v @ w2 @ '','' @ m @ ''}'' \<and> json_ws w1 \<and> json_value v \<and> json_ws w2 \<and> json_members m)
     | SkipObjectCommaOrEnd \<Rightarrow> (\<exists>w. a = w @ ''}'' \<and> json_ws w)
         \<or> (\<exists>w m. a = w @ '','' @ m @ ''}'' \<and> json_ws w \<and> json_members m)
     | SkipArrayValueOrEnd \<Rightarrow> (\<exists>w. a = w @ [frame_close f] \<and> json_ws w) \<or> (\<exists>m. a = m @ '']'' \<and> json_elements m)
     | SkipArrayValue \<Rightarrow> (\<exists>m. a = m @ '']'' \<and> json_elements m)
     | SkipArrayCommaOrEnd \<Rightarrow> (\<exists>w. a = w @ '']'' \<and> json_ws w)
         \<or> (\<exists>w m. a = w @ '','' @ m @ '']'' \<and> json_ws w \<and> json_elements m))"

fun outer_rest :: "skip_frame list \<Rightarrow> bytes \<Rightarrow> bool" where
  "outer_rest [] s = (s = [])"
| "outer_rest (f # fs) s = (\<exists>g a b. complete_skipped_value [f] = Some [g] \<and> s = a @ b \<and> frame_rest g a \<and> outer_rest fs b)"

definition frames_rest :: "skip_frame list \<Rightarrow> bytes \<Rightarrow> bool" where
  "frames_rest frames s \<longleftrightarrow> (case frames of
       [] \<Rightarrow> s = []
     | f # fs \<Rightarrow> \<exists>a b. s = a @ b \<and> frame_rest f a \<and> outer_rest fs b)"

definition value_rest :: "skip_frame list \<Rightarrow> bytes \<Rightarrow> bool" where
  "value_rest frames s \<longleftrightarrow> (\<exists>w v r. s = w @ v @ r \<and> json_ws w \<and> json_value v \<and> outer_rest frames r)"

definition lone_quote :: "bytes \<Rightarrow> nat \<Rightarrow> nat \<Rightarrow> bool" where
  "lone_quote data p e \<longleftrightarrow> e = length data \<and> (\<exists>w. slice data p e = w @ [quote_char] \<and> json_ws w)"

lemma complete_rest:
  assumes "complete_skipped_value frames = Some fs" and "frames_rest fs s"
  shows "outer_rest frames s"
proof (cases frames)
  case Nil
  with assms show ?thesis by (simp add: frames_rest_def)
next
  case (Cons f rest)
  then obtain g where "complete_skipped_value [f] = Some [g]" "fs = g # rest"
    using assms(1) by (auto split: skip_state.splits)
  with assms(2) Cons show ?thesis by (auto simp: frames_rest_def)
qed

lemma members_ws:
  assumes "json_members m" and "json_ws w" shows "json_members (w @ m)"
  using assms(1)
proof cases
  case (json_member w1 k w2 w3 v w4)
  then have "json_members ((w @ w1) @ k @ w2 @ '':'' @ w3 @ v @ w4)"
    using assms(2) by (intro json_value_json_members_json_elements.json_member) simp_all
  then show ?thesis by (simp add: json_member(1))
next
  case (json_member_Cons w1 k w2 w3 v w4 m')
  then have "json_members ((w @ w1) @ k @ w2 @ '':'' @ w3 @ v @ w4 @ '','' @ m')"
    using assms(2) by (intro json_value_json_members_json_elements.json_member_Cons) simp_all
  then show ?thesis by (simp add: json_member_Cons(1))
qed

lemma elements_ws:
  assumes "json_elements m" and "json_ws w" shows "json_elements (w @ m)"
  using assms(1)
proof cases
  case (json_element w1 v w2)
  then have "json_elements ((w @ w1) @ v @ w2)"
    using assms(2) by (intro json_value_json_members_json_elements.json_element) simp_all
  then show ?thesis by (simp add: json_element(1))
next
  case (json_element_Cons w1 v w2 m')
  then have "json_elements ((w @ w1) @ v @ w2 @ '','' @ m')"
    using assms(2) by (intro json_value_json_members_json_elements.json_element_Cons) simp_all
  then show ?thesis by (simp add: json_element_Cons(1))
qed

lemma frame_rest_ws:
  assumes "frame_rest f a" and "json_ws w" shows "frame_rest f (w @ a)"
proof -
  have 1: "(\<exists>u. a = u @ c \<and> json_ws u) \<Longrightarrow> (\<exists>u. w @ a = u @ c \<and> json_ws u)" for c
    using assms(2) by (metis json_ws_append append_assoc)
  have 2: "(\<exists>m. a = m @ c \<and> json_members m) \<Longrightarrow> (\<exists>m. w @ a = m @ c \<and> json_members m)" for c
    using assms(2) by (metis members_ws append_assoc)
  have 3: "(\<exists>m. a = m @ c \<and> json_elements m) \<Longrightarrow> (\<exists>m. w @ a = m @ c \<and> json_elements m)" for c
    using assms(2) by (metis elements_ws append_assoc)
  have 4: "(\<exists>u m. a = u @ c @ m @ d \<and> json_ws u \<and> P m) \<Longrightarrow> (\<exists>u m. w @ a = u @ c @ m @ d \<and> json_ws u \<and> P m)"
    for c d P using assms(2) by (metis json_ws_append append_assoc)
  have 5: "(\<exists>w1 v w2. a = w1 @ v @ w2 @ d \<and> json_ws w1 \<and> P v w2)
      \<Longrightarrow> (\<exists>w1 v w2. w @ a = w1 @ v @ w2 @ d \<and> json_ws w1 \<and> P v w2)" for d P
    using assms(2) by (metis json_ws_append append_assoc)
  have 6: "(\<exists>w1 v w2 m. a = w1 @ v @ w2 @ c @ m @ d \<and> json_ws w1 \<and> P v w2 m)
      \<Longrightarrow> (\<exists>w1 v w2 m. w @ a = w1 @ v @ w2 @ c @ m @ d \<and> json_ws w1 \<and> P v w2 m)" for c d P
    using assms(2) by (metis json_ws_append append_assoc)
  show ?thesis
    using assms(1) unfolding frame_rest_def
    by - (cases "frame_state f"; simp only: skip_state.case; (elim disjE)?;
        (rule disjI1, erule 1 | rule disjI1, erule 5 | rule disjI2, erule 2 | rule disjI2, erule 3
         | rule disjI2, erule 4 | rule disjI2, erule 6 | erule 2 | erule 3))
qed

lemma frame_rest_nonempty: "frame_rest f a \<Longrightarrow> a \<noteq> []"
  by (auto simp: frame_rest_def split: skip_state.splits)

lemma frames_rest_ws: "frames \<noteq> [] \<Longrightarrow> frames_rest frames s \<Longrightarrow> json_ws w \<Longrightarrow> frames_rest frames (w @ s)"
  by (cases frames) (auto simp: frames_rest_def, metis frame_rest_ws append_assoc)

definition skip_sound :: "bytes \<Rightarrow> skip_config \<Rightarrow> nat \<Rightarrow> bool" where
  "skip_sound data st e \<longleftrightarrow> (case st of (p, frames, needValue) \<Rightarrow> p \<le> length data \<longrightarrow> p \<le> e \<and> e \<le> length data \<and>
     (if needValue then value_rest frames (slice data p e) \<or> frames = [] \<and> lone_quote data p e
      else frames \<noteq> [] \<longrightarrow> frames_rest frames (slice data p e)))"

text \<open>A round that goes on has a sound configuration to go on with.\<close>

definition sound_result :: "bytes \<Rightarrow> nat option + skip_config \<Rightarrow> nat \<Rightarrow> bool" where
  "sound_result data r e \<longleftrightarrow> (case r of Inl x \<Rightarrow> x = Some e | Inr st \<Rightarrow> skip_sound data st e)"

lemma slice_empty [simp]: "slice s a a = []"
  by (simp add: slice_def)

lemma slice_step:
  assumes "a < b" and "b \<le> length s"
  shows "slice s a b = s ! a # slice s (Suc a) b"
proof -
  have "slice s a b = slice s a (Suc a) @ slice s (Suc a) b"
    using assms by (simp add: slice_append)
  then show ?thesis using assms slice_snoc [of a a s] by simp
qed

lemma close_sound:
  assumes "sound_result data (close_skipped_frame p fs) e" and "p \<le> length data"
  shows "p \<le> e \<and> e \<le> length data \<and> outer_rest fs (slice data p e)"
proof (cases "fs = []")
  case True
  then show ?thesis using assms by (simp add: sound_result_def close_skipped_frame_def)
next
  case False
  then obtain fs' where "complete_skipped_value fs = Some fs'" "skip_sound data (p, fs', False) e"
    using assms by (auto simp: sound_result_def close_skipped_frame_def split: option.splits)
  moreover from this(1) False have "fs' \<noteq> []" by (cases fs) (auto split: skip_state.splits)
  ultimately show ?thesis using assms(2) complete_rest by (auto simp: skip_sound_def)
qed

lemma frame_rest_closeI:
  "frame_state f = SkipObjectKeyOrEnd \<or> frame_state f = SkipArrayValueOrEnd \<Longrightarrow> frame_rest f [frame_close f]"
  "frame_state f = SkipObjectCommaOrEnd \<Longrightarrow> frame_rest f ''}''"
  "frame_state f = SkipArrayCommaOrEnd \<Longrightarrow> frame_rest f '']''"
  by (auto simp: frame_rest_def)

lemma frames_restI: "frame_rest f a \<Longrightarrow> outer_rest fs b \<Longrightarrow> frames_rest (f # fs) (a @ b)"
  by (auto simp: frames_rest_def)

lemma close_frame_sound:
  assumes "sound_result data (close_skipped_frame (Suc p) fs) e" and "p < length data" and "frame_rest f [data ! p]"
  shows "p \<le> e \<and> e \<le> length data \<and> frames_rest (f # fs) (slice data p e)"
  using close_sound [OF assms(1)] assms(2) frames_restI [OF assms(3)] by (simp add: slice_step)

lemma key_frame_sound:
  assumes r: "sound_result data (skip_object_key data p f fs) e" and p: "p < length data"
    and f: "frame_state f = SkipObjectKeyOrEnd \<or> frame_state f = SkipObjectKey"
  shows "p \<le> e \<and> e \<le> length data \<and> frames_rest (f # fs) (slice data p e)"
proof -
  let ?f = "f\<lparr>frame_state := SkipObjectValue\<rparr>" and ?g = "f\<lparr>frame_state := SkipObjectCommaOrEnd\<rparr>"
  obtain k where k: "scan_json_string_token data p = Some k"
    and q: "skip_json_space data k < length data" "data ! skip_json_space data k = CHR '':''"
    and s: "skip_sound data (Suc (skip_json_space data k), ?f # fs, True) e"
    using r by (auto simp: sound_result_def skip_object_key_def Let_def split: if_splits option.splits)
  let ?q = "skip_json_space data k"
  have le: "p < k" "k \<le> length data" "k \<le> ?q" using scan_token_bounds [OF k] skip_json_space_ge by auto
  have qe: "Suc ?q \<le> e" "e \<le> length data" and v: "value_rest (?f # fs) (slice data (Suc ?q) e)"
    using s q(1) by (auto simp: skip_sound_def)
  have key: "string_token (slice data p k)" using scan_token_sound [OF k] q(1) le by auto
  have ws: "json_ws (slice data k ?q)" by (rule json_ws_skipped [OF le(2)])
  obtain w v a b where split: "slice data (Suc ?q) e = w @ v @ a @ b" and w: "json_ws w" and val: "json_value v"
    and a: "frame_rest ?g a" and b: "outer_rest fs b"
    using v by (auto simp: value_rest_def)
  have "slice data p e = slice data p k @ slice data k ?q @ '':'' @ slice data (Suc ?q) e"
    using le qe q slice_step [of ?q e data] slice_append [of p k e data] slice_append [of k ?q e data] by simp
  then have whole: "slice data p e = (slice data p k @ slice data k ?q @ '':'' @ w @ v @ a) @ b" by (simp add: split)
  have "(\<exists>u. a = u @ ''}'' \<and> json_ws u) \<or> (\<exists>u m. a = u @ '','' @ m @ ''}'' \<and> json_ws u \<and> json_members m)"
    using a by (simp add: frame_rest_def)
  then have "\<exists>m. slice data p k @ slice data k ?q @ '':'' @ w @ v @ a = m @ ''}'' \<and> json_members m"
  proof (elim disjE exE conjE)
    fix u assume "a = u @ ''}''" "json_ws u"
    then show ?thesis using json_member [OF json_ws_Nil key ws w val] by (metis append_Nil append_assoc)
  next
    fix u m assume u: "a = u @ '','' @ m @ ''}''" "json_ws u" "json_members m"
    have "json_members ([] @ slice data p k @ slice data k ?q @ '':'' @ w @ v @ u @ '','' @ m)"
      by (rule json_member_Cons [OF json_ws_Nil key ws w val u(2,3)])
    then show ?thesis by (intro exI [of _ "slice data p k @ slice data k ?q @ '':'' @ w @ v @ u @ '','' @ m"]) (simp add: u(1))
  qed
  then have "frame_rest f (slice data p k @ slice data k ?q @ '':'' @ w @ v @ a)"
    using f by (auto simp: frame_rest_def)
  from frames_restI [OF this b] have "frames_rest (f # fs) (slice data p e)" by (simp only: whole)
  then show ?thesis using le qe by simp
qed

lemma need_value_sound:
  assumes "sound_result data (Inr (p, f # fs, True)) e" and "p \<le> length data"
    and "frame_state f = SkipArrayValueOrEnd \<or> frame_state f = SkipArrayValue \<or> frame_state f = SkipObjectValue"
  shows "p \<le> e \<and> e \<le> length data \<and> frames_rest (f # fs) (slice data p e)"
proof -
  have e: "p \<le> e" "e \<le> length data" and v: "value_rest (f # fs) (slice data p e)"
    using assms(1,2) by (auto simp: sound_result_def skip_sound_def)
  then obtain w v g a b where split: "slice data p e = (w @ v @ a) @ b" and w: "json_ws w" and val: "json_value v"
    and g: "complete_skipped_value [f] = Some [g]" "frame_rest g a" and b: "outer_rest fs b"
    by (auto simp: value_rest_def)
  have "frame_rest f (w @ v @ a)"
  proof (cases "frame_state f = SkipObjectValue")
    case True
    then have "g = f\<lparr>frame_state := SkipObjectCommaOrEnd\<rparr>" using g(1) by simp
    then have "(\<exists>u. a = u @ ''}'' \<and> json_ws u) \<or> (\<exists>u m. a = u @ '','' @ m @ ''}'' \<and> json_ws u \<and> json_members m)"
      using g(2) by (simp add: frame_rest_def)
    then show ?thesis using True w val by (auto simp: frame_rest_def)
  next
    case False
    then have st: "frame_state f = SkipArrayValueOrEnd \<or> frame_state f = SkipArrayValue" using assms(3) by simp
    then have "g = f\<lparr>frame_state := SkipArrayCommaOrEnd\<rparr>" using g(1) by auto
    then have "(\<exists>u. a = u @ '']'' \<and> json_ws u) \<or> (\<exists>u m. a = u @ '','' @ m @ '']'' \<and> json_ws u \<and> json_elements m)"
      using g(2) by (simp add: frame_rest_def)
    then have "\<exists>m. w @ v @ a = m @ '']'' \<and> json_elements m"
    proof (elim disjE exE conjE)
      fix u assume "a = u @ '']''" "json_ws u"
      then show ?thesis using json_element [OF w val] by (metis append_assoc)
    next
      fix u m assume "a = u @ '','' @ m @ '']''" "json_ws u" "json_elements m"
      then show ?thesis using json_element_Cons [OF w val] by (metis append_assoc)
    qed
    then show ?thesis using st by (auto simp: frame_rest_def)
  qed
  from frames_restI [OF this b] show ?thesis using e by (simp only: split)
qed

lemma comma_sound:
  assumes "sound_result data (Inr (Suc p, f\<lparr>frame_state := st\<rparr> # fs, False)) e" and "p < length data"
    and "data ! p = CHR '',''"
    and "frame_state f = SkipObjectCommaOrEnd \<and> st = SkipObjectKey \<or> frame_state f = SkipArrayCommaOrEnd \<and> st = SkipArrayValue"
  shows "p \<le> e \<and> e \<le> length data \<and> frames_rest (f # fs) (slice data p e)"
proof -
  have e: "Suc p \<le> e" "e \<le> length data" and v: "frames_rest (f\<lparr>frame_state := st\<rparr> # fs) (slice data (Suc p) e)"
    using assms(1,2) by (auto simp: sound_result_def skip_sound_def)
  then obtain a b where split: "slice data p e = ('','' @ a) @ b" and a: "frame_rest (f\<lparr>frame_state := st\<rparr>) a"
    and b: "outer_rest fs b" using assms(2,3) slice_step [of p e data] by (auto simp: frames_rest_def)
  have "frame_rest f ('','' @ a)"
    using a assms(4) unfolding frame_rest_def
    by (elim disjE conjE) (simp_all, (metis append_Nil append_Cons json_ws_Nil)+)
  from frames_restI [OF this b] show ?thesis using e by (simp add: split)
qed

lemma frame_part_sound:
  assumes r: "sound_result data (skip_frame_part data p f fs) e" and p: "p < length data"
  shows "p \<le> e \<and> e \<le> length data \<and> frames_rest (f # fs) (slice data p e)"
proof (cases "frame_state f")
  case SkipObjectKeyOrEnd
  then show ?thesis
    using r p close_frame_sound [OF _ p] key_frame_sound [OF _ p] frame_rest_closeI(1) [of f]
    by (cases "data ! p = frame_close f") (simp_all add: skip_frame_part_def)
next
  case SkipObjectKey
  then show ?thesis using r key_frame_sound [OF _ p] by (simp add: skip_frame_part_def)
next
  case SkipObjectValue
  then show ?thesis using r need_value_sound [of data p f fs e] p by (simp add: skip_frame_part_def)
next
  case SkipObjectCommaOrEnd
  then show ?thesis
    using r p close_frame_sound [OF _ p] comma_sound [OF _ p] frame_rest_closeI(2) [of f]
    by (cases "data ! p = CHR '',''"; cases "data ! p = CHR ''}''")
       (simp_all add: skip_frame_part_def sound_result_def)
next
  case SkipArrayValueOrEnd
  then show ?thesis
    using r p close_frame_sound [OF _ p] need_value_sound [of data p f fs e] frame_rest_closeI(1) [of f]
    by (cases "data ! p = frame_close f") (simp_all add: skip_frame_part_def)
next
  case SkipArrayValue
  then show ?thesis
    using r need_value_sound [of data p f fs e] p
    by (cases "data ! p = CHR '']''") (simp_all add: skip_frame_part_def sound_result_def)
next
  case SkipArrayCommaOrEnd
  then show ?thesis
    using r p close_frame_sound [OF _ p] comma_sound [OF _ p] frame_rest_closeI(3) [of f]
    by (cases "data ! p = CHR '',''"; cases "data ! p = CHR '']''")
       (simp_all add: skip_frame_part_def sound_result_def)
qed

lemma after_value_sound:
  assumes r: "sound_result data (skip_after_value data p frames) e" and p: "p \<le> length data"
  shows "p \<le> e \<and> e \<le> length data \<and> frames_rest frames (slice data p e)"
proof (cases frames)
  case Nil
  then show ?thesis using r p by (auto simp: sound_result_def skip_after_value_def frames_rest_def)
next
  case (Cons f fs)
  let ?q = "skip_json_space data p"
  have q: "?q < length data" "sound_result data (skip_frame_part data ?q f fs) e"
    using r Cons by (auto simp: sound_result_def skip_after_value_def Let_def split: if_splits)
  have le: "p \<le> ?q" by (rule skip_json_space_ge)
  have s: "?q \<le> e" "e \<le> length data" "frames_rest (f # fs) (slice data ?q e)"
    using frame_part_sound [OF q(2,1)] by auto
  have "slice data p e = slice data p ?q @ slice data ?q e" using le s by (simp add: slice_append)
  then show ?thesis using le s Cons frames_rest_ws [OF _ s(3) json_ws_skipped [OF p]] by simp
qed

lemma value_part_sound:
  assumes part: "skip_value_part data q frames = Some (p, fs)"
    and rest: "p \<le> e" "e \<le> length data" "frames_rest fs (slice data p e)"
  shows "value_rest frames (slice data q e) \<or> frames = [] \<and> e = length data \<and> slice data q e = [quote_char]"
proof -
  have q: "q < length data" using part by (auto simp: skip_value_part_def split: if_splits)
  have p: "q < p" "p \<le> length data" using skip_value_part_bounds [OF part] by auto
  have join: "slice data q e = slice data q p @ slice data p e" using p rest by (simp add: slice_append)
  have scalar: "value_rest frames (slice data q e)"
    if "json_value (slice data q p)" and "complete_skipped_value frames = Some fs"
    using that complete_rest [OF that(2) rest(3)] unfolding value_rest_def join
    by (metis append_Nil json_ws_Nil)
  consider (str) "data ! q = quote_char" | (opens) f d where "data ! q = d" "fs = f # frames" "p = Suc q"
      "d = CHR ''{'' \<and> f = object_frame \<or> d = CHR ''['' \<and> f = array_frame"
    | (prim) "valid_skipped_primitive (slice data q p)" "complete_skipped_value frames = Some fs"
    using part by (auto simp: skip_value_part_def object_frame_def array_frame_def Let_def split: if_splits)
  then show ?thesis
  proof cases
    case str
    then have tok: "scan_json_string_token data q = Some p" "complete_skipped_value frames = Some fs"
      using part by (auto simp: skip_value_part_def split: if_splits option.splits)
    show ?thesis
    proof (cases "p = Suc q \<and> p = length data")
      case False
      then have "json_value (slice data q p)" using scan_token_sound [OF tok(1)] by (auto intro: json_string)
      then show ?thesis using scalar tok(2) by blast
    next
      case True
      then have e: "e = length data" using rest by simp
      have "slice data p e = []" using True e by (metis slice_empty)
      then have "frames_rest fs []" "slice data (Suc q) e = []" using rest(3) True by simp_all
      note empty = this(2)
      have "fs = []" using \<open>frames_rest fs []\<close> frame_rest_nonempty by (cases fs) (auto simp: frames_rest_def)
      then have "frames = []" using tok(2) by (cases frames) (auto split: skip_state.splits)
      moreover have "slice data q e = [quote_char]" using empty str q e by (simp add: slice_step)
      ultimately show ?thesis using e by simp
    qed
  next
    case opens
    then obtain a b where ab: "slice data p e = a @ b" "frame_rest f a" "outer_rest frames b"
      using rest(3) by (auto simp: frames_rest_def)
    have "json_value (d # a)"
      using opens(4) ab(2) json_object0 json_object json_array0 json_array
      by (auto simp: frame_rest_def object_frame_def array_frame_def)
    moreover have "slice data q e = [] @ (d # a) @ b"
      using ab(1) opens(1,3) q p rest by (simp add: slice_step)
    ultimately show ?thesis using ab(3) unfolding value_rest_def by (metis json_ws_Nil)
  next
    case prim
    then have "json_value (slice data q p)"
      by (auto simp: valid_skipped_primitive_iff intro: json_literal json_number)
    then show ?thesis using scalar prim(2) by blast
  qed
qed

lemma skip_loop_sound: "skip_loop data st = Some e \<Longrightarrow> skip_sound data st e"
proof (induction data st rule: skip_loop.induct)
  case (1 data st)
  obtain p frames needValue where st: "st = (p, frames, needValue)" by (cases st)
  let ?q = "skip_json_space data p"
  have step: "sound_result data (skip_step data st) e"
    using "1.prems" "1.IH"
    by (auto simp: skip_loop.simps [of data st] sound_result_def split: sum.splits)
  show ?case
    unfolding skip_sound_def st prod.case
  proof
    assume p: "p \<le> length data"
    have le: "p \<le> ?q" "?q \<le> length data" using skip_json_space_ge skip_json_space_le [OF p] by auto
    have ws: "json_ws (slice data p ?q)" by (rule json_ws_skipped [OF p])
    show "p \<le> e \<and> e \<le> length data \<and> (if needValue then value_rest frames (slice data p e)
        \<or> frames = [] \<and> lone_quote data p e
        else frames \<noteq> [] \<longrightarrow> frames_rest frames (slice data p e))"
    proof (cases needValue)
      case True
      then obtain p1 fs where part: "skip_value_part data ?q frames = Some (p1, fs)"
        and r: "sound_result data (skip_after_value data p1 fs) e"
        using step by (auto simp: st sound_result_def Let_def split: option.splits)
      have b: "?q < p1" "p1 \<le> length data" using skip_value_part_bounds [OF part] by auto
      have s: "p1 \<le> e" "e \<le> length data" "frames_rest fs (slice data p1 e)"
        using after_value_sound [OF r b(2)] by auto
      have join: "slice data p e = slice data p ?q @ slice data ?q e" using le b s by (simp add: slice_append)
      from value_part_sound [OF part s] have "value_rest frames (slice data p e) \<or> frames = [] \<and> lone_quote data p e"
      proof
        assume "value_rest frames (slice data ?q e)"
        then obtain w v r where "slice data ?q e = w @ v @ r" "json_ws w" "json_value v" "outer_rest frames r"
          by (auto simp: value_rest_def)
        then have "slice data p e = (slice data p ?q @ w) @ v @ r \<and> json_ws (slice data p ?q @ w)"
          using ws by (simp add: join)
        then show ?thesis using \<open>json_value v\<close> \<open>outer_rest frames r\<close> unfolding value_rest_def by blast
      next
        assume "frames = [] \<and> e = length data \<and> slice data ?q e = [quote_char]"
        then show ?thesis using ws join by (auto simp: lone_quote_def)
      qed
      then show ?thesis using True le b s by simp
    next
      case False
      then have "sound_result data (skip_after_value data ?q frames) e" using step by (simp add: st Let_def)
      from after_value_sound [OF this le(2)]
      have s: "?q \<le> e" "e \<le> length data" "frames_rest frames (slice data ?q e)" by auto
      have join: "slice data p e = slice data p ?q @ slice data ?q e" using le s by (simp add: slice_append)
      show ?thesis using frames_rest_ws [OF _ s(3) ws] False le s by (simp add: join)
    qed
  qed
qed

lemma valid_document_text:
  assumes "valid_json_document data"
  shows "json_text data \<or> (\<exists>w. json_ws w \<and> data = w @ [quote_char])"
proof -
  let ?q = "skip_json_space data 0"
  obtain e where loop: "skip_loop data (?q, [], True) = Some e" and q: "?q < length data"
    and e: "skip_json_space data e = length data"
    using assms by (auto simp: valid_json_document_def skip_json_value_def Let_def split: option.splits if_splits)
  have s: "?q \<le> e" "e \<le> length data"
      "value_rest [] (slice data ?q e) \<or> lone_quote data ?q e"
    using skip_loop_sound [OF loop] q by (auto simp: skip_sound_def)
  have "data = slice data 0 ?q @ slice data ?q e @ slice data e (length data)"
    using s(1,2) by (simp add: slice_append slice_whole)
  moreover have ws: "json_ws (slice data 0 ?q)" "json_ws (slice data e (length data))"
    using json_ws_skipped [of 0 data] json_ws_skipped [OF s(2)] e by simp_all
  ultimately show ?thesis using s(3)
  proof (elim disjE)
    assume data: "data = slice data 0 ?q @ slice data ?q e @ slice data e (length data)"
      and "value_rest [] (slice data ?q e)"
    then obtain w v where v: "slice data ?q e = w @ v" "json_ws w" "json_value v" by (auto simp: value_rest_def)
    then have "data = (slice data 0 ?q @ w) @ v @ slice data e (length data)" using data by simp
    moreover have "json_ws (slice data 0 ?q @ w)" using ws v(2) by simp
    ultimately show ?thesis using v(3) ws(2) unfolding json_text_def by blast
  next
    assume data: "data = slice data 0 ?q @ slice data ?q e @ slice data e (length data)"
      and "lone_quote data ?q e"
    then obtain w where "slice data ?q e = w @ [quote_char]" "json_ws w" "e = length data"
      by (auto simp: lone_quote_def)
    then have "data = (slice data 0 ?q @ w) @ [quote_char]" using data by simp
    then show ?thesis using ws(1) \<open>json_ws w\<close> by (metis json_ws_append)
  qed
qed

lemma lone_quote_valid:
  assumes "json_ws w" shows "valid_json_document (w @ [quote_char])"
proof -
  let ?d = "w @ [quote_char]"
  have p: "skip_json_space ?d 0 = length w"
    using skip_json_space_ws [OF assms, of "[quote_char]" "[]"] by (simp add: json_space_def)
  have "skip_json_space ?d (length w) = length w" using skip_json_space_idem [of ?d 0] unfolding p .
  moreover have "scan_json_string_token ?d (length w) = Some (Suc (length w))"
    by (simp add: scan_json_string_token_def scan_json_string_def scan_string_from.simps [of ?d "Suc (length w)"]
        advance_stop)
  ultimately have "skip_loop ?d (length w, [], True) = Some (Suc (length w))"
    by (simp add: skip_loop_value skip_value_part_def skip_resume_def)
  moreover have "skip_json_space ?d (Suc (length w)) = length ?d"
    by (simp add: skip_json_space_def advance_stop)
  ultimately show ?thesis by (simp add: valid_json_document_def skip_json_value_def p)
qed

section \<open>Properties\<close>

text \<open>
  C15: \<open>validJSONDocument\<close> accepts exactly the JSON texts of RFC 8259 and, beside
  them, a lone quotation mark after white space: for that one input
  \<open>scanJSONString\<close> returns the end of the data and the check of the closing quote
  looks at the opening one.
\<close>

theorem valid_json_document_iff:
  "valid_json_document data \<longleftrightarrow> json_text data \<or> (\<exists>w. json_ws w \<and> data = w @ [quote_char])"
  using valid_document_text json_text_valid lone_quote_valid by blast

end
