(* ===== verification/StreamText.thy ===== *)
theory StreamText
  imports Stream JsonGrammar
begin

text \<open>
  What the streaming walker reads and writes: every value it steps over is a value of the
  JSON grammar, every value it writes is one too, in valid UTF-8 and without a control
  byte, and its failures are never lost.
\<close>

section \<open>Tokens that are read\<close>

lemma slice_quoted: "slice (c # x @ [d]) 1 (length (c # x @ [d]) - 1) = x"
  by (simp add: slice_def)

lemma slice_inner_token:
  assumes "data ! start = quote_char" and "start + 2 \<le> end" and "end \<le> length data" and "data ! (end - 1) = quote_char"
  shows "slice (slice data start end) 1 (length (slice data start end) - 1) = slice data (start + 1) (end - 1)"
  unfolding token_parts [OF assms(2,3,1,4)] by (rule slice_quoted)

lemma scanned_token:
  assumes "data ! start = quote_char" and "end = scan_json_string data start" and "start + 2 \<le> end" and "end \<le> length data"
    and "data ! (end - 1) = quote_char"
    and "list_all (\<lambda>c. c \<noteq> backslash \<and> \<not> c < CHR 0x20) (slice data (start + 1) (end - 1)) \<or> unmarshal_string (slice data start end) \<noteq> None"
  shows "string_token (slice data start end)"
  using assms(6)
proof
  assume plain: "list_all (\<lambda>c. c \<noteq> backslash \<and> \<not> c < CHR 0x20) (slice data (start + 1) (end - 1))"
  have "\<not> data ! i < CHR 0x20 \<and> data ! i \<noteq> backslash" if "start + 1 \<le> i" "i < end - 1" for i
  proof -
    have "data ! i = slice data (start + 1) (end - 1) ! (i - (start + 1))" "i - (start + 1) < length (slice data (start + 1) (end - 1))"
      using that assms(4) by (simp_all add: nth_slice length_slice)
    then show ?thesis using plain by (simp add: list_all_length)
  qed
  then have "advance (\<lambda>i. \<not> data ! i < CHR 0x20 \<and> data ! i \<noteq> backslash) (end - 1) (start + 1) = end - 1"
    using assms(3) by (intro advance_eqI) auto
  then have "scan_json_string_token data start = Some end"
    using assms by (simp add: scan_json_string_token_def Let_def)
  then show ?thesis using scan_token_sound assms(3) by fastforce
qed (simp add: string_token_def)

lemma token_ends:
  assumes "length (slice data start end) \<ge> 2" and "end \<le> length data"
    and "slice data start end ! (length (slice data start end) - 1) = quote_char"
  shows "start + 2 \<le> end" and "data ! (end - 1) = quote_char"
proof -
  have len: "length (slice data start end) = end - start" using assms(2) by (rule length_slice)
  then show "start + 2 \<le> end" using assms(1) by simp
  then show "data ! (end - 1) = quote_char" using assms(2,3) len by (simp add: nth_slice)
qed

lemma string_text_cases:
  assumes "stream_json_string_text t \<noteq> None"
  shows "2 \<le> length t \<and> t ! (length t - 1) = quote_char
    \<and> (list_ex (\<lambda>c. c = backslash \<or> c < CHR 0x20) (slice t 1 (length t - 1)) \<longrightarrow> unmarshal_string t \<noteq> None)"
proof (cases "length t < 2 \<or> t ! 0 \<noteq> quote_char \<or> t ! (length t - 1) \<noteq> quote_char")
  case True
  then show ?thesis using assms unfolding stream_json_string_text_def if_P [OF True] by blast
next
  case False
  then show ?thesis using assms unfolding stream_json_string_text_def if_not_P [OF False] by (simp split: if_splits)
qed

lemma string_text_token:
  assumes "data ! start = quote_char" and "end = scan_json_string data start"
    and "stream_json_string_text (slice data start end) \<noteq> None"
  shows "string_token (slice data start end)"
proof -
  let ?t = "slice data start end"
  have le: "end \<le> length data" using assms(2) scan_json_string_le by simp
  note t = string_text_cases [OF assms(3), THEN conjunct1] string_text_cases [OF assms(3), THEN conjunct2, THEN conjunct1]
  note esc = string_text_cases [OF assms(3), THEN conjunct2, THEN conjunct2]
  note ends = token_ends [OF t(1) le t(2)]
  show ?thesis
    by (rule scanned_token [OF assms(1,2) ends(1) le ends(2)])
       (use esc [unfolded slice_inner_token [OF assms(1) ends(1) le ends(2)]] in \<open>auto simp: list_ex_iff list_all_iff\<close>)
qed

section \<open>Values that are written\<close>

definition no_control :: "bytes \<Rightarrow> bool" where
  "no_control v \<longleftrightarrow> list_all (\<lambda>c. \<not> c < CHR 0x20) v"

definition written :: "bytes \<Rightarrow> bool" where
  "written v \<longleftrightarrow> json_value v \<and> valid_utf8 v \<and> no_control v"

lemma no_control_append [simp]: "no_control (v @ w) \<longleftrightarrow> no_control v \<and> no_control w"
  by (simp add: no_control_def)

lemma append_json_string_dst: "append_json_string dst s = dst @ append_json_string [] s"
  by (simp add: append_json_string_def)

lemma encoded_valid_utf8: "valid_utf8 (append_json_string [] s)"
  using valid_utf8_append [OF escape_json_valid_utf8, of "[quote_char]" s] by (simp add: append_json_string_def)

lemma encoded_no_control: "no_control (append_json_string [] s)"
  using escape_json_bytes [of _ s]
  by (auto simp: append_json_string_def no_control_def list_all_iff char_less_byte)

lemma encoded_written: "written (append_json_string [] s)"
  by (simp add: written_def json_string append_json_string_token encoded_valid_utf8 encoded_no_control)

lemma ascii_written: "json_value v \<Longrightarrow> list_all (\<lambda>c. 32 \<le> byte c \<and> byte c < 128) v \<Longrightarrow> written v"
  by (auto simp: written_def no_control_def list_all_iff char_less_byte intro!: valid_utf8_ascii)

lemma null_written: "written ''null''"
  by (rule ascii_written) (simp_all add: json_literal)

lemma literal_written: "t \<in> {''true'', ''false'', ''null''} \<Longrightarrow> written t"
  by (rule ascii_written) (auto simp: json_literal)

lemma number_written: "json_number_grammar t \<Longrightarrow> written t"
proof (rule ascii_written [OF json_number])
  assume "json_number_grammar t"
  then have "list_all number_char t" by (rule number_grammar_chars)
  then show "list_all (\<lambda>c. 32 \<le> byte c \<and> byte c < 128) t"
    by (rule list.pred_mono_strong) (auto simp: number_char_def json_digit_def char_to_byte)
qed

lemma primitive_written: "valid_stream_primitive t kind \<Longrightarrow> written t"
  using valid_stream_primitive_sound literal_written number_written by blast

text \<open>A token that may be copied holds no escape and no control byte, and is valid UTF-8.\<close>

lemma copyable_bytes:
  assumes "list_all copyable_chunk (chunks s)" and "c \<in> set s"
  shows "c \<noteq> backslash \<and> \<not> c < CHR 0x20"
proof -
  have "c \<in> set (concat (map snd (chunks s)))" using assms(2) by (simp only: concat_chunks)
  then obtain x where x: "x \<in> set (chunks s)" "c \<in> set (snd x)" unfolding set_concat set_map by blast
  then have copy: "copyable_chunk x" using assms(1) by (simp add: list_all_iff)
  from x(1) show ?thesis
    using copy x(2) chunk_cases [of "fst x" "snd x" s] encode_rune_bytes [of "fst x" c]
    by (cases "fst x < 128") (auto simp: copyable_chunk_def bad_chunk_def encode_ascii char_less_byte rune_error_def)
qed

lemma copied_written:
  assumes "string_token t" and "stream_json_string_can_copy t"
  shows "written t"
proof -
  obtain b where t: "t = quote_char # b @ [quote_char]" using string_token_quoted [OF assms(1)] by blast
  have copy: "list_all copyable_chunk (chunks b)"
    using assms(2) slice_quoted [of quote_char b quote_char] unfolding t stream_json_string_can_copy_def by (simp split: if_splits)
  then have "valid_utf8 b"
    unfolding valid_utf8_def by (rule list.pred_mono_strong) (auto simp: copyable_chunk_def bad_chunk_def rune_error_def split: if_splits)
  then have "valid_utf8 t" using valid_utf8_append [of b "[quote_char]"] by (simp add: t)
  moreover have "no_control t"
    using copyable_bytes [OF copy] by (simp add: t no_control_def list_all_iff char_less_byte)
  ultimately show ?thesis using json_string [OF assms(1)] by (simp add: written_def)
qed

lemma append_token_ok:
  assumes "data ! start = quote_char" and "end = scan_json_string data start"
    and "append_stream_json_string out (slice data start end) = Some out'"
  shows "string_token (slice data start end) \<and> (\<exists>v. out' = out @ v \<and> written v)"
proof (cases "stream_json_string_can_copy (slice data start end)")
  case True
  let ?t = "slice data start end"
  have le: "end \<le> length data" using assms(2) scan_json_string_le by simp
  have t: "2 \<le> length ?t" "?t ! (length ?t - 1) = quote_char" "list_all copyable_chunk (chunks (slice ?t 1 (length ?t - 1)))"
    using True unfolding stream_json_string_can_copy_def by (auto split: if_splits)
  note ends = token_ends [OF t(1) le t(2)]
  have "string_token ?t"
    by (rule scanned_token [OF assms(1,2) ends(1) le ends(2)])
       (use copyable_bytes [OF t(3) [unfolded slice_inner_token [OF assms(1) ends(1) le ends(2)]]] in \<open>simp add: list_all_iff\<close>)
  then show ?thesis using copied_written [OF _ True] assms(3) True by (auto simp: append_stream_json_string_def)
next
  case False
  then obtain d where "unmarshal_string (slice data start end) = Some d" "out' = append_json_string out d"
    using assms(3) by (auto simp: append_stream_json_string_def)
  then show ?thesis using encoded_written by (simp add: string_token_def append_json_string_dst [of out])
qed

text \<open>Members and elements, joined and bracketed.\<close>

definition encode_member :: "bytes \<times> bytes \<Rightarrow> bytes" where
  "encode_member kv = append_json_string [] (fst kv) @ '':'' @ snd kv"

lemma encode_member_parts:
  assumes "written (snd kv)"
  shows "no_control (encode_member kv) \<and> valid_utf8 (encode_member kv)
    \<and> (\<exists>k. encode_member kv = k @ '':'' @ snd kv \<and> string_token k)"
proof -
  have "valid_utf8 ('':'' @ snd kv)" using assms by (simp add: written_def)
  then show ?thesis
    using assms encoded_no_control encoded_valid_utf8 append_json_string_token valid_utf8_append
    by (auto simp: encode_member_def written_def no_control_def)
qed

lemma join_written:
  "list_all (\<lambda>x. no_control x \<and> valid_utf8 x) xs \<Longrightarrow> no_control (join '','' xs) \<and> valid_utf8 (join '','' xs)"
proof (induction "'',''" xs rule: join.induct)
  case (3 x y xs)
  have "valid_utf8 (x @ CHR '','' # join '','' (y # xs))" using 3 by (intro valid_utf8_append) auto
  then show ?case using 3 by (simp add: no_control_def)
qed (simp_all add: no_control_def)

lemma join_member_texts:
  "kvs \<noteq> [] \<Longrightarrow> \<forall>kv \<in> set kvs. written (snd kv) \<Longrightarrow> json_members (join '','' (map encode_member kvs))"
proof (induction kvs)
  case (Cons kv kvs)
  then obtain k where kv: "encode_member kv = k @ '':'' @ snd kv" "string_token k" "json_value (snd kv)"
    using encode_member_parts [of kv] by (auto simp: written_def)
  show ?case
  proof (cases kvs)
    case Nil
    then show ?thesis using json_member [of "[]" k "[]" "[]" "snd kv" "[]"] kv by simp
  next
    case (Cons kv' kvs')
    then have "json_members (join '','' (map encode_member kvs))" using Cons.IH Cons.prems by simp
    then show ?thesis using json_member_Cons [of "[]" k "[]" "[]" "snd kv" "[]"] kv Cons by simp
  qed
qed simp

lemma join_element_texts: "ts \<noteq> [] \<Longrightarrow> \<forall>t \<in> set ts. written t \<Longrightarrow> json_elements (join '','' ts)"
proof (induction ts)
  case (Cons t ts)
  have t: "json_value t" using Cons.prems by (simp add: written_def)
  show ?case
  proof (cases ts)
    case Nil
    then show ?thesis using json_element [of "[]" t "[]"] t by simp
  next
    case (Cons t' ts')
    then have "json_elements (join '','' ts)" using Cons.IH Cons.prems by simp
    then show ?thesis using json_element_Cons [of "[]" t "[]"] t Cons by simp
  qed
qed simp

lemma bracketed_written:
  assumes "no_control m \<and> valid_utf8 m" and "json_value (a # m @ [b])" and "a \<in> {CHR ''{'', CHR ''[''}" and "b \<in> {CHR ''}'', CHR '']''}"
  shows "written (a # m @ [b])"
proof -
  have "valid_utf8 (m @ [b])" using assms(1,4) by (intro valid_utf8_append) auto
  then show ?thesis using assms by (auto simp: written_def no_control_def)
qed

lemma object_text_written:
  assumes "\<forall>kv \<in> set kvs. written (snd kv)"
  shows "written (''{'' @ join '','' (map encode_member kvs) @ ''}'')"
proof -
  have "json_value (''{'' @ join '','' (map encode_member kvs) @ ''}'')"
    using json_object [OF join_member_texts [of kvs]] json_object0 [of "[]"] assms by (cases "kvs = []") simp_all
  moreover have "no_control (join '','' (map encode_member kvs)) \<and> valid_utf8 (join '','' (map encode_member kvs))"
    using encode_member_parts assms by (intro join_written) (auto simp: list_all_iff)
  ultimately show ?thesis using bracketed_written by simp
qed

lemma array_text_written:
  assumes "\<forall>t \<in> set ts. written t"
  shows "written (''['' @ join '','' ts @ '']'')"
proof -
  have "json_value (''['' @ join '','' ts @ '']'')"
    using json_array [OF join_element_texts [of ts]] json_array0 [of "[]"] assms by (cases "ts = []") simp_all
  moreover have "no_control (join '','' ts) \<and> valid_utf8 (join '','' ts)"
    using assms by (intro join_written) (auto simp: list_all_iff written_def)
  ultimately show ?thesis using bracketed_written by simp
qed

section \<open>Values that are read\<close>

text \<open>
  From the next byte that is no space the text holds a value, or it ends with a lone
  quotation mark, the one token that is stepped over without being one.
\<close>

definition reads :: "bytes \<Rightarrow> nat \<Rightarrow> nat \<Rightarrow> bool" where
  "reads data start next \<longleftrightarrow> (let p = skip_json_space data start in
     p < next \<and> next \<le> length data
     \<and> (json_value (slice data p next) \<or> next = length data \<and> next = Suc p \<and> data ! p = quote_char))"

lemma first_not_space: "p = skip_json_space data start \<Longrightarrow> p < length data \<Longrightarrow> \<not> json_space (data ! p)"
  using advance_end [of "\<lambda>i. json_space (data ! i)" "length data" start] by (simp add: skip_json_space_def)

lemma leading_ws_empty:
  assumes "\<not> json_space (data ! p)" and "slice data p e = w @ v" and "json_ws w" and "p < e" and "e \<le> length data"
  shows "w = []"
proof (cases w)
  case (Cons c cs)
  have "slice data p e ! 0 = data ! p" using nth_slice [of e data 0 p] assms(4,5) by simp
  then show ?thesis using assms Cons by (simp add: json_ws_def)
qed simp

lemma skip_reads:
  assumes "skip_json_value data start = Some e"
  shows "reads data start e"
proof -
  let ?p = "skip_json_space data start"
  have p: "?p < length data" and loop: "skip_loop data (?p, [], True) = Some e"
    using assms by (auto simp: skip_json_value_def Let_def split: if_splits)
  have e: "?p \<le> e" "e \<le> length data" "value_rest [] (slice data ?p e) \<or> lone_quote data ?p e"
    using skip_loop_sound [OF loop] p by (auto simp: skip_sound_def)
  have space: "\<not> json_space (data ! ?p)" using first_not_space [OF refl p] .
  from e(3) show ?thesis
  proof
    assume "value_rest [] (slice data ?p e)"
    then obtain w v where v: "slice data ?p e = w @ v" "json_ws w" "json_value v" by (auto simp: value_rest_def)
    have "v \<noteq> []" using v(3) by (auto elim: json_value_head)
    then have lt: "?p < e" using v(1) e(1) by (cases "?p = e") auto
    then have "w = []" using leading_ws_empty [OF space v(1,2) lt e(2)] by simp
    then show ?thesis using v lt e(2) by (simp add: reads_def Let_def)
  next
    assume "lone_quote data ?p e"
    then obtain w where w: "e = length data" "slice data ?p e = w @ [quote_char]" "json_ws w"
      by (auto simp: lone_quote_def)
    then have lt: "?p < e" using e(1) by (cases "?p = e") auto
    then have "w = []" using leading_ws_empty [OF space w(2,3) lt e(2)] by simp
    then have one: "slice data ?p e = [quote_char]" using w(2) by simp
    then have "e = Suc ?p" using length_slice [OF e(2), of ?p] lt by simp
    moreover have "data ! ?p = quote_char" using one nth_slice [of e data 0 ?p] e(2) lt by simp
    ultimately show ?thesis using w(1) by (simp add: reads_def Let_def)
  qed
qed

lemma scan_string_from_quote:
  "scan_string_from data i < length data \<Longrightarrow> i < scan_string_from data i \<and> data ! (scan_string_from data i - 1) = quote_char"
proof (induction data i rule: scan_string_from.induct)
  case (1 data i)
  then show ?case
    by (cases "i < length data") (auto simp: scan_string_from.simps [of data i] split: if_splits)
qed

text \<open>The key of a member up to the position of its value.\<close>

lemma object_key_ok:
  assumes "cache_ok data (w_keys w)" and "object_key data p w = (Some (key, q), w')"
  obtains keyEnd colon where "string_token (slice data p keyEnd)" and "p < keyEnd" and "keyEnd \<le> colon"
    and "colon = skip_json_space data keyEnd" and "colon < length data" and "data ! colon = CHR '':''"
    and "q = skip_json_space data (colon + 1)" and "w' = w\<lparr>w_keys := w_keys w'\<rparr>" and "cache_ok data (w_keys w')"
proof -
  let ?e = "scan_json_string data p" and ?c = "skip_json_space data (scan_json_string data p)"
  obtain cache where s: "stream_object_key data p ?e (w_keys w) = (Some key, cache)"
    and p: "p < length data" "data ! p = quote_char" "p < ?e"
    and c: "?c < length data" "data ! ?c = CHR '':''" "q = skip_json_space data (?c + 1)"
    and w': "w' = w\<lparr>w_keys := cache\<rparr>"
    using assms(2) by (auto simp: object_key_def Let_def split: if_splits prod.splits option.splits)
  have le: "?e \<le> ?c" by (rule skip_json_space_ge)
  have len: "?e \<le> length data" by (rule scan_json_string_le)
  have last_quote: "data ! (?e - 1) = quote_char" "p + 2 \<le> ?e"
    using scan_string_from_quote [of data "p + 1"] le c(1) by (auto simp: scan_json_string_def)
  note spec = stream_object_key_spec [OF assms(1) last_quote(2) len p(2) last_quote(1), unfolded s]
  have no_ctl: "\<not> list_ex (\<lambda>c. c < CHR 0x20) (slice data (p + 1) (?e - 1))"
    and dec: "decode_key (slice data p ?e) = Some key" and cache: "cache_ok data cache"
    using spec by (auto split: if_splits)
  have "string_token (slice data p ?e)"
  proof (rule scanned_token [OF p(2) refl last_quote(2) len last_quote(1)])
    have inner: "slice (slice data p ?e) 1 (length (slice data p ?e) - 1) = slice data (p + 1) (?e - 1)"
      by (rule slice_inner_token [OF p(2) last_quote(2) len last_quote(1)])
    show "list_all (\<lambda>c. c \<noteq> backslash \<and> \<not> c < CHR 0x20) (slice data (p + 1) (?e - 1)) \<or> unmarshal_string (slice data p ?e) \<noteq> None"
    proof (cases "backslash \<in> set (slice data (p + 1) (?e - 1))")
      case True
      then show ?thesis using dec unfolding decode_key_def inner by simp
    next
      case False
      then show ?thesis using no_ctl by (auto simp: list_all_iff list_ex_iff)
    qed
  qed
  then show thesis using that [of ?e ?c] p le c w' cache by simp
qed

end
