(* ===== verification/JsonTree.thy ===== *)
theory JsonTree
  imports StreamText
begin

text \<open>
  JSON documents as trees: the values \<open>encoding/json\<close> decodes a document to, and the
  encoder \<open>encodeJSONTree\<close> (\<open>json_encode.go\<close>) that prints one.  A Go map is a list of
  its entries, in the order Go ranges over it, with distinct keys.
\<close>

section \<open>Trees\<close>

datatype json_tree =
    JsonNull
  | JsonBool bool
  | JsonString bytes
  | JsonNumber bytes
  | JsonObject "(bytes \<times> json_tree) list"
  | JsonArray "json_tree list"

fun json_value_kind :: "json_tree \<Rightarrow> value_kind" where
  "json_value_kind JsonNull = KindNil"
| "json_value_kind (JsonString _) = KindString"
| "json_value_kind (JsonBool _) = KindBool"
| "json_value_kind (JsonNumber _) = KindNumber"
| "json_value_kind (JsonObject _) = KindObject"
| "json_value_kind (JsonArray _) = KindArray"

fun json_scalar_text :: "json_tree \<Rightarrow> bytes" where
  "json_scalar_text (JsonString s) = s"
| "json_scalar_text (JsonBool b) = (if b then ''true'' else ''false'')"
| "json_scalar_text (JsonNumber n) = n"
| "json_scalar_text _ = []"

section \<open>Encoding\<close>

text \<open>All of a list, or nothing.\<close>

fun all_some :: "'a option list \<Rightarrow> 'a list option" where
  "all_some [] = Some []"
| "all_some (None # xs) = None"
| "all_some (Some x # xs) = map_option ((#) x) (all_some xs)"

definition tagged :: "bytes \<times> bytes option \<Rightarrow> (bytes \<times> bytes) option" where
  "tagged kv = map_option (Pair (fst kv)) (snd kv)"

text \<open>
  \<open>jsonTreeEncoder.appendValue\<close>: the text of a value, \<open>None\<close> when it holds a number that
  is not one.  The members of an object are written in the order of their keys.
\<close>

fun encode_tree :: "json_tree \<Rightarrow> bytes option" where
  "encode_tree JsonNull = Some ''null''"
| "encode_tree (JsonBool b) = Some (if b then ''true'' else ''false'')"
| "encode_tree (JsonString s) = Some (append_json_string [] s)"
| "encode_tree (JsonNumber n) = (if valid_json_number n then Some n else None)"
| "encode_tree (JsonObject ms) =
     map_option (\<lambda>ts. ''{'' @ join '','' (map encode_member ts) @ ''}'')
       (all_some (map tagged (sort_key fst (map (\<lambda>(k, v). (k, encode_tree v)) ms))))"
| "encode_tree (JsonArray vs) =
     map_option (\<lambda>ts. ''['' @ join '','' ts @ '']'') (all_some (map encode_tree vs))"

section \<open>Decoding\<close>

text \<open>
  \<open>json.Decoder\<close> with \<open>UseNumber\<close>: one value from the start of the data.  A repeated key
  keeps the place of the first and the value of the last; documents nest at most
  10000 levels.  With \<open>dup\<close> false, a document that repeats a key is not read: the documents
  on which the streaming walker and the tree walker are compared.
\<close>

definition json_max_nesting :: nat where
  "json_max_nesting = 10000"

type_synonym tree_parser = "bytes \<Rightarrow> nat \<Rightarrow> (json_tree \<times> nat) option"

definition put_member :: "bytes \<Rightarrow> json_tree \<Rightarrow> (bytes \<times> json_tree) list \<Rightarrow> (bytes \<times> json_tree) list" where
  "put_member key v ms =
     (if key \<in> fst ` set ms then map (\<lambda>(k, w). (k, if k = key then v else w)) ms else ms @ [(key, v)])"

fun parse_members :: "bool \<Rightarrow> nat \<Rightarrow> tree_parser \<Rightarrow> bytes \<Rightarrow> nat \<Rightarrow> (bytes \<times> json_tree) list \<Rightarrow> ((bytes \<times> json_tree) list \<times> nat) option" where
  "parse_members dup 0 child data p ms = None"
| "parse_members dup (Suc rounds) child data p ms =
     (case scan_json_string_token data p of
        None \<Rightarrow> None
      | Some keyEnd \<Rightarrow> (case unmarshal_string (slice data p keyEnd) of
          None \<Rightarrow> None
        | Some key \<Rightarrow> (let colon = skip_json_space data keyEnd in
            if length data \<le> colon \<or> data ! colon \<noteq> CHR '':'' then None
            else case child data (skip_json_space data (colon + 1)) of
              None \<Rightarrow> None
            | Some (v, next) \<Rightarrow> (let q = skip_json_space data next in
                if length data \<le> q \<or> \<not> dup \<and> key \<in> fst ` set ms then None
                else if data ! q = CHR '','' then
                  parse_members dup rounds child data (skip_json_space data (q + 1)) (put_member key v ms)
                else if data ! q = CHR ''}'' then Some (put_member key v ms, q + 1)
                else None))))"

fun parse_elements :: "nat \<Rightarrow> tree_parser \<Rightarrow> bytes \<Rightarrow> nat \<Rightarrow> (json_tree list \<times> nat) option" where
  "parse_elements 0 child data p = None"
| "parse_elements (Suc rounds) child data p =
     (case child data p of
        None \<Rightarrow> None
      | Some (v, next) \<Rightarrow> (let q = skip_json_space data next in
          if length data \<le> q then None
          else if data ! q = CHR '','' then
            map_option (\<lambda>(vs, e). (v # vs, e)) (parse_elements rounds child data (skip_json_space data (q + 1)))
          else if data ! q = CHR '']'' then Some ([v], q + 1)
          else None))"

definition parse_primitive :: tree_parser where
  "parse_primitive data p =
     (let end = scan_json_primitive data p; token = slice data p end in
      if end \<le> p \<or> \<not> valid_skipped_primitive token then None
      else Some (if token = ''null'' then JsonNull
                 else if token = ''true'' then JsonBool True
                 else if token = ''false'' then JsonBool False
                 else JsonNumber token, end))"

fun parse_value :: "bool \<Rightarrow> nat \<Rightarrow> tree_parser" where
  "parse_value dup depth data p =
     (if length data \<le> p then None
      else if data ! p = quote_char then
        (case scan_json_string_token data p of
           None \<Rightarrow> None
         | Some end \<Rightarrow> map_option (\<lambda>s. (JsonString s, end)) (unmarshal_string (slice data p end)))
      else if data ! p = CHR ''{'' then
        (case depth of
           0 \<Rightarrow> None
         | Suc below \<Rightarrow> (let q = skip_json_space data (p + 1) in
             if q < length data \<and> data ! q = CHR ''}'' then Some (JsonObject [], q + 1)
             else map_option (\<lambda>(ms, e). (JsonObject ms, e)) (parse_members dup (length data) (parse_value dup below) data q [])))
      else if data ! p = CHR ''['' then
        (case depth of
           0 \<Rightarrow> None
         | Suc below \<Rightarrow> (let q = skip_json_space data (p + 1) in
             if q < length data \<and> data ! q = CHR '']'' then Some (JsonArray [], q + 1)
             else map_option (\<lambda>(vs, e). (JsonArray vs, e)) (parse_elements (length data) (parse_value dup below) data q)))
      else parse_primitive data p)"

declare parse_value.simps [simp del]

definition decode_json :: tree_parser where
  "decode_json data p = parse_value True json_max_nesting data (skip_json_space data p)"

definition decode_unique :: tree_parser where
  "decode_unique data p = parse_value False json_max_nesting data (skip_json_space data p)"

section \<open>What the encoder writes\<close>

lemma all_some_iff: "all_some xs = Some ys \<longleftrightarrow> xs = map Some ys"
  by (induction xs arbitrary: ys rule: all_some.induct) (auto simp: map_eq_Cons_conv)

lemma tagged_Some: "tagged x = Some y \<longleftrightarrow> fst x = fst y \<and> snd x = Some (snd y)"
  by (cases y) (auto simp: tagged_def)

lemma encode_tree_written: "encode_tree t = Some out \<Longrightarrow> written out"
proof (induction t arbitrary: out)
  case (JsonObject ms)
  obtain kvs where kvs: "all_some (map tagged (sort_key fst (map (\<lambda>(k, v). (k, encode_tree v)) ms))) = Some kvs"
      "out = ''{'' @ join '','' (map encode_member kvs) @ ''}''"
    using JsonObject.prems by auto
  have "written (snd kv)" if "kv \<in> set kvs" for kv
  proof -
    have "Some kv \<in> set (map tagged (sort_key fst (map (\<lambda>(k, v). (k, encode_tree v)) ms)))"
      using kvs(1) that unfolding all_some_iff by (metis imageI set_map)
    then obtain k v where "(k, v) \<in> set ms" "encode_tree v = Some (snd kv)"
      by (auto simp: tagged_Some dest!: sym [of "Some kv"])
    then show ?thesis using JsonObject.IH by (metis prod_set_simps(2) insertI1)
  qed
  then show ?case using object_text_written kvs(2) by blast
next
  case (JsonArray vs)
  obtain ts where ts: "map encode_tree vs = map Some ts" "out = ''['' @ join '','' ts @ '']''"
    using JsonArray.prems by (auto simp: all_some_iff)
  have "written t" if "t \<in> set ts" for t
  proof -
    have "Some t \<in> set (map encode_tree vs)" using ts(1) that by (metis imageI set_map)
    then show ?thesis using JsonArray.IH by auto
  qed
  then show ?case using array_text_written ts(2) by blast
qed (auto simp: null_written literal_written encoded_written number_written valid_json_number_iff split: if_splits)

section \<open>Reading back what was written\<close>

text \<open>
  The trees the decoder produces from an encoded text: valid UTF-8, members in the strict
  order of their keys, at most \<open>d\<close> levels of containers.
\<close>

fun fits :: "nat \<Rightarrow> json_tree \<Rightarrow> bool" where
  "fits d JsonNull = True"
| "fits d (JsonBool b) = True"
| "fits d (JsonString s) = valid_utf8 s"
| "fits d (JsonNumber n) = valid_json_number n"
| "fits d (JsonObject ms) = (case d of
       0 \<Rightarrow> False
     | Suc d \<Rightarrow> sorted_wrt (<) (map fst ms) \<and> list_all (\<lambda>(k, v). valid_utf8 k \<and> fits d v) ms)"
| "fits d (JsonArray vs) = (case d of 0 \<Rightarrow> False | Suc d \<Rightarrow> list_all (fits d) vs)"

definition parses :: "nat \<Rightarrow> json_tree \<Rightarrow> bytes \<Rightarrow> bool" where
  "parses d t v \<longleftrightarrow> (\<forall>pre post. value_delimiter post
     \<longrightarrow> parse_value True d (pre @ v @ post) (length pre) = Some (t, length pre + length v))"

lemma nth_here: "(pre @ c # post) ! length pre = c"
  by simp

lemma skip_here: "\<not> json_space c \<Longrightarrow> skip_json_space (pre @ c # post) (length pre) = length pre"
  using skip_json_space_ws [of "[]" "c # post" pre] by simp

lemma delimiter_comma [simp]: "value_delimiter (CHR '','' # post)" "value_delimiter (CHR ''}'' # post)"
    "value_delimiter (CHR '']'' # post)" "value_delimiter []"
  by (simp_all add: value_delimiter_def primitive_end_def)

lemma no_space_marks [simp]: "\<not> json_space CHR '',''" "\<not> json_space CHR '':''" "\<not> json_space CHR ''}''"
    "\<not> json_space CHR '']''" "\<not> json_space quote_char"
  by (simp_all add: json_space_def)

lemma skip_value:
  assumes "written v"
  shows "skip_json_space (pre @ v @ post) (length pre) = length pre"
proof -
  obtain c cs where "v = c # cs" "\<not> primitive_end c" using assms by (auto simp: written_def elim: json_value_head)
  then show ?thesis using skip_here [of c pre "cs @ post"] by (simp add: primitive_end_def)
qed

lemma parse_elements_joined:
  assumes "list_all2 (parses d) vs ts" and "\<forall>t \<in> set ts. written t" and "ts \<noteq> []" and "length ts \<le> n"
  shows "parse_elements n (parse_value True d) (pre @ join '','' ts @ CHR '']'' # post) (length pre)
    = Some (vs, length pre + length (join '','' ts) + 1)"
  using assms
proof (induction n arbitrary: vs ts pre)
  case (Suc n)
  obtain t ts' where ts: "ts = t # ts'" using Suc.prems(3) by (cases ts) auto
  obtain v vs' where vs: "vs = v # vs'" "parses d v t" "list_all2 (parses d) vs' ts'"
    using Suc.prems(1) by (auto simp: ts list_all2_Cons2)
  show ?case
  proof (cases ts')
    case Nil
    have "parse_value True d (pre @ t @ CHR '']'' # post) (length pre) = Some (v, length pre + length t)"
      using vs(2) by (simp add: parses_def)
    then show ?thesis using skip_here [of "CHR '']''" "pre @ t" post] vs by (simp add: ts Nil nth_append Let_def)
  next
    case (Cons t' ts'')
    let ?rest = "join '','' ts'"
    have joined: "join '','' ts = t @ '','' @ ?rest" by (simp add: ts Cons)
    let ?data = "pre @ t @ CHR '','' # ?rest @ CHR '']'' # post"
    have head: "parse_value True d ?data (length pre) = Some (v, length pre + length t)"
      using vs(2) by (simp add: parses_def)
    have "\<exists>c cs. ?rest = c # cs \<and> \<not> json_space c"
      using Suc.prems(2) by (auto simp: ts Cons written_def primitive_end_def elim!: json_value_head split: list.splits)
        (cases ts''; auto simp: primitive_end_def)
    then have skip: "skip_json_space ?data (length (pre @ t @ '','')) = length (pre @ t @ '','')"
      using skip_here [of _ "pre @ t @ '',''"] by auto
    have "parse_elements n (parse_value True d) ((pre @ t @ '','') @ ?rest @ CHR '']'' # post) (length (pre @ t @ '',''))
        = Some (vs', length (pre @ t @ '','') + length ?rest + 1)"
      using Suc.prems vs(3) by (intro Suc.IH) (auto simp: ts Cons)
    then show ?thesis
      using head skip skip_here [of "CHR '',''" "pre @ t" "?rest @ CHR '']'' # post"] vs(1)
      by (simp add: joined nth_append Let_def)
  qed
qed (simp add: leD)

lemma unmarshal_encoded: "valid_utf8 k \<Longrightarrow> unmarshal_string (append_json_string [] k) = Some k"
  by (simp add: append_json_string_def unmarshal_quoted unquote_escape_json valid_utf8_runes)

lemma put_new: "key \<notin> fst ` set ms \<Longrightarrow> put_member key v ms = ms @ [(key, v)]"
  by (simp add: put_member_def)

lemma parse_members_joined:
  assumes "list_all2 (parses d) (map snd kvs) (map snd kts)" and "map fst kts = map fst kvs"
    and "\<forall>kt \<in> set kts. written (snd kt) \<and> valid_utf8 (fst kt)" and "distinct (map fst (acc @ kvs))"
    and "kts \<noteq> []" and "length kts \<le> n"
  shows "parse_members True n (parse_value True d) (pre @ join '','' (map encode_member kts) @ CHR ''}'' # post) (length pre) acc
    = Some (acc @ kvs, length pre + length (join '','' (map encode_member kts)) + 1)"
  using assms
proof (induction n arbitrary: kvs kts pre acc)
  case (Suc n)
  obtain k t kts' where kts: "kts = (k, t) # kts'" using Suc.prems(5) by (cases kts) auto
  obtain v kvs' where kvs: "kvs = (k, v) # kvs'" "parses d v t" "list_all2 (parses d) (map snd kvs') (map snd kts')"
      "map fst kts' = map fst kvs'"
    using Suc.prems(1,2) by (cases kvs) (auto simp: kts)
  let ?tok = "append_json_string [] k"
  define rest where "rest = (if kts' = [] then ''}'' else '','' @ join '','' (map encode_member kts') @ ''}'')"
  define data where "data = pre @ ?tok @ CHR '':'' # t @ rest @ post"
  have all: "pre @ join '','' (map encode_member kts) @ CHR ''}'' # post = data"
    by (cases kts') (simp_all add: data_def rest_def kts encode_member_def)
  have tok: "scan_json_string_token data (length pre) = Some (length (pre @ ?tok))"
    using scan_token_complete [OF append_json_string_token, of pre k "CHR '':'' # t @ rest @ post"] by (simp add: data_def)
  have key: "unmarshal_string (slice data (length pre) (length (pre @ ?tok))) = Some k"
    using slice_middle [of pre ?tok "CHR '':'' # t @ rest @ post"] Suc.prems(3)
    by (simp add: data_def kts unmarshal_encoded)
  have colon: "skip_json_space data (length (pre @ ?tok)) = length (pre @ ?tok)" "data ! length (pre @ ?tok) = CHR '':''"
      "\<not> length data \<le> length (pre @ ?tok)"
    using skip_here [of "CHR '':''" "pre @ ?tok" "t @ rest @ post"] nth_here [of "pre @ ?tok" "CHR '':''" "t @ rest @ post"]
    by (simp_all add: data_def)
  have start: "skip_json_space data (length (pre @ ?tok) + 1) = length (pre @ ?tok @ '':'')"
    using skip_value [of t "pre @ ?tok @ '':''" "rest @ post"] Suc.prems(3) by (simp add: data_def kts)
  have val: "parse_value True d data (length (pre @ ?tok @ '':'')) = Some (v, length (pre @ ?tok @ '':'' @ t))"
  proof -
    have "value_delimiter (rest @ post)" by (simp add: rest_def)
    from kvs(2) [unfolded parses_def, rule_format, OF this, of "pre @ ?tok @ '':''"]
    show ?thesis by (simp add: data_def)
  qed
  have acc: "put_member k v acc = acc @ [(k, v)]" using Suc.prems(4) by (intro put_new) (simp add: kvs(1))
  define q where "q = length (pre @ ?tok @ '':'' @ t)"
  have q: "skip_json_space data q = q" "q < length data"
    using skip_here [of "hd rest" "pre @ ?tok @ '':'' @ t" "tl rest @ post"] by (auto simp: q_def data_def rest_def)
  have unfolded: "parse_members True (Suc n) (parse_value True d) data (length pre) acc =
      (if data ! q = CHR '','' then parse_members True n (parse_value True d) data (skip_json_space data (q + 1)) (acc @ [(k, v)])
       else if data ! q = CHR ''}'' then Some (acc @ [(k, v)], q + 1) else None)"
    using q unfolding parse_members.simps tok option.case key Let_def colon(1) start val prod.case acc q_def [symmetric]
    by (simp add: colon(2,3) del: length_append)
  show ?case
  proof (cases "kts' = []")
    case True
    then have "data ! q = CHR ''}''" using nth_here [of "pre @ ?tok @ '':'' @ t" "CHR ''}''" post]
      by (simp add: data_def rest_def q_def)
    then show ?thesis using True kvs(4) unfolding all unfolded by (simp add: kvs(1) q_def kts encode_member_def)
  next
    case False
    let ?pre = "pre @ ?tok @ '':'' @ t @ '',''"
    have data: "data = ?pre @ join '','' (map encode_member kts') @ CHR ''}'' # post" using False by (simp add: data_def rest_def)
    have "data ! q = CHR '',''" using nth_here [of "pre @ ?tok @ '':'' @ t" "CHR '',''"]
      by (simp add: data q_def)
    moreover obtain x where x: "join '','' (map encode_member kts') = quote_char # x"
      using False by (cases kts'; cases "tl kts'") (auto simp: encode_member_def append_json_string_def)
    have "skip_json_space data (q + 1) = length ?pre"
      using skip_here [of quote_char ?pre] by (simp add: data x q_def)
    moreover have "parse_members True n (parse_value True d) data (length ?pre) (acc @ [(k, v)])
        = Some ((acc @ [(k, v)]) @ kvs', length ?pre + length (join '','' (map encode_member kts')) + 1)"
      unfolding data using Suc.prems False kvs by (intro Suc.IH) (auto simp: kts)
    moreover have "join '','' (map encode_member kts) = ?tok @ '':'' @ t @ '','' @ join '','' (map encode_member kts')"
      using False by (cases kts') (simp_all add: kts encode_member_def)
    ultimately show ?thesis unfolding all unfolded by (simp add: kvs(1))
  qed
qed (simp add: leD)

lemma sorted_members_kept: "sorted_wrt (<) (map fst ms) \<Longrightarrow> sort_key fst ms = (ms :: (bytes \<times> 'a) list)"
  by (intro sort_key_id_if_sorted) (auto simp: sorted_map sorted_wrt_map elim!: sorted_wrt_mono_rel [rotated])

lemma parse_scalar_text:
  assumes "t \<in> {''true'', ''false'', ''null''} \<or> json_number_grammar t"
    and v: "v = (if t = ''null'' then JsonNull else if t = ''true'' then JsonBool True
      else if t = ''false'' then JsonBool False else JsonNumber t)"
  shows "parses d v t"
  unfolding parses_def
proof (intro allI impI)
  fix pre post assume post: "value_delimiter post"
  have jv: "json_value t" using assms(1) by (auto intro: json_literal json_number)
  then obtain c cs where c: "t = c # cs" "\<not> primitive_end c" by (rule json_value_head)
  have "list_all (\<lambda>c. \<not> primitive_end c) t"
    using assms(1) number_grammar_chars number_char_not_end by (auto simp: list_all_iff primitive_end_def json_space_def)
  from scan_primitive_complete [OF this post, of pre]
  have e: "scan_json_primitive (pre @ t @ post) (length pre) = length pre + length t" .
  have ok: "valid_skipped_primitive t" using assms(1) by (simp only: valid_skipped_primitive_iff)
  have not: "c \<noteq> quote_char \<and> c \<noteq> CHR ''{'' \<and> c \<noteq> CHR ''[''"
    using assms(1) digit_not_letter [of c] by (auto simp: c(1) elim: number_grammar_head)
  have prim: "parse_primitive (pre @ t @ post) (length pre) = Some (v, length pre + length t)"
    unfolding parse_primitive_def e Let_def slice_middle v using ok c by simp
  have "(pre @ t @ post) ! length pre = c" by (simp add: c(1))
  then show "parse_value True d (pre @ t @ post) (length pre) = Some (v, length pre + length t)"
    unfolding parse_value.simps [of True d] prim using not c by simp
qed

lemma parse_string_text: "valid_utf8 s \<Longrightarrow> parses d (JsonString s) (append_json_string [] s)"
  unfolding parses_def
proof (intro allI impI)
  fix pre post assume s: "valid_utf8 s"
  let ?t = "append_json_string [] s"
  have "(pre @ ?t @ post) ! length pre = quote_char" by (simp add: append_json_string_def)
  then show "parse_value True d (pre @ ?t @ post) (length pre) = Some (JsonString s, length pre + length ?t)"
    using scan_token_complete [OF append_json_string_token, of pre s post] slice_middle [of pre ?t post]
    by (simp add: parse_value.simps [of True d] unmarshal_encoded [OF s]) (simp add: append_json_string_def)
qed

lemma length_joined: "length ts \<le> Suc (length (join '','' ts))"
  by (induction "'',''" ts rule: join.induct) auto

lemma opened:
  assumes "v = c # m @ [e]" and "m = [] \<or> (\<exists>x xs. m = x # xs \<and> \<not> json_space x \<and> x \<noteq> e)" and "\<not> json_space e"
  shows "skip_json_space (pre @ v @ post) (length pre + 1) = length pre + 1"
    and "(pre @ v @ post) ! (length pre + 1) = e \<longleftrightarrow> m = []" and "length pre + 1 < length (pre @ v @ post)"
  using skip_here [of "hd (m @ [e])" "pre @ [c]" "tl (m @ [e]) @ post"] assms by (auto simp: nth_append)

lemma joined_head:
  assumes "\<forall>x \<in> set ts. \<exists>c cs. x = c # cs \<and> \<not> json_space c \<and> c \<noteq> CHR ''}'' \<and> c \<noteq> CHR '']''"
  shows "(join '','' ts = []) = (ts = [])"
    and "join '','' ts = [] \<or> (\<exists>c cs. join '','' ts = c # cs \<and> \<not> json_space c \<and> c \<noteq> CHR ''}'')"
    and "join '','' ts = [] \<or> (\<exists>c cs. join '','' ts = c # cs \<and> \<not> json_space c \<and> c \<noteq> CHR '']'')"
proof -
  have "ts = [] \<or> (\<exists>c cs. join '','' ts = c # cs \<and> \<not> json_space c \<and> c \<noteq> CHR ''}'' \<and> c \<noteq> CHR '']'')"
  proof (cases ts)
    case (Cons x xs)
    then obtain c cs where "x = c # cs" "\<not> json_space c \<and> c \<noteq> CHR ''}'' \<and> c \<noteq> CHR '']''" using assms by auto
    then show ?thesis using Cons by (cases xs) simp_all
  qed simp
  then show "(join '','' ts = []) = (ts = [])"
    and "join '','' ts = [] \<or> (\<exists>c cs. join '','' ts = c # cs \<and> \<not> json_space c \<and> c \<noteq> CHR ''}'')"
    and "join '','' ts = [] \<or> (\<exists>c cs. join '','' ts = c # cs \<and> \<not> json_space c \<and> c \<noteq> CHR '']'')" by auto
qed

lemma parse_object_text:
  assumes "list_all2 (parses d) (map snd kvs) (map snd kts)" and "map fst kts = map fst kvs"
    and "\<forall>kt \<in> set kts. written (snd kt) \<and> valid_utf8 (fst kt)" and "distinct (map fst kvs)"
  shows "parses (Suc d) (JsonObject kvs) (''{'' @ join '','' (map encode_member kts) @ ''}'')"
  unfolding parses_def
proof (intro allI impI)
  fix pre post
  let ?m = "join '','' (map encode_member kts)"
  let ?data = "pre @ (''{'' @ ?m @ ''}'') @ post"
  have "\<exists>c cs. x = c # cs \<and> \<not> json_space c \<and> c \<noteq> CHR ''}'' \<and> c \<noteq> CHR '']''" if "x \<in> set (map encode_member kts)" for x
  proof -
    obtain kt where "x = encode_member kt" using \<open>x \<in> set (map encode_member kts)\<close> by (metis ex_map_conv)
    then have "x = quote_char # (escape_json (fst kt) @ [quote_char] @ '':'' @ snd kt)"
      by (simp add: encode_member_def append_json_string_def)
    then show ?thesis by simp
  qed
  then have one: "\<forall>x \<in> set (map encode_member kts).
      \<exists>c cs. x = c # cs \<and> \<not> json_space c \<and> c \<noteq> CHR ''}'' \<and> c \<noteq> CHR '']''" by blast
  have head: "(?m = []) = (kts = [])" "?m = [] \<or> (\<exists>c cs. ?m = c # cs \<and> \<not> json_space c \<and> c \<noteq> CHR ''}'')"
    using joined_head(1) [OF one] joined_head(2) [OF one] by simp_all
  note o = opened [of "''{'' @ ?m @ ''}''" "CHR ''{''" ?m "CHR ''}''" pre post, OF _ head(2)]
  have o: "skip_json_space ?data (length pre + 1) = length pre + 1"
      "?data ! (length pre + 1) = CHR ''}'' \<longleftrightarrow> kts = []" "length pre + 1 < length ?data"
    using o head(1) by simp_all
  have at: "?data ! length pre = CHR ''{''" "length pre < length ?data" by simp_all
  have parse: "parse_value True (Suc d) ?data (length pre) =
      (if kts = [] then Some (JsonObject [], length pre + 1 + 1)
       else map_option (\<lambda>(ms, e). (JsonObject ms, e)) (parse_members True (length ?data) (parse_value True d) ?data (length pre + 1) []))"
    unfolding parse_value.simps [of True "Suc d"] nat.case Let_def o(1) using at o(2,3) by (simp del: length_append append.simps)
  show "parse_value True (Suc d) ?data (length pre) = Some (JsonObject kvs, length pre + length (''{'' @ ?m @ ''}''))"
  proof (cases "kts = []")
    case True
    then show ?thesis unfolding parse using assms(2) by simp
  next
    case False
    have "length kts \<le> length ?data" using length_joined [of "map encode_member kts"] by simp
    from parse_members_joined [OF assms(1-3) _ False this, of "[]" "pre @ ''{''" post] assms(4) False
    show ?thesis unfolding parse by simp
  qed
qed

lemma parse_array_text:
  assumes "list_all2 (parses d) vs ts" and "\<forall>t \<in> set ts. written t"
  shows "parses (Suc d) (JsonArray vs) (''['' @ join '','' ts @ '']'')"
  unfolding parses_def
proof (intro allI impI)
  fix pre post
  let ?m = "join '','' ts"
  let ?data = "pre @ (''['' @ ?m @ '']'') @ post"
  have "\<exists>c cs. t = c # cs \<and> \<not> json_space c \<and> c \<noteq> CHR ''}'' \<and> c \<noteq> CHR '']''" if "t \<in> set ts" for t
  proof -
    have "json_value t" using assms(2) that by (simp add: written_def)
    then show ?thesis by (auto elim!: json_value_head simp: primitive_end_def)
  qed
  then have one: "\<forall>t \<in> set ts. \<exists>c cs. t = c # cs \<and> \<not> json_space c \<and> c \<noteq> CHR ''}'' \<and> c \<noteq> CHR '']''" by blast
  note head = joined_head(1) [OF one] joined_head(3) [OF one]
  note o = opened [of "''['' @ ?m @ '']''" "CHR ''[''" ?m "CHR '']''" pre post, OF _ head(2)]
  have o: "skip_json_space ?data (length pre + 1) = length pre + 1"
      "?data ! (length pre + 1) = CHR '']'' \<longleftrightarrow> ts = []" "length pre + 1 < length ?data"
    using o head(1) by simp_all
  have at: "?data ! length pre = CHR ''[''" "length pre < length ?data" by simp_all
  have parse: "parse_value True (Suc d) ?data (length pre) =
      (if ts = [] then Some (JsonArray [], length pre + 1 + 1)
       else map_option (\<lambda>(vs, e). (JsonArray vs, e)) (parse_elements (length ?data) (parse_value True d) ?data (length pre + 1)))"
    unfolding parse_value.simps [of True "Suc d"] nat.case Let_def o(1) using at o(2,3) by (simp del: length_append append.simps)
  show "parse_value True (Suc d) ?data (length pre) = Some (JsonArray vs, length pre + length (''['' @ ?m @ '']''))"
  proof (cases "ts = []")
    case True
    then show ?thesis unfolding parse using assms(1) by simp
  next
    case False
    have "length ts \<le> length ?data" using length_joined [of ts] by simp
    from parse_elements_joined [OF assms False this, of "pre @ ''[''" post] False
    show ?thesis unfolding parse by simp
  qed
qed

lemma collect_some:
  assumes "\<And>x. x \<in> set xs \<Longrightarrow> \<exists>y. f x = Some y \<and> P x y"
  shows "\<exists>ys. map f xs = map Some ys \<and> list_all2 P xs ys"
  using assms
proof (induction xs)
  case (Cons x xs)
  obtain y where y: "f x = Some y" "P x y" using Cons.prems by auto
  obtain ys where ys: "map f xs = map Some ys" "list_all2 P xs ys" using Cons by auto
  have "map f (x # xs) = map Some (y # ys)" "list_all2 P (x # xs) (y # ys)" using y ys by simp_all
  then show ?case by blast
qed simp

lemma encode_parses: "fits d t \<Longrightarrow> \<exists>v. encode_tree t = Some v \<and> written v \<and> parses d t v"
proof (induction t arbitrary: d)
  case JsonNull
  then show ?case using parse_scalar_text [of "''null''"] null_written by auto
next
  case (JsonBool b)
  then show ?case using parse_scalar_text [of "if b then ''true'' else ''false''"] literal_written by auto
next
  case (JsonString s)
  then show ?case using parse_string_text encoded_written by simp
next
  case (JsonNumber n)
  have g: "json_number_grammar n" using JsonNumber by (simp add: valid_json_number_iff)
  then obtain c cs where "n = c # cs" "c = CHR ''-'' \<or> json_digit c" by (rule number_grammar_head)
  then have "n \<notin> {''null'', ''true'', ''false''}" by (auto simp: json_digit_def)
  then show ?case using parse_scalar_text [of n] g number_written JsonNumber by auto
next
  case (JsonObject ms)
  obtain e where d: "d = Suc e" using JsonObject.prems by (cases d) auto
  have ms: "sorted_wrt (<) (map fst ms)" "\<forall>(k, v) \<in> set ms. valid_utf8 k \<and> fits e v"
    using JsonObject.prems by (simp_all add: d list_all_iff)
  define enc where "enc = (\<lambda>kv :: bytes \<times> json_tree. tagged (fst kv, encode_tree (snd kv)))"
  define P where "P = (\<lambda>(kv :: bytes \<times> json_tree) kt. fst kt = fst kv \<and> written (snd kt) \<and> parses e (snd kv) (snd kt))"
  have "\<exists>kt. enc kv = Some kt \<and> P kv kt" if kv: "kv \<in> set ms" for kv
  proof -
    have "\<exists>v. encode_tree (snd kv) = Some v \<and> written v \<and> parses e (snd kv) v"
      using JsonObject.IH [of kv "snd kv" e] kv ms(2) by (cases kv) auto
    then show ?thesis by (auto simp: enc_def P_def tagged_def)
  qed
  from collect_some [of ms enc P, OF this] obtain kts where kts: "map enc ms = map Some kts" "list_all2 P ms kts" by blast
  have "all_some (map enc ms) = Some kts" using kts(1) by (simp only: all_some_iff)
  moreover have "map enc ms = map tagged (sort_key fst (map (\<lambda>(k, v). (k, encode_tree v)) ms))"
    using sorted_members_kept [of "map (\<lambda>(k, v). (k, encode_tree v)) ms"] ms(1)
    by (simp add: enc_def comp_def case_prod_beta)
  ultimately have enc: "encode_tree (JsonObject ms) = Some (''{'' @ join '','' (map encode_member kts) @ ''}'')" by simp
  have 1: "list_all2 (parses e) (map snd ms) (map snd kts)" and 2: "map fst kts = map fst ms"
    using kts(2) by (induction rule: list_all2_induct) (auto simp: P_def)
  have 3: "\<forall>kt \<in> set kts. written (snd kt)" using kts(2) by (induction rule: list_all2_induct) (auto simp: P_def)
  have "fst kt \<in> fst ` set ms" if "kt \<in> set kts" for kt using 2 that by (metis image_eqI set_map)
  then have 4: "\<forall>kt \<in> set kts. valid_utf8 (fst kt)" using ms(2) by force
  have 5: "distinct (map fst ms)" using ms(1) strict_sorted_iff by blast
  have 6: "\<forall>kt \<in> set kts. written (snd kt) \<and> valid_utf8 (fst kt)" using 3 4 by blast
  show ?case using parse_object_text [OF 1 2 6 5] object_text_written [OF 3] enc unfolding d by blast
next
  case (JsonArray vs)
  obtain e where d: "d = Suc e" using JsonArray.prems by (cases d) auto
  have "\<exists>v. encode_tree x = Some v \<and> (written v \<and> parses e x v)" if "x \<in> set vs" for x
    using JsonArray that by (auto simp: d list_all_iff)
  from collect_some [of vs encode_tree, OF this]
  obtain ts where ts: "map encode_tree vs = map Some ts" "list_all2 (\<lambda>x v. written v \<and> parses e x v) vs ts" by blast
  have 1: "list_all2 (parses e) vs ts" using ts(2) by (rule list_all2_mono) simp
  have 2: "\<forall>t \<in> set ts. written t" using ts(2) by (induction rule: list_all2_induct) auto
  have "encode_tree (JsonArray vs) = Some (''['' @ join '','' ts @ '']'')" using ts(1) by (simp add: all_some_iff)
  then show ?case using parse_array_text [OF 1 2] array_text_written [OF 2] unfolding d by blast
qed

section \<open>Properties\<close>

text \<open>
  C38: What \<open>encodeJSONTree\<close> writes for a tree of valid UTF-8 strings, of numbers and of
  objects with their members in order, is JSON, one line long, and decodes to the same
  tree again.
\<close>

theorem encoded_tree_decodes:
  assumes "fits json_max_nesting t"
  shows "\<exists>out. encode_tree t = Some out \<and> json_value out \<and> valid_utf8 out \<and> no_control out
    \<and> decode_json out 0 = Some (t, length out)"
proof -
  obtain out where out: "encode_tree t = Some out" "written out" "parses json_max_nesting t out"
    using encode_parses [OF assms] by blast
  have "decode_json out 0 = Some (t, length out)"
    using out(3) [unfolded parses_def, rule_format, of "[]" "[]"] skip_value [OF out(2), of "[]" "[]"]
    by (simp add: decode_json_def)
  then show ?thesis using out by (auto simp: written_def)
qed

theorem encoded_tree_decodes_witness:
  "\<exists>out. encode_tree (JsonObject [(''a'', JsonNull), (''b'', JsonArray [JsonBool True])]) = Some out
    \<and> decode_json out 0 = Some (JsonObject [(''a'', JsonNull), (''b'', JsonArray [JsonBool True])], length out)"
proof -
  have "valid_utf8 ''a''" "valid_utf8 ''b''" by (rule valid_utf8_ascii; simp)+
  then have two: "fits (Suc (Suc n)) (JsonObject [(''a'', JsonNull), (''b'', JsonArray [JsonBool True])])" for n
    by simp
  have "json_max_nesting = Suc (Suc 9998)" by (simp add: json_max_nesting_def)
  then have "fits json_max_nesting (JsonObject [(''a'', JsonNull), (''b'', JsonArray [JsonBool True])])"
    using two [of 9998] by (rule ssubst)
  from encoded_tree_decodes [OF this] show ?thesis by blast
qed

end
