(* ===== verification/Json.thy ===== *)
theory Json
  imports Stream JsonGrammar
begin

text \<open>
  The JSON operations of a \<open>Masker\<close> (\<open>json.go\<close> and \<open>maskJSONStream\<close>): one document in
  memory or from a reader, and the bounded read in front of it.  A reader is the list of
  what its calls return before they are cut to the buffer; past the list it reports the
  end of input.
\<close>

section \<open>Masking a document\<close>

definition safe_json_fallback :: "masker \<Rightarrow> bytes" where
  "safe_json_fallback m = json_marshal_string (marker (m_cfg m))"

definition json_failure :: "golib \<Rightarrow> masker \<Rightarrow> error_code \<Rightarrow> bytes \<times> go_error option" where
  "json_failure L m code = (safe_json_fallback m, Some (MaskError (new_mask_error (tables L) code ''mask_json'' ''$'')))"

definition has_json_resource_error :: "mask_error list \<Rightarrow> bool" where
  "has_json_resource_error errs = list_ex (\<lambda>e. limit_code (e_code e)) errs"

definition root_field :: field where
  "root_field = \<lparr>f_key = [], f_path = ''$'', f_source = SourceJSON, f_kind = KindInvalid\<rparr>"

definition mask_json_stream :: "golib \<Rightarrow> masker \<Rightarrow> bytes \<Rightarrow> bytes \<times> go_error option" where
  "mask_json_stream L m data =
     (case append_value L m 0 data 0 root_field (new_stream_walker 0 []) [] of
        (r, w, result) \<Rightarrow>
          (case r of
             None \<Rightarrow> json_failure L m CodeInvalidJSON
           | Some (next, _) \<Rightarrow>
               if skip_json_space data next \<noteq> length data then json_failure L m CodeInvalidJSON
               else if has_json_resource_error (st_errs (w_ins w)) \<and> \<not> valid_json_document data then
                 json_failure L m CodeInvalidJSON
               else (case aggregate_errors (st_errs (w_ins w)) of
                   Some e \<Rightarrow> (safe_json_fallback m, Some e)
                 | None \<Rightarrow> (result, None))))"

definition mask_json_checked :: "golib \<Rightarrow> masker \<Rightarrow> bytes \<Rightarrow> bytes \<times> go_error option" where
  "mask_json_checked L m data =
     (if \<not> valid_utf8 data then json_failure L m CodeInvalidUTF8 else mask_json_stream L m data)"

text \<open>\<open>MaskJSON\<close>; a nil masker is \<open>None\<close>.\<close>

definition nil_masker_json :: "bytes \<times> go_error option" where
  "nil_masker_json = (quote_char # default_redaction_marker @ [quote_char], Some (Wrapped CodeInvalidConfig))"

definition mask_json :: "golib \<Rightarrow> masker option \<Rightarrow> bytes \<Rightarrow> bytes \<times> go_error option" where
  "mask_json L m src = (case m of
       None \<Rightarrow> nil_masker_json
     | Some m \<Rightarrow>
         if max_input_bytes (m_cfg m) < int (length src) then json_failure L m CodeInputLimit
         else mask_json_checked L m src)"

section \<open>Readers\<close>

datatype read_error = EndOfInput | NoProgress | ReadFailed

type_synonym reader = "(bytes \<times> read_error option) list"

type_synonym read_result = "(bytes \<times> read_error option) \<times> reader"

text \<open>One call with a buffer of \<open>n\<close> bytes; what does not fit stays for the next call.\<close>

fun reader_read :: "nat \<Rightarrow> reader \<Rightarrow> read_result" where
  "reader_read n [] = (([], Some EndOfInput), [])"
| "reader_read n ((bs, e) # rest) =
     (if length bs \<le> n then ((bs, e), rest) else ((take n bs, None), (drop n bs, e) # rest))"

definition max_empty_reads :: nat where
  "max_empty_reads = 100"

fun progress_read :: "nat \<Rightarrow> nat \<Rightarrow> reader \<Rightarrow> read_result" where
  "progress_read 0 n r = (([], Some NoProgress), r)"
| "progress_read (Suc tries) n r = (case reader_read n r of
       ((bs, e), r) \<Rightarrow> if bs \<noteq> [] \<or> e \<noteq> None \<or> n = 0 then ((bs, e), r) else progress_read tries n r)"

lemma progress_read_progress: "progress_read tries n r = (([], None), r') \<Longrightarrow> n = 0"
  by (induction tries n r rule: progress_read.induct) (auto split: prod.splits if_splits)

lemma progress_read_fits: "progress_read tries n r = ((bs, e), r') \<Longrightarrow> length bs \<le> n"
proof (induction tries n r rule: progress_read.induct)
  case (2 tries n r)
  have "reader_read n r = ((cs, d), r2) \<Longrightarrow> length cs \<le> n" for cs d r2
    by (cases "(n, r)" rule: reader_read.cases) (auto split: if_splits)
  then show ?case using 2 by (auto split: prod.splits if_splits)
qed simp

text \<open>
  \<open>io.ReadAll\<close> of an \<open>io.LimitedReader\<close> with \<open>limit\<close> bytes left; \<open>spare\<close> is the free
  space of the buffer, at least one byte, after so many bytes.
\<close>

function read_all :: "(nat \<Rightarrow> nat) \<Rightarrow> nat \<Rightarrow> bytes \<Rightarrow> reader \<Rightarrow> (read_error + bytes) \<times> reader" where
  "read_all spare limit buf r =
     (if limit = 0 then (Inr buf, r)
      else case progress_read max_empty_reads (min (Suc (spare (length buf))) limit) r of
        ((bs, e), r') \<Rightarrow>
          (case e of
             None \<Rightarrow> read_all spare (limit - length bs) (buf @ bs) r'
           | Some e \<Rightarrow> (if e = EndOfInput then Inr (buf @ bs) else Inl e, r')))"
  by pat_completeness auto
termination
proof (relation "measure (\<lambda>(spare, limit, buf, r). limit)", simp, goal_cases)
  case (1 spare limit buf r x r' bs e)
  then have "bs \<noteq> []"
    using progress_read_progress [of max_empty_reads "min (Suc (spare (length buf))) limit" r r'] by auto
  then show ?case using 1 by simp
qed

declare read_all.simps [simp del]

text \<open>\<open>readLimited\<close>; \<open>Inl None\<close> is \<open>errInputLimit\<close>.\<close>

definition read_limited :: "(nat \<Rightarrow> nat) \<Rightarrow> nat \<Rightarrow> reader \<Rightarrow> read_error option + bytes" where
  "read_limited spare limit r = (case read_all spare limit [] r of
       (Inl e, _) \<Rightarrow> Inl (Some e)
     | (Inr data, r') \<Rightarrow>
         if length data < limit then Inr data
         else (case progress_read max_empty_reads 1 r' of
           ((bs, e), _) \<Rightarrow>
             if bs \<noteq> [] then Inl None
             else (case e of
                 Some e \<Rightarrow> if e = EndOfInput then Inr data else Inl (Some e)
               | None \<Rightarrow> Inr data)))"

definition mask_json_reader ::
    "golib \<Rightarrow> masker option \<Rightarrow> (nat \<Rightarrow> nat) \<Rightarrow> reader option \<Rightarrow> bytes \<times> go_error option" where
  "mask_json_reader L m spare src = (case m of
       None \<Rightarrow> nil_masker_json
     | Some m \<Rightarrow>
         (case src of
            None \<Rightarrow> json_failure L m CodeInvalidJSON
          | Some r \<Rightarrow>
              (case read_limited spare (nat (max_input_bytes (m_cfg m))) r of
                 Inl None \<Rightarrow> json_failure L m CodeInputLimit
               | Inl (Some e) \<Rightarrow> json_failure L m CodeInvalidJSON
               | Inr data \<Rightarrow> mask_json_checked L m data)))"

section \<open>What a reader delivers\<close>

text \<open>The bytes a reader holds up to its first error, and that error.\<close>

fun reader_text :: "reader \<Rightarrow> bytes \<times> read_error" where
  "reader_text [] = ([], EndOfInput)"
| "reader_text ((bs, Some e) # rest) = (bs, e)"
| "reader_text ((bs, None) # rest) = (bs @ fst (reader_text rest), snd (reader_text rest))"

text \<open>A reader that ends for good with its first error.\<close>

fun steady :: "reader \<Rightarrow> bool" where
  "steady [] = True"
| "steady ((bs, Some e) # rest) = (rest = [])"
| "steady ((bs, None) # rest) = steady rest"

definition delivers :: "reader \<Rightarrow> bytes \<Rightarrow> read_error option \<Rightarrow> reader \<Rightarrow> bool" where
  "delivers r bs e r' \<longleftrightarrow> reader_text r = (case e of
       None \<Rightarrow> (bs @ fst (reader_text r'), snd (reader_text r'))
     | Some e \<Rightarrow> (bs, e)) \<and> (steady r \<longrightarrow> steady r' \<and> (e \<noteq> None \<longrightarrow> r' = []))"

lemma reader_read_delivers:
  assumes "reader_read n r = ((bs, e), r')"
  shows "delivers r bs e r'"
proof (cases r)
  case (Cons x rest)
  then show ?thesis using assms by (cases x; cases "snd x") (auto simp: delivers_def split: if_splits)
qed (use assms in \<open>auto simp: delivers_def\<close>)

lemma delivers_nothing: "delivers r [] None r1 \<Longrightarrow> delivers r1 bs e r2 \<Longrightarrow> delivers r bs e r2"
  by (auto simp: delivers_def)

lemma progress_read_delivers: "progress_read tries n r = ((bs, e), r') \<Longrightarrow> bs = [] \<and> e = Some NoProgress \<or> delivers r bs e r'"
proof (induction tries n r rule: progress_read.induct)
  case (2 tries n r)
  obtain cs d r2 where read: "reader_read n r = ((cs, d), r2)" by (metis surj_pair)
  show ?case
  proof (cases "cs \<noteq> [] \<or> d \<noteq> None \<or> n = 0")
    case True
    then show ?thesis using "2.prems" read reader_read_delivers [OF read] by simp
  next
    case False
    then have next_read: "progress_read tries n r2 = ((bs, e), r')" using "2.prems" read by simp
    have "bs = [] \<and> e = Some NoProgress \<or> delivers r2 bs e r'"
      by (rule "2.IH" [OF read [symmetric] refl _ next_read]) (use False in simp)
    then show ?thesis using False reader_read_delivers [OF read] delivers_nothing by auto
  qed
qed simp

text \<open>What \<open>io.ReadAll\<close> returned: all of the input, or as much of it as the limit allows.\<close>

lemma read_all_delivers:
  assumes "read_all spare limit buf r = (Inr out, r')"
  obtains bs where "out = buf @ bs" and "length bs \<le> limit"
    and "reader_text r = (bs, EndOfInput) \<and> (steady r \<longrightarrow> r' = []) \<or> delivers r bs None r' \<and> length bs = limit"
proof -
  have "\<exists>bs. out = buf @ bs \<and> length bs \<le> limit \<and>
      (reader_text r = (bs, EndOfInput) \<and> (steady r \<longrightarrow> r' = []) \<or> delivers r bs None r' \<and> length bs = limit)"
    using assms
  proof (induction spare limit buf r rule: read_all.induct)
    case (1 spare limit buf r)
    show ?case
    proof (cases "limit = 0")
      case True
      then show ?thesis using "1.prems" by (auto simp: read_all.simps [of spare] delivers_def)
    next
      case False
      let ?n = "min (Suc (spare (length buf))) limit"
      obtain cs d r2 where read: "progress_read max_empty_reads ?n r = ((cs, d), r2)" by (metis surj_pair)
      have fits: "length cs \<le> limit" using progress_read_fits [OF read] by simp
      show ?thesis
      proof (cases d)
        case None
        then have d: "delivers r cs None r2" using progress_read_delivers [OF read] by simp
        have "read_all spare (limit - length cs) (buf @ cs) r2 = (Inr out, r')"
          using "1.prems" False read None by (simp add: read_all.simps [of spare limit])
        from "1.IH" [OF False read [symmetric] refl None this] obtain bs where bs: "out = (buf @ cs) @ bs"
            "length bs \<le> limit - length cs"
            "reader_text r2 = (bs, EndOfInput) \<and> (steady r2 \<longrightarrow> r' = []) \<or> delivers r2 bs None r' \<and> length bs = limit - length cs"
          by blast
        show ?thesis
          by (rule exI [of _ "cs @ bs"]) (use bs d fits in \<open>auto simp: delivers_def\<close>)
      next
        case (Some e)
        then have e: "e = EndOfInput" "out = buf @ cs" "r' = r2"
          using "1.prems" False read by (auto simp: read_all.simps [of spare limit] split: if_splits)
        then have "delivers r cs (Some EndOfInput) r2" using progress_read_delivers [OF read] Some by simp
        then show ?thesis using e fits by (intro exI [of _ cs]) (simp add: delivers_def)
      qed
    qed
  qed
  then show thesis using that by blast
qed

section \<open>Properties\<close>

text \<open>
  C32: The bounded read never takes a document past the limit: what it accepts is the
  whole input of the reader, read up to its end, and no longer than the limit, whatever
  the sizes of the reads; and it reports the limit only for an input that exceeds it.
\<close>

theorem read_limited_exact:
  "(read_limited spare limit r = Inr data \<longrightarrow> reader_text r = (data, EndOfInput) \<and> length data \<le> limit)
    \<and> (read_limited spare limit r = Inl None \<and> steady r \<longrightarrow> limit < length (fst (reader_text r)))"
proof -
  obtain res r' where all: "read_all spare limit [] r = (res, r')" by (cases "read_all spare limit [] r")
  show ?thesis
  proof (cases res)
    case (Inl e)
    then show ?thesis using all by (simp add: read_limited_def)
  next
    case (Inr out)
    from all [unfolded Inr] obtain bs where bs: "out = [] @ bs" "length bs \<le> limit"
        "reader_text r = (bs, EndOfInput) \<and> (steady r \<longrightarrow> r' = []) \<or> delivers r bs None r' \<and> length bs = limit"
      by (rule read_all_delivers)
    obtain cs e r2 where probe: "progress_read max_empty_reads 1 r' = ((cs, e), r2)" by (metis surj_pair)
    have e: "e \<noteq> None \<or> cs \<noteq> []" using progress_read_progress [of max_empty_reads 1 r' r2] probe by auto
    have d: "cs = [] \<and> e = Some NoProgress \<or> delivers r' cs e r2" by (rule progress_read_delivers [OF probe])
    have empty: "progress_read max_empty_reads 1 [] = (([], Some EndOfInput), [])"
      by (simp add: max_empty_reads_def numeral_eq_Suc)
    show ?thesis using bs e d probe empty
      by (auto simp: read_limited_def all Inr delivers_def split: if_splits option.splits)
  qed
qed

theorem read_limited_exact_witness:
  "reader_text [(''ab'', None), ([], None), (''c'', Some EndOfInput)] = (''abc'', EndOfInput)"
proof -
  have "read_limited (\<lambda>_. 1) 5 [(''ab'', None), ([], None), (''c'', Some EndOfInput)] = Inr ''abc''"
    by (simp add: read_limited_def read_all.simps max_empty_reads_def numeral_eq_Suc)
  then show ?thesis by (rule read_limited_exact [THEN conjunct1, THEN mp, THEN conjunct1])
qed

text \<open>
  C3: A JSON operation that reports an error returns the marker as a JSON string and
  nothing of the input.
\<close>

theorem mask_json_fails_closed:
  "(case mask_json L (Some m) src of (result, Some e) \<Rightarrow> result = json_marshal_string (marker (m_cfg m)) | _ \<Rightarrow> True)
    \<and> (case mask_json_reader L (Some m) spare input of
         (result, Some e) \<Rightarrow> result = json_marshal_string (marker (m_cfg m)) | _ \<Rightarrow> True)"
proof -
  have "case mask_json_checked L m data of
      (result, Some e) \<Rightarrow> result = json_marshal_string (marker (m_cfg m)) | _ \<Rightarrow> True" for data
    by (auto simp: mask_json_checked_def mask_json_stream_def json_failure_def safe_json_fallback_def
        split: prod.splits option.splits if_splits)
  then show ?thesis
    by (auto simp: mask_json_def mask_json_reader_def json_failure_def safe_json_fallback_def
        split: option.splits sum.splits)
qed

end
