(* ===== verification/StreamSound.thy ===== *)
theory StreamSound
  imports StreamText Json
begin

text \<open>
  The contract of a step of the streaming walker, proved for every level: it reads one
  value of the grammar and writes one, or nothing when the value is omitted; failures
  and limits that were recorded stay recorded; the path is restored.
\<close>

section \<open>The state only moves forward\<close>

definition has_limit :: "mask_error list \<Rightarrow> bool" where
  "has_limit errs \<longleftrightarrow> (\<exists>e \<in> set errs. limit_code (e_code e))"

text \<open>
  The failures that were recorded stay where they are, but for the entry 64, which gives
  way to a limit.
\<close>

definition failures_stay :: "mask_error list \<Rightarrow> mask_error list \<Rightarrow> bool" where
  "failures_stay errs errs' \<longleftrightarrow> prefix (take (max_mask_errors - 1) errs) errs'"

lemma failures_stay_refl [simp]: "failures_stay errs errs"
  by (simp add: failures_stay_def take_is_prefix)

lemma failures_stay_Nil [simp]: "failures_stay [] errs"
  by (simp add: failures_stay_def)

lemma failures_stay_trans: "failures_stay a b \<Longrightarrow> failures_stay b c \<Longrightarrow> failures_stay a c"
proof -
  let ?n = "max_mask_errors - 1"
  assume "failures_stay a b" "failures_stay b c"
  then obtain x where b: "b = take ?n a @ x" and c: "prefix (take ?n b) c"
    unfolding failures_stay_def prefix_def by blast
  have "take ?n b = take ?n a @ take (?n - length (take ?n a)) x" unfolding b by (simp only: take_append take_take min.idem)
  then show "failures_stay a c" unfolding failures_stay_def using c append_prefixD by metis
qed

lemma failures_stay_append: "failures_stay errs (errs @ new)"
  by (simp add: failures_stay_def take_is_prefix)

definition state_le :: "inspect_state \<Rightarrow> inspect_state \<Rightarrow> bool" where
  "state_le st st' \<longleftrightarrow>
     (st_errs st \<noteq> [] \<longrightarrow> st_errs st' \<noteq> [])
   \<and> (length (st_errs st) \<le> max_mask_errors \<longrightarrow> length (st_errs st') \<le> max_mask_errors)
   \<and> (has_limit (st_errs st) \<longrightarrow> has_limit (st_errs st'))
   \<and> (st_stop st' \<longrightarrow> st_stop st \<or> has_limit (st_errs st'))
   \<and> (st_stop st \<longrightarrow> st_stop st')
   \<and> st_nodes st \<le> st_nodes st'
   \<and> failures_stay (st_errs st) (st_errs st')"

lemma state_le_refl [simp]: "state_le st st"
  by (simp add: state_le_def)

lemma state_le_trans [trans]: "state_le a b \<Longrightarrow> state_le b c \<Longrightarrow> state_le a c"
  unfolding state_le_def by (elim conjE) (intro conjI impI; (rule failures_stay_trans)?; blast?, linarith?)

definition errs_le :: "mask_error list \<Rightarrow> mask_error list \<Rightarrow> bool" where
  "errs_le errs errs' \<longleftrightarrow> (errs \<noteq> [] \<longrightarrow> errs' \<noteq> [])
     \<and> (length errs \<le> max_mask_errors \<longrightarrow> length errs' \<le> max_mask_errors) \<and> (has_limit errs \<longrightarrow> has_limit errs')
     \<and> failures_stay errs errs'"

lemma errs_le_trans: "errs_le a b \<Longrightarrow> errs_le b c \<Longrightarrow> errs_le a c"
  using failures_stay_trans by (auto simp: errs_le_def)

lemma add_mask_error_le: "errs_le errs (add_mask_error errs e)"
  by (auto simp: errs_le_def has_limit_def add_mask_error_def failures_stay_append)

lemma add_unique_le: "errs_le errs (add_unique errs e)"
  using add_mask_error_le by (auto simp: add_unique_def errs_le_def)

lemma add_field_error_le: "errs_le errs (add_field_error L c f d errs)"
  using add_mask_error_le by (auto simp: add_field_error_def errs_le_def)

lemma add_rule_error_le: "errs_le errs (add_rule_error L c f r errs)"
  using add_mask_error_le by (auto simp: add_rule_error_def errs_le_def)

lemma add_priority_stay: "failures_stay errs (add_priority_mask_error errs e)"
  by (auto simp: add_priority_mask_error_def add_mask_error_def failures_stay_append failures_stay_def
      prefix_def take_update_cancel intro!: exI [of _ "drop (max_mask_errors - 1) (errs[max_mask_errors - 1 := e])"])
     (metis append_take_drop_id order_refl take_update_cancel)

lemma add_priority_limit: "limit_code (e_code e) \<Longrightarrow> has_limit (add_priority_mask_error errs e)"
proof -
  assume "limit_code (e_code e)"
  moreover have "e \<in> set (add_priority_mask_error errs e)"
    by (auto simp: add_priority_mask_error_def add_mask_error_def max_mask_errors_def intro!: set_update_memI)
  ultimately show ?thesis by (auto simp: has_limit_def)
qed

lemma add_priority_le: "limit_code (e_code e) \<Longrightarrow> errs_le errs (add_priority_mask_error errs e)"
  using add_priority_limit [of e errs] add_errors_nonempty(3) add_priority_bound add_priority_stay
  by (simp add: errs_le_def)

lemma new_field_error_code [simp]: "e_code (new_field_error u c f d) = c"
  by (simp add: new_field_error_def new_mask_error_def)

lemma state_errs_le: "errs_le (st_errs st) errs \<Longrightarrow> state_le st (st\<lparr>st_errs := errs\<rparr>)"
  by (auto simp: state_le_def errs_le_def)

lemma state_nodes_le: "st_nodes st \<le> n \<Longrightarrow> state_le st (st\<lparr>st_nodes := n\<rparr>)"
  by (simp add: state_le_def)

lemma state_limit_le:
  "limit_code (e_code e) \<Longrightarrow> state_le st (st\<lparr>st_stop := True, st_errs := add_priority_mask_error (st_errs st) e\<rparr>)"
  using add_priority_le [of e "st_errs st"] add_priority_limit [of e "st_errs st"] by (auto simp: state_le_def errs_le_def)

lemma fail_inspect_le: "state_le st (fail_inspect L c f d st)"
  using state_limit_le [of "new_field_error (tables L) c f d" st] state_errs_le [OF add_field_error_le]
  by (simp add: fail_inspect_def)

lemma decide_member_le: "decide_member L m f v d st = (r, st') \<Longrightarrow> state_le st st'"
proof -
  assume d: "decide_member L m f v d st = (r, st')"
  have n: "state_le st (st\<lparr>st_nodes := st_nodes st + 1\<rparr>)" by (rule state_nodes_le) simp
  note le = fail_inspect_le n state_le_trans [OF n fail_inspect_le] state_le_trans [OF n state_errs_le [OF add_field_error_le]]
    state_le_trans [OF n state_errs_le [OF add_rule_error_le]]
  from d show ?thesis
    by (auto simp: decide_member_def Let_def le [simplified] split: if_splits sum.splits)
qed

section \<open>Inspections\<close>

definition inspector_ok :: "string_inspector \<Rightarrow> bool" where
  "inspector_ok inspect \<longleftrightarrow> (\<forall>s f st r st'. inspect s f st = (r, st') \<longrightarrow> state_le st st')"

definition document_ok :: "document_walker \<Rightarrow> bool" where
  "document_ok inner \<longleftrightarrow> (\<forall>data f nodes out st changes. inner data f nodes = (out, st, changes)
     \<longrightarrow> state_le \<lparr>st_nodes = nodes, st_errs = [], st_stop = False\<rparr> st)"

lemma pair_edits_le: "pair_edits L m s f d ps st = (r, st') \<Longrightarrow> state_le st st'"
proof (induction ps arbitrary: st r st')
  case (Cons p ps)
  obtain masked decided keep st1 where
    d: "decide_member L m (text_member s f p) (slice s (value_start p) (value_end p)) d st = ((masked, decided, keep), st1)"
    by (metis surj_pair)
  note le = decide_member_le [OF d]
  show ?case
  proof (cases "st_stop st1")
    case True
    then show ?thesis using Cons.prems d le by simp
  next
    case False
    obtain r2 st2 where r2: "pair_edits L m s f d ps st1 = (r2, st2)" by (cases "pair_edits L m s f d ps st1")
    then have "st' = st2" using Cons.prems d False by (auto split: if_splits)
    then show ?thesis using state_le_trans [OF le Cons.IH [OF r2]] by simp
  qed
qed simp

lemma inspect_text_le: "inspect_text L m s f d st = (r, st') \<Longrightarrow> state_le st st'"
  using pair_edits_le by (fastforce simp: inspect_text_def split: prod.splits if_splits option.splits)

text \<open>A relation every call of the callback keeps is kept by the whole rewrite.\<close>

lemma mask_values_state:
  assumes call: "\<And>st k v r st'. callback st k v = (r, st') \<Longrightarrow> R st st'" and refl: "\<And>st. R st st"
    and trans: "\<And>a b c. R a b \<Longrightarrow> R b c \<Longrightarrow> R a c"
  shows "mask_values callback ps st = (r, st') \<Longrightarrow> R st st'"
proof (induction ps arbitrary: st r st')
  case (Cons p ps)
  obtain k v where p: "p = (k, v)" by (cases p)
  obtain c st1 where c: "callback st k v = (c, st1)" by (cases "callback st k v")
  show ?case
  proof (cases c)
    case (Inl e)
    then show ?thesis using Cons.prems call [OF c] by (simp add: p c)
  next
    case (Inr x)
    obtain masked keep where x: "x = (masked, keep)" by (cases x)
    obtain r2 st2 where r2: "mask_values callback ps st1 = (r2, st2)" by (cases "mask_values callback ps st1")
    then have "st' = st2" using Cons.prems by (auto simp: p c Inr x split: sum.splits)
    then show ?thesis using trans [OF call [OF c] Cons.IH [OF r2]] by simp
  qed
qed (simp add: refl)

lemma mask_query_state:
  assumes "\<And>st k v r st'. callback st k v = (r, st') \<Longrightarrow> R st st'" and "\<And>st. R st st"
    and "\<And>a b c. R a b \<Longrightarrow> R b c \<Longrightarrow> R a c" and "mask_query callback raw st = (r, st')"
  shows "R st st'"
proof (cases "parse_pairs raw")
  case None
  then show ?thesis using assms(2,4) by (simp add: mask_query_def)
next
  case (Some pairs)
  obtain res st1 where v: "mask_values callback (sort_key fst pairs) st = (res, st1)" by (metis surj_pair)
  have "st' = st1" using assms(4) Some v
    by (auto simp: mask_query_def mask_groups_values split: sum.splits if_splits)
  then show ?thesis using mask_values_state [of callback R, OF assms(1-3) v] by simp
qed

lemma mask_pair_le:
  assumes "inspector_ok nested" and "mask_pair L m nested f d x k v = (r, x')"
  shows "state_le (fst x) (fst x')"
proof -
  obtain st changed where x: "x = (st, changed)" by (cases x)
  obtain masked decided keep st1 where dec: "decide_member L m (query_member f k) v d st = ((masked, decided, keep), st1)"
    by (metis surj_pair)
  note le = decide_member_le [OF dec]
  obtain inside nestedChanged st2 where n: "nested v (query_member f k) st1 = ((inside, nestedChanged), st2)"
    by (metis surj_pair)
  have "state_le st1 st2" using assms(1) n by (auto simp: inspector_ok_def)
  then have "state_le st st2" using state_le_trans [OF le] by blast
  then show ?thesis using assms(2) le by (auto simp: x mask_pair_def dec n split: if_splits)
qed

lemma mask_query_values_le:
  assumes "inspector_ok nested" and "mask_query_values L m nested raw f d st changed = (r, st', changed')"
  shows "state_le st st'"
proof -
  have "state_le (fst (st, changed)) (fst (st', changed'))"
    by (rule mask_query_state [where R = "\<lambda>x y. state_le (fst x) (fst y)", OF mask_pair_le [OF assms(1)] _ _
        assms(2) [unfolded mask_query_values_def]]) (auto intro: state_le_trans)
  then show ?thesis by simp
qed

lemma inspect_form_le: "inspector_ok nested \<Longrightarrow> inspect_form L m nested s f d st = (r, st') \<Longrightarrow> state_le st st'"
  using mask_query_values_le by (fastforce simp: inspect_form_def split: prod.splits if_splits sum.splits)

lemma inspect_url_path_le: "inspect_url_path L m url f d st = (r, st') \<Longrightarrow> state_le st st'"
  using inspect_text_le by (auto simp: inspect_url_path_def split: if_splits)

lemma inspect_url_le:
  assumes nested: "inspector_ok nested" and r: "inspect_url L m nested s f d st = (r, st')"
  shows "state_le st st'"
proof (cases "embedded_scheme_end s = None \<or> list_ex control_or_space s")
  case True
  then show ?thesis using r by (simp add: inspect_url_def)
next
  case go: False
  show ?thesis
  proof (cases "parse_url L s")
    case None
    then show ?thesis using r go by (simp add: inspect_url_def)
  next
    case (Some parsed)
    obtain result changed where parts: "mask_url_parts (marker (m_cfg m)) parsed = (result, changed)"
      by (metis surj_pair)
    define q where "q = (if url_raw_query result = [] then (Inr [], st, changed)
        else mask_query_values L m nested (url_raw_query result) f d st changed)"
    obtain res st1 changed1 where q1: "q = (res, st1, changed1)" by (cases q) auto
    have le: "state_le st st1"
      using mask_query_values_le [OF nested] q1 by (auto simp: q_def split: if_splits)
    obtain path pathChanged st2 where path: "inspect_url_path L m parsed f d st1 = ((path, pathChanged), st2)"
      by (metis surj_pair)
    have "st' = st \<or> st' = st1 \<or> st' = st2"
      using r go q1 by (auto simp: inspect_url_def Some parts q_def [symmetric] path Let_def split: if_splits sum.splits)
    then show ?thesis using le state_le_trans [OF le inspect_url_path_le [OF path]] by auto
  qed
qed

lemma merge_inner_le: "errs_le errs (foldl merge_inner_error errs inner)"
proof (induction inner arbitrary: errs)
  case (Cons e inner)
  have "errs_le errs (merge_inner_error errs e)"
    using add_priority_le add_mask_error_le by (simp add: merge_inner_error_def)
  then show ?case using errs_le_trans Cons.IH by simp
qed (simp add: errs_le_def)

lemma merge_inner_limit: "has_limit inner \<Longrightarrow> has_limit (foldl merge_inner_error errs inner)"
proof (induction inner arbitrary: errs)
  case (Cons e inner)
  show ?case
  proof (cases "limit_code (e_code e)")
    case True
    then have "has_limit (merge_inner_error errs e)" by (simp add: merge_inner_error_def add_priority_limit)
    then show ?thesis using merge_inner_le [of "merge_inner_error errs e" inner] by (simp add: errs_le_def)
  next
    case False
    then have "has_limit inner" using Cons.prems by (simp add: has_limit_def)
    then show ?thesis using Cons.IH by simp
  qed
qed (simp add: has_limit_def)

lemma inspect_json_le:
  assumes inner: "document_ok inner" and r: "inspect_json L m inner s f d st = (r, st')"
  shows "state_le st st'"
proof (cases "\<not> looks_like_json s \<or> \<not> valid_json_document s")
  case True
  then show ?thesis using r by (simp add: inspect_json_def)
next
  case go: False
  let ?f = "\<lparr>f_key = f_key f, f_path = f_path f, f_source = SourceJSON, f_kind = KindInvalid\<rparr>"
  obtain out inside changes where i: "inner s ?f (st_nodes st) = (out, inside, changes)" by (metis surj_pair)
  define st1 where "st1 = \<lparr>st_nodes = st_nodes inside, st_errs = foldl merge_inner_error (st_errs st) (st_errs inside),
     st_stop = (st_stop inside \<or> st_stop st)\<rparr>"
  have "state_le \<lparr>st_nodes = st_nodes st, st_errs = [], st_stop = False\<rparr> inside"
    using inner i unfolding document_ok_def by blast
  then have "state_le st st1"
    using merge_inner_le [of "st_errs st" "st_errs inside"] merge_inner_limit [of "st_errs inside" "st_errs st"]
    by (auto simp: state_le_def errs_le_def st1_def)
  moreover have "st' = st1 \<or> st' = fail_inspect L CodeInvalidJSON f d st1"
    using r go i by (auto simp: inspect_json_def st1_def Let_def split: option.splits if_splits)
  ultimately show ?thesis using state_le_trans fail_inspect_le by blast
qed

lemma inspect_embedded_le:
  assumes nested: "inspector_ok nested" and inner: "document_ok inner"
    and r: "inspect_embedded L m nested inner s f d st = (r, st')"
  shows "state_le st st'"
proof -
  obtain r1 st1 where u: "inspect_url L m nested s f d st = (r1, st1)" by (metis surj_pair)
  obtain r2 st2 where j: "inspect_json L m inner s f d st1 = (r2, st2)" by (metis surj_pair)
  obtain r3 st3 where q: "inspect_form L m nested s f d st2 = (r3, st3)" by (metis surj_pair)
  have "st' = st1 \<or> st' = st2 \<or> st' = st3"
    using r u j q by (auto simp: inspect_embedded_def split: option.splits if_splits)
  then show ?thesis
    using inspect_url_le [OF nested u] inspect_json_le [OF inner j] inspect_form_le [OF nested q] state_le_trans by blast
qed

lemma inspect_string_at_ok:
  assumes "inspector_ok nested" and "document_ok inner"
  shows "inspector_ok (inspect_string_at L m nested inner d)"
  unfolding inspector_ok_def
proof (intro allI impI)
  fix s f st r st' assume r: "inspect_string_at L m nested inner d s f st = (r, st')"
  define e where "e = (if embedded (m_cfg m) then inspect_embedded L m nested inner s f d st else (None, st))"
  obtain r1 st1 where e1: "e = (r1, st1)" by (cases e)
  have le: "state_le st st1" using inspect_embedded_le [OF assms, of L m s f d st r1 st1] e1
    by (simp add: e_def split: if_splits)
  obtain r2 st2 where t: "inspect_text L m s f d st1 = (r2, st2)" by (metis surj_pair)
  have "st' = st \<or> st' = st\<lparr>st_errs := add_field_error L CodeInputLimit f d (st_errs st)\<rparr> \<or> st' = st1 \<or> st' = st2"
    using r e1 t by (auto simp: inspect_string_at_def e_def [symmetric] split: if_splits option.splits)
  then show "state_le st st'"
    using le state_le_trans [OF le inspect_text_le [OF t]] state_errs_le [OF add_field_error_le] by auto
qed

section \<open>The contract of a walker\<close>

definition walker_le :: "stream_walker \<Rightarrow> stream_walker \<Rightarrow> bool" where
  "walker_le w w' \<longleftrightarrow> state_le (w_ins w) (w_ins w') \<and> w_path w' = w_path w \<and> w_root w' = w_root w"

lemma walker_le_refl [simp]: "walker_le w w"
  by (simp add: walker_le_def)

lemma walker_le_trans: "walker_le a b \<Longrightarrow> walker_le b c \<Longrightarrow> walker_le a c"
  using state_le_trans by (auto simp: walker_le_def)

text \<open>What a step appends: nothing for an omitted value, \<open>null\<close> at the root, or a value.\<close>

definition appends :: "bool \<Rightarrow> bool \<Rightarrow> bytes \<Rightarrow> bytes \<Rightarrow> bool" where
  "appends root omitted out out' \<longleftrightarrow>
     (if omitted then out' = out @ (if root then ''null'' else []) else \<exists>v. out' = out @ v \<and> written v)"

definition value_step_ok :: "bytes \<Rightarrow> nat \<Rightarrow> stream_walker \<Rightarrow> bytes \<Rightarrow> walk_result \<Rightarrow> bool" where
  "value_step_ok data start w out x = (case x of (r, w', out') \<Rightarrow>
     walker_le w w' \<and> (case r of
         None \<Rightarrow> True
       | Some (next, omitted) \<Rightarrow> cache_ok data (w_keys w') \<and> reads data start next
           \<and> appends (w_path w = []) omitted out out'))"

definition value_ok :: "value_walker \<Rightarrow> bool" where
  "value_ok walk \<longleftrightarrow> (\<forall>data start f w out. cache_ok data (w_keys w) \<longrightarrow>
     value_step_ok data start w out (walk data start f w out))"

lemma walk_document_ok: "value_ok walk \<Longrightarrow> document_ok (walk_document walk)"
  unfolding document_ok_def
proof (intro allI impI)
  fix data f nodes out st changes
  assume ok: "value_ok walk" and d: "walk_document walk data f nodes = (out, st, changes)"
  obtain r w out' where r: "walk data 0 f (new_stream_walker nodes (f_path f)) [] = (r, w, out')" by (metis surj_pair)
  have "value_step_ok data 0 (new_stream_walker nodes (f_path f)) [] (r, w, out')"
    using ok r unfolding value_ok_def by (metis empty_cache_ok new_stream_walker_def stream_walker.select_convs(5))
  then have "state_le (w_ins (new_stream_walker nodes (f_path f))) (w_ins w)"
    by (simp add: value_step_ok_def walker_le_def)
  then show "state_le \<lparr>st_nodes = nodes, st_errs = [], st_stop = False\<rparr> st"
    using d r by (simp add: walk_document_def new_stream_walker_def)
qed

subsection \<open>Failures and decisions\<close>

lemma stream_fail_le: "walker_le w (stream_fail L c f d w)"
proof -
  have "state_le st (add_stream_error e st)" for st e
    unfolding add_stream_error_def by (rule state_errs_le [OF add_unique_le])
  moreover have "limit_code c \<Longrightarrow> state_le (w_ins w) ((w_ins w)\<lparr>st_stop := True,
      st_errs := add_priority_mask_error (st_errs (w_ins w)) (new_field_error (tables L) c (locate (count_change w) f) d)\<rparr>)"
    by (rule state_limit_le) simp
  ultimately show ?thesis by (simp add: stream_fail_def Let_def walker_le_def count_change_def set_ins_def)
qed

lemma stream_fail_keys [simp]: "w_keys (stream_fail L c f d w) = w_keys w"
  by (simp add: stream_fail_def Let_def count_change_def set_ins_def)

lemma encoded_appends: "appends root False out (append_json_string out s)"
  using encoded_written [of s] append_json_string_dst [of out s] by (auto simp: appends_def)

lemma skip_masked_ok:
  assumes "walker_le w w1" and "cache_ok data (w_keys w1)"
  shows "value_step_ok data start w out (skip_masked m data start w1 out)"
  unfolding skip_masked_def value_step_ok_def prod.case
  by (cases "skip_json_value data start") (simp_all add: assms skip_reads encoded_appends)

lemma decide_value_ok:
  assumes "decide_value L m f data start e w out = (r, w', out')"
  shows "walker_le w w' \<and> w_keys w' = w_keys w
    \<and> (case r of None \<Rightarrow> out' = out | Some (broken, omitted) \<Rightarrow>
        \<not> broken \<longrightarrow> (if omitted then out' = out else \<exists>v. out' = out @ v \<and> written v))"
proof -
  have count: "walker_le w (count_change w)" "w_keys (count_change w) = w_keys w" for w
    by (simp_all add: walker_le_def count_change_def)
  have err: "walker_le w (count_change (set_ins (add_stream_error x (w_ins w)) w))"
    "w_keys (count_change (set_ins (add_stream_error x (w_ins w)) w)) = w_keys w" for x
    using state_errs_le [OF add_unique_le] by (simp_all add: walker_le_def count_change_def set_ins_def add_stream_error_def)
  have enc: "\<exists>v. append_json_string out s = out @ v \<and> written v" for s
    using encoded_appends [of False out s] by (simp add: appends_def)
  show ?thesis
  proof (cases "call_policy (tables L) (m_policy m) f")
    case (Inl x)
    then have "r = Some (False, False) \<and> w' = stream_fail L (callback_code CodePolicyFailure x) f 0 w
        \<and> out' = append_json_string out (marker (m_cfg m))"
      using assms by (simp add: decide_value_def)
    then show ?thesis using stream_fail_le enc by simp
  next
    case (Inr d)
    let ?text = "if f_kind f = KindString then stream_json_string_text (slice data start e)
        else if 0 < e \<and> f_kind f \<noteq> KindNil then Some (slice data start e) else Some []"
    consider (omit) "dec_omit d" | (nil) "\<not> dec_omit d" "is_nil_rule (dec_rule d)"
      | (broken) "\<not> dec_omit d" "\<not> is_nil_rule (dec_rule d)" "?text = None"
      | (applied) t where "\<not> dec_omit d" "\<not> is_nil_rule (dec_rule d)" "?text = Some t"
      by blast
    then show ?thesis
    proof cases
      case omit
      then show ?thesis using assms Inr count by (auto simp: decide_value_def)
    next
      case nil
      then show ?thesis using assms Inr by (auto simp: decide_value_def)
    next
      case broken
      then show ?thesis using assms Inr unfolding decide_value_def Inr sum.case broken(3) option.case by auto
    next
      case applied
      then show ?thesis using assms count err enc
        unfolding decide_value_def Inr sum.case applied(3) option.case by (auto split: sum.splits)
    qed
  qed
qed

subsection \<open>Objects\<close>

lemma slice_one: "p < length s \<Longrightarrow> slice s p (Suc p) = [s ! p]"
  using slice_snoc [of p p s] by simp

text \<open>The text of one member, from its key to the byte after the space behind its value.\<close>

lemma member_text:
  assumes "p < keyEnd" and "keyEnd \<le> colon" and "colon = skip_json_space data keyEnd" and "colon < length data"
    and "data ! colon = CHR '':''" and "q = skip_json_space data (colon + 1)"
    and "q < next" and "next \<le> length data" and "p2 = skip_json_space data next" and "p2 < length data"
  shows "\<exists>w2 w3 w4. json_ws w2 \<and> json_ws w3 \<and> json_ws w4
    \<and> slice data p p2 = slice data p keyEnd @ w2 @ '':'' @ w3 @ slice data q next @ w4 \<and> p < p2"
proof -
  have le: "keyEnd \<le> colon" "colon + 1 \<le> q" "next \<le> p2"
    using skip_json_space_ge assms by auto
  have ws: "json_ws (slice data keyEnd colon)" "json_ws (slice data (colon + 1) q)" "json_ws (slice data next p2)"
    using json_ws_skipped [of keyEnd data] json_ws_skipped [of "colon + 1" data] json_ws_skipped [of "next" data] assms by auto
  have "slice data p p2 = slice data p keyEnd @ slice data keyEnd colon @ slice data colon (colon + 1)
      @ slice data (colon + 1) q @ slice data q next @ slice data next p2"
    using le assms(1,2,7) by (simp add: slice_append)
  then show ?thesis using ws slice_one [OF assms(4)] assms(5) le assms(1,2,7)
    by (intro exI [of _ "slice data keyEnd colon"] exI [of _ "slice data (colon + 1) q"] exI [of _ "slice data next p2"]) simp
qed

definition member_ok :: "bytes \<Rightarrow> nat \<Rightarrow> nat \<Rightarrow> bool" where
  "member_ok scratch a b \<longleftrightarrow> b \<le> length scratch \<and> written (slice scratch a b)"

lemma member_ok_append: "member_ok scratch a b \<Longrightarrow> member_ok (scratch @ v) a b"
  by (simp add: member_ok_def slice_append_left)

lemma write_object_written:
  assumes "sorts_by m_key (sort_members L)" and "\<forall>mem \<in> set ms. member_ok scratch (m_start mem) (m_end mem)"
  shows "written (write_object L scratch ms)"
proof -
  let ?kv = "\<lambda>mem. (m_key mem, slice scratch (m_start mem) (m_end mem))"
  have "set (sort_members L ms) = set ms" using assms(1) unfolding sorts_by_def by (metis set_mset_mset)
  then have "\<forall>kv \<in> set (map ?kv (sort_members L ms)). written (snd kv)" using assms(2) by (simp add: member_ok_def)
  from object_text_written [OF this] show ?thesis
    by (simp add: write_object_def comp_def write_member_def [abs_def] encode_member_def)
qed

lemma object_key_keeps: "object_key data p w = (r, w') \<Longrightarrow> w' = w\<lparr>w_keys := w_keys w'\<rparr>"
  by (auto simp: object_key_def Let_def split: if_splits prod.splits option.splits)

lemma set_keys_le: "walker_le w (w\<lparr>w_keys := k\<rparr>)"
  by (simp add: walker_le_def)

lemma pushed_le: "walker_le (push_part part w) w' \<Longrightarrow> walker_le w (pop_part w')"
  by (simp add: walker_le_def push_part_def pop_part_def)

lemma pop_keys [simp]: "w_keys (pop_part w) = w_keys w" and push_keys [simp]: "w_keys (push_part part w) = w_keys w"
  by (simp_all add: pop_part_def push_part_def)

lemma push_path [simp]: "w_path (push_part part w) \<noteq> []"
  by (simp add: push_part_def)

definition object_read :: "bytes \<Rightarrow> nat \<Rightarrow> nat \<Rightarrow> bool" where
  "object_read data p e \<longleftrightarrow> p < e \<and> e \<le> length data \<and> (\<exists>x. json_members x \<and> slice data p e = x @ ''}'')"

lemma object_read_last:
  assumes "json_ws w2" "json_ws w3" "json_ws w4" "string_token k" "json_value v"
    and "slice data p p2 = k @ w2 @ '':'' @ w3 @ v @ w4" and "p < p2" and "p2 < length data" and "data ! p2 = CHR ''}''"
  shows "object_read data p (p2 + 1)"
proof -
  have "slice data p (p2 + 1) = slice data p p2 @ [data ! p2]" using slice_snoc [of p p2 data] assms(7,8) by simp
  moreover have "json_members (k @ w2 @ '':'' @ w3 @ v @ w4)" using json_member [of "[]" k w2 w3 v w4] assms by simp
  ultimately show ?thesis using assms(6-9) by (auto simp: object_read_def)
qed

lemma object_read_more:
  assumes "json_ws w2" "json_ws w3" "json_ws w4" "string_token k" "json_value v"
    and "slice data p p2 = k @ w2 @ '':'' @ w3 @ v @ w4" and "p < p2" and "p2 < length data" and "data ! p2 = CHR '',''"
    and "object_read data (skip_json_space data (p2 + 1)) e"
  shows "object_read data p e"
proof -
  let ?p3 = "skip_json_space data (p2 + 1)"
  have le: "p2 + 1 \<le> ?p3" by (rule skip_json_space_ge)
  obtain x where x: "json_members x" "slice data ?p3 e = x @ ''}''" "?p3 < e" "e \<le> length data"
    using assms(10) by (auto simp: object_read_def)
  have ws: "json_ws (slice data (p2 + 1) ?p3)" using json_ws_skipped [of "p2 + 1" data] assms(8) by simp
  have "slice data p e = slice data p p2 @ slice data p2 (p2 + 1) @ slice data (p2 + 1) ?p3 @ slice data ?p3 e"
    using assms(7) le x(3) by (simp add: slice_append)
  then have "slice data p e = (k @ w2 @ '':'' @ w3 @ v @ w4 @ '','' @ (slice data (p2 + 1) ?p3 @ x)) @ ''}''"
    using slice_one [OF assms(8)] assms(6,9) x(2) by simp
  moreover have "json_members (k @ w2 @ '':'' @ w3 @ v @ w4 @ '','' @ (slice data (p2 + 1) ?p3 @ x))"
    using json_member_Cons [of "[]" k w2 w3 v w4, OF _ _ _ _ _ _ members_ws [OF x(1) ws]] assms by simp
  ultimately show ?thesis using assms(7) le x(3,4) unfolding object_read_def by auto
qed

definition object_result_ok :: "bytes \<Rightarrow> nat \<Rightarrow> stream_walker \<Rightarrow> (nat \<times> bytes) option \<times> stream_walker \<Rightarrow> bool" where
  "object_result_ok data p w x \<longleftrightarrow> walker_le w (snd x) \<and> (case fst x of
       None \<Rightarrow> True
     | Some (e, object) \<Rightarrow> cache_ok data (w_keys (snd x)) \<and> object_read data p e \<and> written object)"

lemma object_result_failed: "walker_le w w' \<Longrightarrow> object_result_ok data p w (None, w')"
  by (simp add: object_result_ok_def)

text \<open>A member that was added holds what the step before it has written.\<close>

lemma member_step_ok:
  assumes "\<forall>mem \<in> set (fst ms). member_ok scratch (m_start mem) (m_end mem)" and "appends False omitted scratch scratch2"
  shows "\<forall>mem \<in> set (fst (if omitted then remove_stream_member key ms
      else upsert_stream_member key (length scratch, length scratch2) ms)). member_ok scratch2 (m_start mem) (m_end mem)"
proof (cases omitted)
  case True
  then show ?thesis using assms remove_all by (simp add: appends_def)
next
  case False
  then obtain v where v: "scratch2 = scratch @ v" "written v" using assms(2) by (auto simp: appends_def)
  then have "\<forall>mem \<in> set (fst ms). member_ok scratch2 (m_start mem) (m_end mem)"
    using assms(1) member_ok_append by auto
  moreover have "member_ok scratch2 (length scratch) (length scratch2)"
    using v by (simp add: member_ok_def slice_def)
  ultimately show ?thesis using upsert_all [of ms "member_ok scratch2" "(length scratch, length scratch2)" key] False by simp
qed

lemma object_loop_ok:
  assumes child: "value_ok child" and sorts: "sorts_by m_key (sort_members L)"
  shows "cache_ok data (w_keys w) \<Longrightarrow> \<forall>mem \<in> set (fst ms). member_ok scratch (m_start mem) (m_end mem)
    \<Longrightarrow> object_result_ok data p w (object_loop L n child data p scratch ms w)"
proof (induction n arbitrary: p scratch ms w)
  case 0
  show ?case by (simp add: object_result_ok_def)
next
  case (Suc n)
  obtain kr w1 where k: "object_key data p w = (kr, w1)" by (metis surj_pair)
  have w1: "walker_le w w1" using object_key_keeps [OF k] set_keys_le by metis
  show ?case
  proof (cases kr)
    case None
    then show ?thesis using k w1 by (simp add: object_result_failed)
  next
    case (Some kq)
    obtain key q where kq: "kq = (key, q)" by (cases kq)
    note k = k [unfolded Some kq]
    obtain keyEnd colon where tok: "string_token (slice data p keyEnd)" "p < keyEnd" "keyEnd \<le> colon"
        "colon = skip_json_space data keyEnd" "colon < length data" "data ! colon = CHR '':''"
        "q = skip_json_space data (colon + 1)" and cache: "cache_ok data (w_keys w1)"
      using object_key_ok [OF Suc.prems(1) k] by metis
    obtain r w2 scratch2 where c: "child data q (stream_field key) (push_part (KeyPart key) w1) scratch = (r, w2, scratch2)"
      by (metis surj_pair)
    have step: "value_step_ok data q (push_part (KeyPart key) w1) scratch (r, w2, scratch2)"
      using child cache c unfolding value_ok_def by (metis push_keys)
    then have w2: "walker_le w (pop_part w2)"
      using walker_le_trans [OF w1 pushed_le [of "KeyPart key"]] by (simp add: value_step_ok_def)
    show ?thesis
    proof (cases r)
      case None
      then show ?thesis using k c w2 by (simp add: object_result_failed)
    next
      case (Some no)
      obtain nxt omitted where r: "r = Some (nxt, omitted)" using Some by (cases no) simp
      have cache2: "cache_ok data (w_keys (pop_part w2))" and reads: "reads data q nxt"
        and out: "appends False omitted scratch scratch2"
        using step by (simp_all add: value_step_ok_def r push_part_def)
      define p2 where "p2 = skip_json_space data nxt"
      define ms2 where "ms2 = (if omitted then remove_stream_member key ms
          else upsert_stream_member key (length scratch, length scratch2) ms)"
      have loop: "object_loop L (Suc n) child data p scratch ms w =
          (if length data \<le> p2 then (None, pop_part w2)
           else if data ! p2 = CHR '','' then
             object_loop L n child data (skip_json_space data (p2 + 1)) scratch2 ms2 (pop_part w2)
           else if data ! p2 = CHR ''}'' then (Some (p2 + 1, write_object L scratch2 (fst ms2)), pop_part w2)
           else (None, pop_part w2))"
        by (simp add: k c r p2_def ms2_def Let_def)
      have ms2: "\<forall>mem \<in> set (fst ms2). member_ok scratch2 (m_start mem) (m_end mem)"
        unfolding ms2_def by (rule member_step_ok [OF Suc.prems(2) out])
      show ?thesis
      proof (cases "length data \<le> p2")
        case True
        then show ?thesis using loop w2 by (simp add: object_result_failed)
      next
        case False
        have "q = skip_json_space data q" using tok(7) by simp
        then have val: "q < nxt" "nxt \<le> length data" "json_value (slice data q nxt)"
          using reads False skip_json_space_ge [of nxt data] by (auto simp: reads_def Let_def p2_def)
        obtain a b d where parts: "json_ws a" "json_ws b" "json_ws d"
            "slice data p p2 = slice data p keyEnd @ a @ '':'' @ b @ slice data q nxt @ d" "p < p2"
          using member_text [OF tok(2-7) val(1,2) p2_def] False by auto
        note pieces = parts(1-3) tok(1) val(3) parts(4,5)
        consider (comma) "data ! p2 = CHR '',''" | (close) "data ! p2 = CHR ''}''" "data ! p2 \<noteq> CHR '',''"
          | (other) "data ! p2 \<noteq> CHR ''}''" "data ! p2 \<noteq> CHR '',''" by blast
        then show ?thesis
        proof cases
          case comma
          have "object_result_ok data (skip_json_space data (p2 + 1)) (pop_part w2)
              (object_loop L n child data (skip_json_space data (p2 + 1)) scratch2 ms2 (pop_part w2))"
            by (rule Suc.IH [OF cache2 ms2])
          then show ?thesis using loop False comma walker_le_trans [OF w2] object_read_more [OF pieces _ comma]
            by (auto simp: object_result_ok_def split: option.splits)
        next
          case close
          then show ?thesis using loop False w2 cache2 object_read_last [OF pieces _ close(1)] write_object_written [OF sorts ms2]
            by (simp add: object_result_ok_def)
        next
          case other
          then show ?thesis using loop False w2 by (simp add: object_result_failed)
        qed
      qed
    qed
  qed
qed

end
