(* ===== verification/StreamOutput.thy ===== *)
theory StreamOutput
  imports StreamSound
begin

text \<open>
  The contract of the streaming walker carried through arrays and values to every level,
  and what it says of the JSON operations: a document is accepted only if it is JSON, and
  what is returned is JSON.
\<close>

section \<open>Arrays\<close>

definition array_read :: "bytes \<Rightarrow> nat \<Rightarrow> nat \<Rightarrow> bool" where
  "array_read data p e \<longleftrightarrow> p < e \<and> e \<le> length data \<and> (\<exists>x. json_elements x \<and> slice data p e = x @ '']'')"

lemma array_read_last:
  assumes "json_ws w" "json_value v" and "slice data p p2 = v @ w" and "p < p2" and "p2 < length data" and "data ! p2 = CHR '']''"
  shows "array_read data p (p2 + 1)"
proof -
  have "slice data p (p2 + 1) = slice data p p2 @ [data ! p2]" using slice_snoc [of p p2 data] assms(4,5) by simp
  moreover have "json_elements (v @ w)" using json_element [of "[]" v w] assms by simp
  ultimately show ?thesis using assms(3-6) by (auto simp: array_read_def)
qed

lemma array_read_more:
  assumes "json_ws w" "json_value v" and "slice data p p2 = v @ w" and "p < p2" and "p2 < length data" and "data ! p2 = CHR '',''"
    and "array_read data (skip_json_space data (p2 + 1)) e"
  shows "array_read data p e"
proof -
  let ?p3 = "skip_json_space data (p2 + 1)"
  have le: "p2 + 1 \<le> ?p3" by (rule skip_json_space_ge)
  obtain x where x: "json_elements x" "slice data ?p3 e = x @ '']''" "?p3 < e" "e \<le> length data"
    using assms(7) by (auto simp: array_read_def)
  have ws: "json_ws (slice data (p2 + 1) ?p3)" using json_ws_skipped [of "p2 + 1" data] assms(5) by simp
  have "slice data p e = slice data p p2 @ slice data p2 (p2 + 1) @ slice data (p2 + 1) ?p3 @ slice data ?p3 e"
    using assms(4) le x(3) by (simp add: slice_append)
  then have "slice data p e = (v @ w @ '','' @ (slice data (p2 + 1) ?p3 @ x)) @ '']''"
    using slice_one [OF assms(5)] assms(3,6) x(2) by simp
  moreover have "json_elements (v @ w @ '','' @ (slice data (p2 + 1) ?p3 @ x))"
    using json_element_Cons [of "[]" v w, OF _ _ _ elements_ws [OF x(1) ws]] assms by simp
  ultimately show ?thesis using assms(4) le x(3,4) unfolding array_read_def by auto
qed

definition elements_written :: "bytes \<Rightarrow> bool" where
  "elements_written m \<longleftrightarrow> json_elements m \<and> valid_utf8 m \<and> no_control m"

lemma one_element_written: "written v \<Longrightarrow> elements_written v"
  using json_element [of "[]" v "[]"] by (simp add: written_def elements_written_def)

lemma more_elements_written: "written v \<Longrightarrow> elements_written m \<Longrightarrow> elements_written (v @ '','' @ m)"
  using json_element_Cons [of "[]" v "[]" m] valid_utf8_append [of v "'','' @ m"]
  by (simp add: written_def elements_written_def no_control_def)

lemma array_written: "elements_written m \<Longrightarrow> written (''['' @ m @ '']'')"
  using json_array [of m] valid_utf8_append [of m "'']''"]
  by (simp add: written_def elements_written_def no_control_def)

text \<open>The state of the loop at position \<open>p\<close>, before the comma of element \<open>index\<close>.\<close>

definition array_result_ok :: "bytes \<Rightarrow> nat \<Rightarrow> stream_walker \<Rightarrow> bytes \<Rightarrow> walk_result \<Rightarrow> bool" where
  "array_result_ok data p w out x \<longleftrightarrow> (case x of (r, w', out') \<Rightarrow> walker_le w w' \<and> (case r of
       None \<Rightarrow> True
     | Some (e, omitted) \<Rightarrow> \<not> omitted \<and> cache_ok data (w_keys w') \<and> array_read data p e
         \<and> (\<exists>m. out' = out @ m @ '']'' \<and> elements_written m)))"

lemma array_result_failed: "walker_le w w' \<Longrightarrow> array_result_ok data p w out (None, w', out')"
  by (simp add: array_result_ok_def)

lemma array_result_more:
  assumes "array_result_ok data (skip_json_space data (p2 + 1)) w2 (out @ v @ '','') x" and "walker_le w w2" and "written v"
    and "\<And>e. array_read data (skip_json_space data (p2 + 1)) e \<Longrightarrow> array_read data p e"
  shows "array_result_ok data p w out x"
  unfolding array_result_ok_def
proof (cases x, simp only: prod.case, intro conjI)
  fix r w' out' assume x: "x = (r, w', out')"
  have le: "walker_le w2 w'" using assms(1) by (simp add: x array_result_ok_def)
  show "walker_le w w'" by (rule walker_le_trans [OF assms(2) le])
  show "case r of None \<Rightarrow> True | Some (e, omitted) \<Rightarrow> \<not> omitted \<and> cache_ok data (w_keys w') \<and> array_read data p e
         \<and> (\<exists>m. out' = out @ m @ '']'' \<and> elements_written m)"
  proof (cases r)
    case (Some eo)
    obtain e omitted where eo: "eo = (e, omitted)" by (cases eo)
    obtain m where m: "out' = (out @ v @ '','') @ m @ '']''" "elements_written m"
      using assms(1) by (auto simp: x array_result_ok_def Some eo)
    have "out' = out @ (v @ '','' @ m) @ '']''" using m(1) by simp
    with more_elements_written [OF assms(3) m(2)] assms(1) assms(4) show ?thesis
      by (auto simp: x array_result_ok_def Some eo)
  qed simp
qed

text \<open>The comma is written on entry to a round, so a round starts from \<open>comma\<close>.\<close>

lemma array_loop_ok:
  assumes child: "value_ok child"
  shows "cache_ok data (w_keys w) \<Longrightarrow> p = skip_json_space data p
    \<Longrightarrow> array_result_ok data p w (if 0 < index then out @ '','' else out) (array_loop n child data p index w out)"
proof (induction n arbitrary: p index out w)
  case 0
  show ?case by (simp add: array_result_failed)
next
  case (Suc n)
  define out1 where "out1 = (if 0 < index then out @ '','' else out)"
  obtain r w2 out2 where c: "child data p (stream_field []) (push_part (IndexPart index) w) out1 = (r, w2, out2)"
    by (metis surj_pair)
  have step: "value_step_ok data p (push_part (IndexPart index) w) out1 (r, w2, out2)"
    using child Suc.prems(1) c unfolding value_ok_def by (metis push_keys)
  then have w2: "walker_le w (pop_part w2)"
    using pushed_le [of "IndexPart index"] by (simp add: value_step_ok_def)
  show ?case
  proof (cases r)
    case None
    then show ?thesis using c w2 by (simp add: out1_def [symmetric] array_result_failed)
  next
    case (Some no)
    obtain nxt omitted where r: "r = Some (nxt, omitted)" using Some by (cases no) simp
    have cache2: "cache_ok data (w_keys (pop_part w2))" and reads: "reads data p nxt"
      and appended: "appends False omitted out1 out2"
      using step by (simp_all add: value_step_ok_def r push_part_def)
    define p2 where "p2 = skip_json_space data nxt"
    define out3 where "out3 = (if omitted then out2 @ ''null'' else out2)"
    obtain v where v: "out3 = out1 @ v" "written v"
      using appended null_written by (cases omitted) (auto simp: appends_def out3_def)
    have loop: "array_loop (Suc n) child data p index w out =
        (if length data \<le> p2 then (None, pop_part w2, out3)
         else if data ! p2 = CHR '','' then
           array_loop n child data (skip_json_space data (p2 + 1)) (index + 1) (pop_part w2) out3
         else if data ! p2 = CHR '']'' then (Some (p2 + 1, False), pop_part w2, out3 @ '']'')
         else (None, pop_part w2, out3))"
      by (simp add: out1_def [symmetric] c r p2_def out3_def Let_def)
    show ?thesis
    proof (cases "length data \<le> p2")
      case True
      then show ?thesis using loop w2 by (simp add: array_result_failed)
    next
      case False
      have le: "nxt \<le> p2" unfolding p2_def by (rule skip_json_space_ge)
      have val: "p < nxt" "json_value (slice data p nxt)"
        using reads Suc.prems(2) False le by (auto simp: reads_def Let_def)
      have ws: "json_ws (slice data nxt p2)" using json_ws_skipped [of nxt data] False le by (simp add: p2_def)
      have text_p2: "slice data p p2 = slice data p nxt @ slice data nxt p2" using val le by (simp add: slice_append)
      have len: "p < p2" "p2 < length data" using val le False by auto
      note pieces = ws val(2) text_p2 len
      consider (comma) "data ! p2 = CHR '',''" | (close) "data ! p2 = CHR '']''" "data ! p2 \<noteq> CHR '',''"
        | (other) "data ! p2 \<noteq> CHR '']''" "data ! p2 \<noteq> CHR '',''" by blast
      then show ?thesis
      proof cases
        case comma
        have "array_result_ok data (skip_json_space data (p2 + 1)) (pop_part w2) (out3 @ '','')
            (array_loop n child data (skip_json_space data (p2 + 1)) (index + 1) (pop_part w2) out3)"
          using Suc.IH [OF cache2, of "skip_json_space data (p2 + 1)" "index + 1" out3] by simp
        then have "array_result_ok data p w out1
            (array_loop n child data (skip_json_space data (p2 + 1)) (index + 1) (pop_part w2) out3)"
          using array_result_more [OF _ w2 v(2) array_read_more [OF pieces comma]] v(1) by simp
        then show ?thesis using loop False comma by (simp add: out1_def)
      next
        case close
        then show ?thesis using loop False w2 cache2 array_read_last [OF pieces close(1)] one_element_written [OF v(2)] v(1)
          by (simp add: array_result_ok_def out1_def [symmetric])
      next
        case other
        then show ?thesis using loop False w2 by (simp add: array_result_failed)
      qed
    qed
  qed
qed

section \<open>Values\<close>

text \<open>An opening bracket, space and the rest of the container.\<close>

lemma container_text:
  assumes "start < length data" and "p = skip_json_space data (start + 1)" and "p < e" and "e \<le> length data"
  shows "\<exists>w. json_ws w \<and> slice data start e = data ! start # w @ slice data p e"
proof -
  have le: "start + 1 \<le> p" using assms(2) skip_json_space_ge by simp
  have "json_ws (slice data (start + 1) p)" using json_ws_skipped [of "start + 1" data] assms by simp
  moreover have "slice data start e = slice data start (start + 1) @ slice data (start + 1) p @ slice data p e"
    using le assms(3) by (simp add: slice_append)
  ultimately show ?thesis using slice_one [OF assms(1)] by auto
qed

lemma readsI:
  "p = skip_json_space data start \<Longrightarrow> p < e \<Longrightarrow> e \<le> length data \<Longrightarrow> json_value (slice data p e) \<Longrightarrow> reads data start e"
  by (simp add: reads_def Let_def)

lemma empty_container:
  assumes "start = skip_json_space data start" and "start < length data" and "p = skip_json_space data (start + 1)"
    and "p < length data" and "data ! start = a \<and> data ! p = b" and "\<And>w. json_ws w \<Longrightarrow> json_value (a # w @ [b])"
  shows "reads data start (p + 1)"
proof -
  have le: "start + 1 \<le> p" using assms(3) skip_json_space_ge by simp
  obtain w where "json_ws w" "slice data start (p + 1) = data ! start # w @ slice data p (p + 1)"
    using container_text [OF assms(2,3), of "p + 1"] assms(4) by auto
  then show ?thesis using readsI [OF assms(1), of "p + 1"] slice_one [OF assms(4)] le assms(4-6) by simp
qed

lemma full_container:
  assumes "start = skip_json_space data start" and "start < length data" and "p = skip_json_space data (start + 1)"
    and "p < e \<and> e \<le> length data" and "\<And>w. json_ws w \<Longrightarrow> json_value (data ! start # w @ slice data p e)"
  shows "reads data start e"
proof -
  obtain w where "json_ws w" "slice data start e = data ! start # w @ slice data p e"
    using container_text [OF assms(2,3), of e] assms(4) by auto
  moreover have "start + 1 \<le> p" using assms(3) skip_json_space_ge by simp
  ultimately show ?thesis using readsI [OF assms(1)] assms(4,5) by simp
qed

lemma append_object_ok:
  assumes child: "value_ok child" and sorts: "sorts_by m_key (sort_members L)" and cache: "cache_ok data (w_keys w)"
    and start: "start = skip_json_space data start" "start < length data" "data ! start = CHR ''{''"
  shows "value_step_ok data start w out (append_object L child data start w out)"
proof -
  define p where "p = skip_json_space data (start + 1)"
  define n where "n = Suc (length data - p)"
  have unfolded: "append_object L child data start w out =
      (if p < length data \<and> data ! p = CHR ''}'' then (Some (p + 1, False), w, out @ ''{}'')
       else case object_loop L n child data p [] no_members w of
         (None, w) \<Rightarrow> (None, w, out)
       | (Some (e, object), w) \<Rightarrow> (Some (e, False), w, out @ object))"
    by (simp only: append_object_def p_def n_def Let_def)
  have empty: "json_value (CHR ''{'' # x @ ''}'')" if "json_ws x" for x using json_object0 [OF that] by simp
  show ?thesis
  proof (cases "p < length data \<and> data ! p = CHR ''}''")
    case True
    have "written ''{}''" by (rule ascii_written) (use empty [of "[]"] in simp_all)
    moreover have "reads data start (p + 1)"
      by (rule empty_container [OF start(1,2) p_def]) (use True start(3) empty in auto)
    ultimately show ?thesis using True cache
      by (simp add: unfolded value_step_ok_def appends_def)
  next
    case False
    obtain r w2 where l: "object_loop L n child data p [] no_members w = (r, w2)" by (metis surj_pair)
    have ok: "object_result_ok data p w (r, w2)"
      using object_loop_ok [OF child sorts cache, of no_members "[]" p n] l by (simp add: no_members_def)
    show ?thesis
    proof (cases r)
      case None
      then show ?thesis using l ok unfolding unfolded if_not_P [OF False]
        by (simp add: value_step_ok_def object_result_ok_def)
    next
      case (Some x)
      obtain e object where x: "x = (e, object)" by (cases x)
      have ok: "walker_le w w2" "cache_ok data (w_keys w2)" "object_read data p e" "written object"
        using ok by (simp_all add: object_result_ok_def Some x)
      obtain y where y: "json_members y" "slice data p e = y @ ''}''" "p < e \<and> e \<le> length data"
        using ok(3) by (auto simp: object_read_def)
      have "reads data start e"
        by (rule full_container [OF start(1,2) p_def y(3)])
           (use json_object [OF members_ws [OF y(1)]] y(2) start(3) in simp)
      then show ?thesis using l ok Some x unfolding unfolded if_not_P [OF False]
        by (simp add: value_step_ok_def appends_def)
    qed
  qed
qed

lemma append_array_ok:
  assumes child: "value_ok child" and cache: "cache_ok data (w_keys w)"
    and start: "start = skip_json_space data start" "start < length data" "data ! start = CHR ''[''"
  shows "value_step_ok data start w out (append_array child data start w out)"
proof -
  define p where "p = skip_json_space data (start + 1)"
  define n where "n = Suc (length data - p)"
  have unfolded: "append_array child data start w out =
      (if p < length data \<and> data ! p = CHR '']'' then (Some (p + 1, False), w, (out @ ''['') @ '']'')
       else array_loop n child data p 0 w (out @ ''[''))"
    by (simp only: append_array_def p_def n_def Let_def)
  have empty: "json_value (CHR ''['' # x @ '']'')" if "json_ws x" for x using json_array0 [OF that] by simp
  show ?thesis
  proof (cases "p < length data \<and> data ! p = CHR '']''")
    case True
    have "written ''[]''" by (rule ascii_written) (use empty [of "[]"] in simp_all)
    moreover have "reads data start (p + 1)"
      by (rule empty_container [OF start(1,2) p_def]) (use True start(3) empty in auto)
    ultimately show ?thesis using True cache
      by (simp add: unfolded value_step_ok_def appends_def)
  next
    case False
    obtain r w2 out2 where l: "array_loop n child data p 0 w (out @ ''['') = (r, w2, out2)"
      by (metis surj_pair)
    have ok: "array_result_ok data p w (out @ ''['') (r, w2, out2)"
      using array_loop_ok [OF child cache, of p 0 "out @ ''[''" n] l by (simp add: p_def)
    show ?thesis
    proof (cases r)
      case None
      then show ?thesis using l ok unfolding unfolded if_not_P [OF False]
        by (simp add: value_step_ok_def array_result_ok_def)
    next
      case (Some x)
      obtain e omitted where x: "x = (e, omitted)" by (cases x)
      obtain y where res: "walker_le w w2" "\<not> omitted" "cache_ok data (w_keys w2)" "array_read data p e"
          "out2 = out @ (''['' @ y @ '']'')" "elements_written y"
        using ok by (auto simp: array_result_ok_def Some x)
      obtain z where z: "json_elements z" "slice data p e = z @ '']''" "p < e \<and> e \<le> length data"
        using res(4) by (auto simp: array_read_def)
      have "reads data start e"
        by (rule full_container [OF start(1,2) p_def z(3)])
           (use json_array [OF elements_ws [OF z(1)]] z(2) start(3) in simp)
      moreover have "\<exists>v. out2 = out @ v \<and> written v" using res(5) array_written [OF res(6)] by blast
      ultimately show ?thesis using l res(1-3) Some x unfolding unfolded if_not_P [OF False]
        by (simp add: value_step_ok_def appends_def)
    qed
  qed
qed

lemma scalar_result:
  assumes "start = skip_json_space data start" and "walker_le w w'" and "cache_ok data (w_keys w')"
    and "start < e \<and> e \<le> length data" and "json_value (slice data start e)" and "\<exists>v. out' = out @ v \<and> written v"
  shows "value_step_ok data start w out (Some (e, False), w', out')"
  using readsI [OF assms(1)] assms(2-6) by (simp add: value_step_ok_def appends_def)

lemma append_token_step:
  assumes "start = skip_json_space data start" and "walker_le w w'" and "cache_ok data (w_keys w')"
    and "start < e" and "data ! start = quote_char" and "e = scan_json_string data start"
  shows "value_step_ok data start w out (append_token (slice data start e) e w' out)"
proof (cases "append_stream_json_string out (slice data start e)")
  case None
  then show ?thesis using assms(2) by (simp add: append_token_def value_step_ok_def)
next
  case (Some out')
  note t = append_token_ok [OF assms(5,6) Some]
  have "e \<le> length data" using assms(6) scan_json_string_le by simp
  then show ?thesis using scalar_result [OF assms(1-3) _ json_string [OF t [THEN conjunct1]] t [THEN conjunct2]] assms(4)
    by (simp add: append_token_def Some)
qed

lemma append_string_ok:
  assumes inspect: "inspector_ok inspect" and cache: "cache_ok data (w_keys w)"
    and start: "start = skip_json_space data start" "start < e" "data ! start = quote_char" "e = scan_json_string data start"
  shows "value_step_ok data start w out (append_string m inspect (slice data start e) e f w out)"
proof (cases "inspectable_token m (slice data start e)")
  case False
  then show ?thesis using append_token_step [OF start(1) _ cache start(2-4), of w] by (simp add: append_string_def)
next
  case True
  show ?thesis
  proof (cases "stream_json_string_text (slice data start e)")
    case None
    then show ?thesis using True by (simp add: append_string_def value_step_ok_def)
  next
    case (Some decoded)
    obtain masked changed st where i: "inspect decoded (locate w f) (w_ins w) = ((masked, changed), st)" by (metis surj_pair)
    have "state_le (w_ins w) st" using inspect i unfolding inspector_ok_def by blast
    then have le: "walker_le w (set_ins st w)" "walker_le w (count_change (set_ins st w))"
      and keys: "cache_ok data (w_keys (set_ins st w))" "cache_ok data (w_keys (count_change (set_ins st w)))"
      using cache by (simp_all add: walker_le_def set_ins_def count_change_def)
    have tok: "json_value (slice data start e)"
      using string_text_token [OF start(3,4)] Some by (intro json_string) simp
    have len: "start < e \<and> e \<le> length data" using start(2,4) scan_json_string_le by simp
    show ?thesis
    proof (cases changed)
      case True
      then show ?thesis using \<open>inspectable_token m _\<close> Some i
          scalar_result [OF start(1) le(2) keys(2) len tok, of "append_json_string out masked" out] encoded_appends [of False out masked]
        by (simp add: append_string_def appends_def)
    next
      case False
      then show ?thesis using \<open>inspectable_token m _\<close> Some i append_token_step [OF start(1) le(1) keys(1) start(2-4), of out]
        by (simp add: append_string_def)
    qed
  qed
qed

lemma stream_json_kind_first:
  "stream_json_kind c = KindObject \<Longrightarrow> c = CHR ''{''" "stream_json_kind c = KindArray \<Longrightarrow> c = CHR ''[''"
  "stream_json_kind c = KindString \<Longrightarrow> c = quote_char"
  by (simp_all add: stream_json_kind_def split: if_splits)

lemma primitive_step:
  assumes "start = skip_json_space data start" and "cache_ok data (w_keys w)"
    and "stream_scalar_end data start kind = Some e" and "kind \<in> {KindBool, KindNil, KindNumber}"
    and "\<exists>v. out' = out @ v \<and> written v"
  shows "value_step_ok data start w out (Some (e, False), w, out')"
proof (rule scalar_result [OF assms(1) walker_le_refl assms(2) _ _ assms(5)])
  have t: "start < e \<and> e \<le> length data \<and> valid_stream_primitive (slice data start e) kind"
    using assms(3,4) by (auto simp: stream_scalar_end_def Let_def split: if_splits)
  then show "start < e \<and> e \<le> length data" by simp
  show "json_value (slice data start e)" using primitive_written t by (auto simp: written_def)
qed

lemma scalar_token_written:
  "stream_scalar_end data start kind = Some e \<Longrightarrow> kind \<in> {KindBool, KindNil, KindNumber} \<Longrightarrow> written (slice data start e)"
  using primitive_written by (auto simp: stream_scalar_end_def Let_def split: if_splits)

lemma append_kind_ok:
  assumes inspect: "inspector_ok inspect" and child: "value_ok child" and sorts: "sorts_by m_key (sort_members L)"
    and cache: "cache_ok data (w_keys w)" and start: "start = skip_json_space data start" "start < length data"
    and kind: "f_kind f = stream_json_kind (data ! start)" and e: "stream_scalar_end data start (f_kind f) = Some e"
  shows "value_step_ok data start w out (append_kind L m inspect child data start e f w out)"
proof (cases "f_kind f")
  case KindInvalid
  then show ?thesis by (simp add: append_kind_def Let_def value_step_ok_def)
next
  case KindNil
  show ?thesis using primitive_step [OF start(1) cache e, of "out @ ''null''" out] null_written KindNil
    by (auto simp: append_kind_def Let_def)
next
  case KindString
  have "e = scan_json_string data start" "start < e"
    using e KindString by (auto simp: stream_scalar_end_def Let_def split: if_splits)
  then show ?thesis using append_string_ok [OF inspect cache start(1)] stream_json_kind_first(3) kind KindString
    by (simp add: append_kind_def Let_def)
next
  case KindNumber
  show ?thesis using primitive_step [OF start(1) cache e, of "out @ slice data start e" out] scalar_token_written [OF e] KindNumber
    by (auto simp: append_kind_def Let_def)
next
  case KindBool
  have "\<exists>v. (if preserve_safe (m_cfg m) then out @ slice data start e else append_json_string out (slice data start e)) = out @ v
      \<and> written v"
    using scalar_token_written [OF e] KindBool encoded_appends [of False out] by (simp add: appends_def)
  then show ?thesis using primitive_step [OF start(1) cache e] KindBool by (simp add: append_kind_def Let_def)
next
  case KindObject
  then show ?thesis using append_object_ok [OF child sorts cache start] stream_json_kind_first(1) kind
    by (simp add: append_kind_def Let_def)
next
  case KindArray
  then show ?thesis using append_array_ok [OF child cache start] stream_json_kind_first(2) kind
    by (simp add: append_kind_def Let_def)
qed

lemma value_step_later:
  assumes "walker_le w w1" and "value_step_ok data start w1 out x"
  shows "value_step_ok data start w out x"
  using assms walker_le_trans [OF assms(1)] by (auto simp: value_step_ok_def walker_le_def split: option.splits)

lemma reads_skipped: "reads data (skip_json_space data start) = reads data start"
  by (intro ext) (simp add: reads_def)

lemma value_step_skipped:
  "value_step_ok data (skip_json_space data start) w out x \<Longrightarrow> value_step_ok data start w out x"
  unfolding value_step_ok_def reads_skipped .

lemma value_step_failed: "walker_le w w' \<Longrightarrow> value_step_ok data start w out (None, w', out')"
  by (simp add: value_step_ok_def)

text \<open>A value the policy decides is stepped over; at the root an omitted one leaves \<open>null\<close>.\<close>

lemma decided_step:
  assumes "cache_ok data (w_keys w)" and "decide_value L m f data start e w out = (Some (broken, omitted), w', out')"
  shows "value_step_ok data start w out
    (if broken then None else map_option (\<lambda>next. (next, omitted)) (skip_json_value data start), w',
     if omitted \<and> w_path w' = [] then out' @ ''null'' else out')"
proof (cases "broken \<or> skip_json_value data start = None")
  case True
  then show ?thesis using decide_value_ok [OF assms(2)] by (auto intro: value_step_failed)
next
  case False
  then obtain nxt where n: "skip_json_value data start = Some nxt" by auto
  show ?thesis using decide_value_ok [OF assms(2)] assms(1) False skip_reads [OF n] n
    by (auto simp: value_step_ok_def appends_def walker_le_def)
qed

lemma append_value_at_ok:
  assumes inspect: "inspector_ok inspect" and child: "value_ok child" and sorts: "sorts_by m_key (sort_members L)"
  shows "value_ok (append_value_at L m inspect child depth)"
  unfolding value_ok_def
proof (intro allI impI)
  fix data start0 and f :: field and w :: stream_walker and out assume cache: "cache_ok data (w_keys w)"
  define start where "start = skip_json_space data start0"
  have skipped: "start = skip_json_space data start" by (simp add: start_def)
  define w1 where "w1 = set_ins ((w_ins w)\<lparr>st_nodes := st_nodes (w_ins w) + 1\<rparr>) w"
  have w1: "walker_le w w1" "cache_ok data (w_keys w1)"
    using cache state_nodes_le [of "w_ins w" "st_nodes (w_ins w) + 1"] by (simp_all add: w1_def walker_le_def set_ins_def)
  define kind where "kind = stream_json_kind (data ! start)"
  define g where "g = (if need_paths (m_cfg m) then f\<lparr>f_path := current_path w1\<rparr> else f)\<lparr>f_kind := kind\<rparr>"
  let ?r = "append_value_at L m inspect child depth data start0 f w out"
  have unfolded: "?r =
     (if length data \<le> start then (None, w, out)
      else if st_stop (w_ins w) then skip_masked m data start w out
      else if max_depth (m_cfg m) < depth then skip_masked m data start (stream_fail L CodeDepthLimit f depth w) out
      else if max_nodes (m_cfg m) < st_nodes (w_ins w1) then skip_masked m data start (stream_fail L CodeNodeLimit f depth w1) out
      else if kind = KindInvalid then (None, w1, out)
      else (case stream_scalar_end data start kind of
          None \<Rightarrow> (None, w1, out)
        | Some e \<Rightarrow> (case decide_value L m g data start e w1 out of
              (Some (broken, omitted), w, out) \<Rightarrow>
                (if broken then None
                 else map_option (\<lambda>next. (next, omitted)) (skip_json_value data start), w,
                 if omitted \<and> w_path w = [] then out @ ''null'' else out)
            | (None, w, out) \<Rightarrow> append_kind L m inspect child data start e g w out)))"
    unfolding append_value_at_def Let_def start_def w1_def kind_def g_def ..
  have "value_step_ok data start w out ?r"
  proof (cases "length data \<le> start")
    case True
    then show ?thesis unfolding unfolded by (simp add: value_step_failed)
  next
    case len: False
    note skip = skip_masked_ok [of w _ data start out m]
    consider (stop) "st_stop (w_ins w)"
      | (deep) "\<not> st_stop (w_ins w)" "max_depth (m_cfg m) < depth"
      | (nodes) "\<not> st_stop (w_ins w)" "\<not> max_depth (m_cfg m) < depth" "max_nodes (m_cfg m) < st_nodes (w_ins w1)"
      | (on) "\<not> st_stop (w_ins w)" "\<not> max_depth (m_cfg m) < depth" "\<not> max_nodes (m_cfg m) < st_nodes (w_ins w1)"
      by blast
    then consider (masked) w2 where "walker_le w w2" "cache_ok data (w_keys w2)" "?r = skip_masked m data start w2 out"
      | (invalid) "?r = (None, w1, out)"
      | (go) e where "stream_scalar_end data start kind = Some e"
        "?r = (case decide_value L m g data start e w1 out of
              (Some (broken, omitted), w, out) \<Rightarrow>
                (if broken then None
                 else map_option (\<lambda>next. (next, omitted)) (skip_json_value data start), w,
                 if omitted \<and> w_path w = [] then out @ ''null'' else out)
            | (None, w, out) \<Rightarrow> append_kind L m inspect child data start e g w out)"
    proof cases
      case stop
      then show thesis using masked [of w] cache len unfolding unfolded by simp
    next
      case deep
      then show thesis using masked [OF stream_fail_le] cache len unfolding unfolded by simp
    next
      case nodes
      then show thesis using masked [OF walker_le_trans [OF w1(1) stream_fail_le]] w1(2) len unfolding unfolded by simp
    next
      case on
      then show thesis using invalid go len unfolding unfolded
        by (cases "kind = KindInvalid"; cases "stream_scalar_end data start kind"; simp)
    qed
    then show ?thesis
    proof cases
      case masked
      then show ?thesis using skip by simp
    next
      case invalid
      then show ?thesis using w1(1) by (simp add: value_step_failed)
    next
      case go
      obtain r w2 out2 where d: "decide_value L m g data start e w1 out = (r, w2, out2)" by (metis surj_pair)
      show ?thesis
      proof (cases r)
        case None
        have d2: "walker_le w1 w2" "cache_ok data (w_keys w2)" "out2 = out"
          using decide_value_ok [OF d] w1(2) None by auto
        have "value_step_ok data start w2 out (append_kind L m inspect child data start e g w2 out)"
          by (rule append_kind_ok [OF inspect child sorts d2(2) skipped])
             (use len go(1) in \<open>simp_all add: g_def kind_def\<close>)
        then show ?thesis using value_step_later [OF walker_le_trans [OF w1(1) d2(1)]] d None d2(3) unfolding go(2) by simp
      next
        case (Some x)
        obtain broken omitted where "x = (broken, omitted)" by (cases x)
        note d = d [unfolded Some this]
        show ?thesis using value_step_later [OF w1(1) decided_step [OF w1(2) d]] unfolding go(2) d by simp
      qed
    qed
  qed
  then show "value_step_ok data start0 w out ?r" unfolding start_def by (rule value_step_skipped)
qed

section \<open>Every level\<close>

lemma every_level_ok:
  assumes "sorts_by m_key (sort_members L)"
  shows "value_ok (append_value_fuel L m n depth) \<and> inspector_ok (inspect_string_fuel L m n depth)"
proof (induction n arbitrary: depth)
  case 0
  show ?case by (simp add: value_ok_def inspector_ok_def value_step_failed append_value_fuel.simps inspect_string_fuel.simps)
next
  case (Suc n)
  have child: "value_ok (append_value_fuel L m n (depth + 1))" and nested: "inspector_ok (inspect_string_fuel L m n (depth + 1))"
    using Suc.IH by simp_all
  have inspect: "inspector_ok (inspect_string_at L m (inspect_string_fuel L m n (depth + 1))
      (walk_document (append_value_fuel L m n (depth + 1))) depth)"
    by (rule inspect_string_at_ok [OF nested walk_document_ok [OF child]])
  then show ?case using append_value_at_ok [OF inspect child assms] by (simp add: fuel_step)
qed

lemma append_value_ok: "sorts_by m_key (sort_members L) \<Longrightarrow> value_ok (append_value L m depth)"
  using every_level_ok by (simp add: append_value_def)

lemma inspect_string_ok: "sorts_by m_key (sort_members L) \<Longrightarrow> inspector_ok (inspect_string L m depth)"
  using every_level_ok by (simp add: inspect_string_def)

section \<open>Documents\<close>

lemma reads_document:
  assumes "reads data 0 e" and "skip_json_space data e = length data"
  shows "valid_json_document data"
proof -
  let ?p = "skip_json_space data 0"
  have e: "?p < e" "e \<le> length data" using assms(1) by (simp_all add: reads_def Let_def)
  have ws: "json_ws (slice data 0 ?p)" "json_ws (slice data e (length data))"
    using json_ws_skipped [of 0 data] json_ws_skipped [OF e(2)] assms(2) by simp_all
  have parts: "data = slice data 0 ?p @ slice data ?p e @ slice data e (length data)"
    using e by (simp add: slice_append slice_whole)
  show ?thesis
  proof (cases "json_value (slice data ?p e)")
    case True
    then have "json_text data" using ws parts unfolding json_text_def by blast
    then show ?thesis by (rule json_text_valid)
  next
    case False
    then have one: "e = length data" "e = Suc ?p" "data ! ?p = quote_char"
      using assms(1) by (auto simp: reads_def Let_def)
    have "slice data 0 ?p @ slice data ?p e = data"
      using slice_append [of 0 ?p e data] e(1) by (simp add: one(1) slice_whole)
    then have "data = slice data 0 ?p @ [quote_char]"
      using slice_one [of ?p data] one e by metis
    then show ?thesis using lone_quote_valid [OF ws(1)] by metis
  qed
qed

lemma root_walk:
  assumes "sorts_by m_key (sort_members L)"
    and "append_value L m 0 data 0 f (new_stream_walker nodes path) [] = (r, w, out)"
  shows "walker_le (new_stream_walker nodes path) w"
    and "r = Some (next, omitted) \<Longrightarrow> reads data 0 next \<and> written out"
proof -
  have ok: "value_step_ok data 0 (new_stream_walker nodes path) [] (r, w, out)"
    using append_value_ok [OF assms(1), of m 0] assms(2) unfolding value_ok_def new_stream_walker_def
    by (metis empty_cache_ok stream_walker.select_convs(5))
  then show "walker_le (new_stream_walker nodes path) w" by (simp add: value_step_ok_def)
  assume "r = Some (next, omitted)"
  then show "reads data 0 next \<and> written out" using ok null_written
    by (cases omitted) (auto simp: value_step_ok_def appends_def new_stream_walker_def)
qed

lemma mask_json_spec:
  assumes sorts: "sorts_by m_key (sort_members L)" and r: "mask_json L (Some m) src = (result, None)"
  shows "valid_json_document src \<and> valid_utf8 src \<and> written result"
proof -
  obtain r w out where walk: "append_value L m 0 src 0 root_field (new_stream_walker 0 []) [] = (r, w, out)"
    by (metis surj_pair)
  have stream: "mask_json_stream L m src = (result, None)" and utf8: "valid_utf8 src"
    using r by (auto simp: mask_json_def mask_json_checked_def json_failure_def split: if_splits)
  obtain e omitted where e: "r = Some (e, omitted)" "skip_json_space src e = length src" "result = out"
    using stream by (auto simp: mask_json_stream_def walk json_failure_def split: option.splits if_splits prod.splits)
  show ?thesis using root_walk(2) [OF sorts walk e(1)] reads_document e(2,3) utf8 by blast
qed

section \<open>Properties\<close>

text \<open>
  C2: When \<open>MaskJSON\<close> succeeds, what it returns is one value of the JSON grammar, in
  valid UTF-8 and without a control byte, so it is a single line; and the input was valid
  UTF-8 and a document \<open>validJSONDocument\<close> accepts.
\<close>

theorem mask_json_returns_json:
  assumes "sorts_ok L" and "mask_json L (Some m) src = (result, None)"
  shows "json_value result \<and> valid_utf8 result \<and> no_control result \<and> valid_utf8 src \<and> valid_json_document src"
  using mask_json_spec [OF _ assms(2)] assms(1) by (simp add: sorts_ok_def written_def)

theorem mask_json_returns_json_witness: "json_value ''null'' \<and> valid_json_document ''null''"
proof -
  let ?m = "\<lparr>m_policy = PolicyFunc (Some (\<lambda>f. Returns no_opinion)), m_cfg = default_config\<rparr>"
  have pieces: "skip_json_space ''null'' 0 = 0" "stream_json_kind (CHR ''n'') = KindNil"
      "stream_scalar_end ''null'' 0 KindNil = Some 4" "skip_json_space ''null'' 4 = 4"
    by code_simp+
  have utf8: "valid_utf8 ''null''" by (rule valid_utf8_ascii) simp
  have call: "call_policy u (PolicyFunc (Some (\<lambda>f. Returns no_opinion))) f = Inr no_opinion" for u f
    by (simp add: call_policy_def)
  have opinion: "\<not> dec_omit no_opinion" "is_nil_rule (dec_rule no_opinion)"
    by (simp_all add: no_opinion_def is_nil_rule_def)
  have "append_value plain_library ?m 0 ''null'' 0 root_field (new_stream_walker 0 []) [] =
      (Some (4, False), set_ins \<lparr>st_nodes = 1, st_errs = [], st_stop = False\<rparr> (new_stream_walker 0 []), ''null'')"
    unfolding append_value_unfold [of _ _ 0] append_value_at_def pieces Let_def
    by (simp add: pieces new_stream_walker_def default_config_def decide_value_def call opinion
        append_kind_def set_ins_def)
  then have "mask_json plain_library (Some ?m) ''null'' = (''null'', None)"
    by (simp add: mask_json_def mask_json_checked_def mask_json_stream_def pieces utf8 set_ins_def has_json_resource_error_def
        aggregate_errors_def default_config_def)
  from mask_json_returns_json [OF plain_library_sorts this] show ?thesis by simp
qed

text \<open>
  C14: No failure is lost in a walk.  Started with an empty list, it ends with at most 64
  failures; a walk that stopped has recorded the limit it hit; and a document that
  succeeds has neither failed nor stopped.
\<close>

theorem no_failure_lost:
  assumes "sorts_ok L" and "append_value L m 0 data 0 root_field (new_stream_walker 0 []) [] = (r, w, out)"
  shows "length (st_errs (w_ins w)) \<le> 64
    \<and> (st_stop (w_ins w) \<longrightarrow> (\<exists>e \<in> set (st_errs (w_ins w)). e_code e = CodeDepthLimit \<or> e_code e = CodeNodeLimit))
    \<and> (snd (mask_json_stream L m data) = None \<longrightarrow> st_errs (w_ins w) = [] \<and> \<not> st_stop (w_ins w))"
proof -
  have le: "state_le \<lparr>st_nodes = 0, st_errs = [], st_stop = False\<rparr> (w_ins w)"
    using root_walk(1) [OF _ assms(2)] assms(1) by (simp add: sorts_ok_def walker_le_def new_stream_walker_def)
  have "snd (mask_json_stream L m data) = None \<Longrightarrow> st_errs (w_ins w) = []"
    by (auto simp: mask_json_stream_def assms(2) json_failure_def aggregate_errors_def split: option.splits if_splits prod.splits)
  then show ?thesis using le by (auto simp: state_le_def has_limit_def limit_code_def max_mask_errors_def)
qed

theorem no_failure_lost_witness:
  "case append_value plain_library \<lparr>m_policy = PolicyFunc None, m_cfg = default_config\<rparr> 0 ''[1]'' 0 root_field
      (new_stream_walker 0 []) [] of (r, w, out) \<Rightarrow> length (st_errs (w_ins w)) \<le> 64"
proof -
  let ?m = "\<lparr>m_policy = PolicyFunc None, m_cfg = default_config\<rparr>"
  obtain r w out where walk: "append_value plain_library ?m 0 ''[1]'' 0 root_field (new_stream_walker 0 []) [] = (r, w, out)"
    by (metis surj_pair)
  show ?thesis using no_failure_lost [OF plain_library_sorts walk] by (simp add: walk)
qed

end
