(* ===== verification/JsonLine.thy ===== *)
theory JsonLine
  imports JsonTree Adapter StreamOutput
begin

text \<open>
  The writer that masks JSON lines (\<open>internal/jsonline/writer.go\<close>) behind the zap and
  zerolog adapters.  \<open>json.Encoder\<close> prints a document as \<open>encodeJSONTree\<close> does, and the
  decoder is the one of theory \<open>JsonTree\<close>; the destination is a function from the bytes
  of one call to what \<open>io.Writer\<close> reports.
\<close>

section \<open>The writer\<close>

record line_writer =
  lw_core :: "masker option"
  lw_mark :: bytes
  lw_fallback :: bytes
  lw_diagnostics :: bool

abbreviation newline :: char where
  "newline \<equiv> CHR 0x0A"

definition quoted :: "bytes \<Rightarrow> bytes" where
  "quoted s = quote_char # s @ [quote_char]"

definition fallback_line :: "bytes \<Rightarrow> bytes" where
  "fallback_line mark = ''{'' @ quoted ''message'' @ '':'' @ json_marshal_string mark @ ''}''"

definition new_line_writer :: "golib \<Rightarrow> masker option \<Rightarrow> bool \<Rightarrow> line_writer" where
  "new_line_writer L core diagnostics =
     (let mark = (case core of
            None \<Rightarrow> default_redaction_marker
          | Some m \<Rightarrow> (case mask_string (tables L) (Some m) [] (Builtin FullRule) of
                (mark, None) \<Rightarrow> if mark \<noteq> [] then mark else default_redaction_marker
              | (_, Some _) \<Rightarrow> default_redaction_marker)) in
      \<lparr>lw_core = core, lw_mark = mark, lw_fallback = fallback_line mark, lw_diagnostics = diagnostics\<rparr>)"

definition blank :: "bytes \<Rightarrow> bool" where
  "blank line = list_all (\<lambda>c. c = CHR '' '' \<or> c = CHR 0x09 \<or> c = CHR 0x0D) line"

section \<open>Diagnostic keys\<close>

definition diagnostic_suffixes :: "bytes list" where
  "diagnostic_suffixes = [''Verbose'', ''Causes'', ''Error'']"

definition mentions_diagnostic :: "bytes \<Rightarrow> bool" where
  "mentions_diagnostic line = list_ex (\<lambda>s. contains line (s @ [quote_char])) diagnostic_suffixes"

definition cut_suffix :: "bytes \<Rightarrow> bytes \<Rightarrow> bytes option" where
  "cut_suffix key s =
     (if length s \<le> length key \<and> drop (length key - length s) key = s
      then Some (take (length key - length s) key) else None)"

fun first_base :: "bytes \<Rightarrow> bytes list \<Rightarrow> bytes option" where
  "first_base key [] = None"
| "first_base key (s # ss) = (case cut_suffix key s of
       None \<Rightarrow> first_base key ss
     | Some base \<Rightarrow> if base \<noteq> [] then Some base else first_base key ss)"

definition diagnostic_base :: "bytes \<Rightarrow> bytes option" where
  "diagnostic_base key = first_base key diagnostic_suffixes"

definition diagnostic_probe :: bytes where
  "diagnostic_probe = ''diagnostic''"

definition diagnostic_probe_alt :: bytes where
  "diagnostic_probe_alt = ''diagnostic value''"

text \<open>
  \<open>maskDiagnostic\<close>: the value the member gets, \<open>None\<close> when the policy omits its base key.
\<close>

definition mask_diagnostic ::
    "golib \<Rightarrow> masker \<Rightarrow> bytes \<Rightarrow> bytes \<Rightarrow> bytes \<Rightarrow> json_tree \<Rightarrow> go_error + json_tree option" where
  "mask_diagnostic L m mark base path v =
     (let f = \<lparr>f_key = base, f_path = path, f_source = SourceJSON, f_kind = json_value_kind v\<rparr>;
          text = (case v of
              JsonString s \<Rightarrow> s
            | _ \<Rightarrow> if diagnostic_probe = mark then diagnostic_probe_alt else diagnostic_probe) in
      case mask_string_field L m f text of
        (_, Some e) \<Rightarrow> Inl e
      | (None, None) \<Rightarrow> Inr None
      | (Some result, None) \<Rightarrow> Inr (Some (case v of
            JsonString _ \<Rightarrow> JsonString result
          | _ \<Rightarrow> if result = text then v else JsonString mark)))"

text \<open>
  \<open>walkDiagnostics\<close>: the document after the walk and whether it changed.  The walk goes
  through the members of an object in the order of the list; Go's order decides at most
  which of several failures is reported, and every failure gives the same line.
\<close>

fun walk_diagnostics :: "golib \<Rightarrow> masker \<Rightarrow> bytes \<Rightarrow> bytes \<Rightarrow> json_tree \<Rightarrow> go_error + json_tree \<times> bool"
  and walk_diagnostic_members ::
    "golib \<Rightarrow> masker \<Rightarrow> bytes \<Rightarrow> bytes \<Rightarrow> (bytes \<times> json_tree) list \<Rightarrow> go_error + (bytes \<times> json_tree) list \<times> bool"
  and walk_diagnostic_elements ::
    "golib \<Rightarrow> masker \<Rightarrow> bytes \<Rightarrow> bytes \<Rightarrow> nat \<Rightarrow> json_tree list \<Rightarrow> go_error + json_tree list \<times> bool" where
  "walk_diagnostics L m mark path (JsonObject ms) =
     map_sum id (\<lambda>(ms, changed). (JsonObject ms, changed)) (walk_diagnostic_members L m mark path ms)"
| "walk_diagnostics L m mark path (JsonArray vs) =
     map_sum id (\<lambda>(vs, changed). (JsonArray vs, changed)) (walk_diagnostic_elements L m mark path 0 vs)"
| "walk_diagnostics L m mark path v = Inr (v, False)"
| "walk_diagnostic_members L m mark path [] = Inr ([], False)"
| "walk_diagnostic_members L m mark path ((key, v) # ms) =
     (case (case diagnostic_base key of
              None \<Rightarrow> Inr (Some v)
            | Some base \<Rightarrow> mask_diagnostic L m mark base (path_for path base) v) of
        Inl e \<Rightarrow> Inl e
      | Inr None \<Rightarrow> map_sum id (\<lambda>(ms, _). (ms, True)) (walk_diagnostic_members L m mark path ms)
      | Inr (Some masked) \<Rightarrow>
          (if masked \<noteq> v then
             map_sum id (\<lambda>(ms, _). ((key, masked) # ms, True)) (walk_diagnostic_members L m mark path ms)
           else (case walk_diagnostics L m mark (path_for path key) v of
               Inl e \<Rightarrow> Inl e
             | Inr (v, changed) \<Rightarrow>
                 map_sum id (\<lambda>(ms, more). ((key, v) # ms, changed \<or> more)) (walk_diagnostic_members L m mark path ms))))"
| "walk_diagnostic_elements L m mark path i [] = Inr ([], False)"
| "walk_diagnostic_elements L m mark path i (v # vs) =
     (case walk_diagnostics L m mark (path_for_index path i) v of
        Inl e \<Rightarrow> Inl e
      | Inr (v, changed) \<Rightarrow>
          map_sum id (\<lambda>(vs, more). (v # vs, changed \<or> more)) (walk_diagnostic_elements L m mark path (Suc i) vs))"

text \<open>\<open>diagnostics\<close>; \<open>None\<close> is an error.\<close>

definition line_diagnostics :: "golib \<Rightarrow> masker \<Rightarrow> bytes \<Rightarrow> bytes \<Rightarrow> bytes option" where
  "line_diagnostics L m mark line = (case decode_json line 0 of
       None \<Rightarrow> None
     | Some (document, _) \<Rightarrow> (case walk_diagnostics L m mark ''$'' document of
           Inl e \<Rightarrow> None
         | Inr (document, changed) \<Rightarrow> if changed then encode_tree document else Some line))"

section \<open>Lines\<close>

definition mask_line :: "golib \<Rightarrow> line_writer \<Rightarrow> bytes \<Rightarrow> bytes" where
  "mask_line L w line =
     (if blank line then line
      else case lw_core w of
        None \<Rightarrow> lw_fallback w
      | Some m \<Rightarrow> (case mask_json L (Some m) line of
            (_, Some e) \<Rightarrow> lw_fallback w
          | (out, None) \<Rightarrow>
              if \<not> lw_diagnostics w \<or> \<not> mentions_diagnostic out then out
              else (case line_diagnostics L m (lw_mark w) out of None \<Rightarrow> lw_fallback w | Some out \<Rightarrow> out)))"

function mask_rest :: "golib \<Rightarrow> line_writer \<Rightarrow> bytes \<Rightarrow> bytes" where
  "mask_rest L w p = (case index_byte p newline of
       None \<Rightarrow>
         if blank p then p
         else (let masked = mask_line L w p in if masked = lw_fallback w then masked @ [newline] else masked)
     | Some i \<Rightarrow>
         (let line = take i p in
          (if blank line then line else mask_line L w line) @ newline # mask_rest L w (drop (Suc i) p)))"
  by pat_completeness auto
termination
  by (relation "measure (\<lambda>(L, w, p). length p)") (auto dest: index_byte_Some)

declare mask_rest.simps [simp del]

text \<open>\<open>mask\<close>, called with at least one byte.\<close>

definition mask_lines :: "golib \<Rightarrow> line_writer \<Rightarrow> bytes \<Rightarrow> bytes" where
  "mask_lines L w p =
     (if index_byte p newline = Some (length p - 1) then
        (let line = take (length p - 1) p in if blank line then p else mask_line L w line @ [newline])
      else mask_rest L w p)"

datatype write_error = NilWriter | DestinationFailed | ShortWrite

text \<open>
  \<open>Write\<close>: what it reports and what it hands to the destination.
\<close>

definition write_lines ::
    "golib \<Rightarrow> line_writer \<Rightarrow> (bytes \<Rightarrow> int \<times> write_error option) option \<Rightarrow> bytes
      \<Rightarrow> (int \<times> write_error option) \<times> bytes option" where
  "write_lines L w dest p =
     (if p = [] then ((0, None), None)
      else case dest of
        None \<Rightarrow> ((0, Some NilWriter), None)
      | Some out \<Rightarrow> (let masked = mask_lines L w p in case out masked of
            (n, Some e) \<Rightarrow> ((0, Some e), Some masked)
          | (n, None) \<Rightarrow>
              if n < int (length masked) then ((0, Some ShortWrite), Some masked)
              else ((int (length p), None), Some masked)))"

text \<open>\<open>Sync\<close>: what the destination's own \<open>Sync\<close> reports, if it has one.\<close>

definition sync_lines :: "write_error option option \<Rightarrow> write_error option" where
  "sync_lines sync = (case sync of None \<Rightarrow> None | Some result \<Rightarrow> result)"

text \<open>\<open>zapmask.NewWriteSyncer\<close> and \<open>zerologmask.NewWriter\<close>.\<close>

definition zap_writer :: "golib \<Rightarrow> masker option \<Rightarrow> line_writer" where
  "zap_writer L core = new_line_writer L core True"

definition zerolog_writer :: "golib \<Rightarrow> masker option \<Rightarrow> line_writer" where
  "zerolog_writer L core = new_line_writer L core False"

section \<open>What a line becomes\<close>

lemma quoted_message: "append_json_string [] ''message'' = quoted ''message''"
  by (simp add: quoted_def append_json_string_def) code_simp

lemma fallback_line_written: "written (fallback_line mark)"
proof -
  have "fallback_line mark
      = ''{'' @ join '','' (map encode_member [(''message'', append_json_string [] mark)]) @ ''}''"
    by (simp add: fallback_line_def encode_member_def quoted_message json_marshal_string_def)
  then show ?thesis using object_text_written [of "[(''message'', append_json_string [] mark)]"] encoded_written by simp
qed

definition line_writer_ok :: "line_writer \<Rightarrow> bool" where
  "line_writer_ok w \<longleftrightarrow> lw_fallback w = fallback_line (lw_mark w)"

lemma new_line_writer_ok: "line_writer_ok (new_line_writer L core d)"
  by (simp add: line_writer_ok_def new_line_writer_def Let_def)

lemma line_diagnostics_written:
  assumes "line_diagnostics L m mark out = Some line" and "written out"
  shows "written line"
  using assms encode_tree_written by (auto simp: line_diagnostics_def split: option.splits sum.splits prod.splits if_splits)

lemma mask_line_cases:
  assumes "\<not> blank line"
  obtains "mask_line L w line = lw_fallback w"
  | m out where "lw_core w = Some m" and "mask_json L (Some m) line = (out, None)"
      and "mask_line L w line = out \<or> line_diagnostics L m (lw_mark w) out = Some (mask_line L w line)"
proof -
  show thesis
  proof (cases "lw_core w")
    case None
    then show thesis using assms that(1) by (simp add: mask_line_def)
  next
    case (Some m)
    obtain out e where r: "mask_json L (Some m) line = (out, e)" by (metis surj_pair)
    show thesis
    proof (cases e)
      case None
      note r = r [unfolded None]
      have "mask_line L w line = lw_fallback w \<or> mask_line L w line = out
          \<or> line_diagnostics L m (lw_mark w) out = Some (mask_line L w line)"
        using assms Some r by (auto simp: mask_line_def split: option.splits)
      then show thesis using that(1) that(2) [OF Some r] by blast
    qed (use assms Some r that(1) in \<open>simp add: mask_line_def\<close>)
  qed
qed

lemma mask_line_written:
  assumes "sorts_by m_key (sort_members L)" and "line_writer_ok w" and "\<not> blank line"
  shows "written (mask_line L w line)"
proof (cases rule: mask_line_cases [OF assms(3), of L w])
  case 1
  then show ?thesis using fallback_line_written assms(2) by (simp add: line_writer_ok_def)
next
  case (2 m out)
  have "written out" using mask_json_spec [OF assms(1) 2(2)] by simp
  then show ?thesis using 2(3) line_diagnostics_written by auto
qed

lemma mask_line_one_line:
  assumes "sorts_by m_key (sort_members L)" and "line_writer_ok w"
  shows "newline \<notin> set (mask_line L w line)"
proof (cases "blank line")
  case True
  then have "c = CHR '' '' \<or> c = CHR 0x09 \<or> c = CHR 0x0D" if "c \<in> set line" for c
    using that by (simp add: blank_def list_all_iff)
  from this [of newline] show ?thesis using True by (auto simp: mask_line_def)
next
  case False
  then have "no_control (mask_line L w line)" using mask_line_written [OF assms] by (simp add: written_def)
  then show ?thesis by (auto simp: no_control_def list_all_iff)
qed

section \<open>The lines of a text\<close>

function split_lines :: "bytes \<Rightarrow> bytes list" where
  "split_lines p = (case index_byte p newline of
       None \<Rightarrow> [p]
     | Some i \<Rightarrow> take i p # split_lines (drop (Suc i) p))"
  by pat_completeness auto
termination
  by (relation "measure length") (auto dest: index_byte_Some)

declare split_lines.simps [simp del]

lemma index_byte_at: "c \<notin> set a \<Longrightarrow> index_byte (a @ c # b) c = Some (length a)"
  by (induction a) auto

lemma split_lines_at: "newline \<notin> set a \<Longrightarrow> split_lines (a @ newline # b) = a # split_lines b"
  by (subst split_lines.simps) (simp add: index_byte_at)

lemma split_lines_one: "newline \<notin> set a \<Longrightarrow> split_lines a = [a]"
  by (subst split_lines.simps) (simp add: index_byte_None [THEN iffD2])

lemma split_lines_nonempty: "split_lines p \<noteq> []"
  by (subst split_lines.simps) (simp split: option.splits)

lemma split_lines_step: "index_byte p newline = Some i \<Longrightarrow> split_lines p = take i p # split_lines (drop (Suc i) p)"
  by (subst split_lines.simps) simp

text \<open>Whether the last line is replaced by the fallback, which is then ended by a newline.\<close>

definition last_replaced :: "golib \<Rightarrow> line_writer \<Rightarrow> bytes \<Rightarrow> bool" where
  "last_replaced L w p \<longleftrightarrow>
     (let l = last (split_lines p) in \<not> blank l \<and> mask_line L w l = lw_fallback w)"

lemma mask_blank: "blank line \<Longrightarrow> mask_line L w line = line"
  by (simp add: mask_line_def)

lemma mask_rest_lines:
  assumes "sorts_by m_key (sort_members L)" and "line_writer_ok w"
  shows "split_lines (mask_rest L w p)
    = map (mask_line L w) (split_lines p) @ (if last_replaced L w p then [[]] else [])"
proof (induction p rule: split_lines.induct)
  case (1 p)
  note one = mask_line_one_line [OF assms]
  show ?case
  proof (cases "index_byte p newline")
    case None
    then have p: "split_lines p = [p]" by (intro split_lines_one) (simp add: index_byte_None)
    have "split_lines (mask_line L w p @ [newline]) = [mask_line L w p, []]"
      using split_lines_at [OF one, of p "[]"] split_lines_one [of "[]"] by simp
    then show ?thesis using None split_lines_one [OF one, of p] mask_blank [of p L w]
      by (subst mask_rest.simps, cases "blank p"; cases "mask_line L w p = lw_fallback w")
        (simp_all add: p last_replaced_def Let_def)
  next
    case (Some i)
    have "(if blank (take i p) then take i p else mask_line L w (take i p)) = mask_line L w (take i p)"
      by (simp add: mask_blank)
    then have "mask_rest L w p = mask_line L w (take i p) @ newline # mask_rest L w (drop (Suc i) p)"
      using Some by (subst mask_rest.simps) simp
    moreover have "last_replaced L w p = last_replaced L w (drop (Suc i) p)"
      using split_lines_nonempty by (simp add: last_replaced_def split_lines_step [OF Some])
    ultimately show ?thesis using "1" [OF Some] by (simp add: split_lines_at [OF one] split_lines_step [OF Some])
  qed
qed

lemma mask_lines_lines:
  assumes "sorts_by m_key (sort_members L)" and "line_writer_ok w"
  shows "split_lines (mask_lines L w p)
    = map (mask_line L w) (split_lines p) @ (if last_replaced L w p then [[]] else [])"
proof (cases "index_byte p newline = Some (length p - 1)")
  case True
  let ?line = "take (length p - 1) p"
  have i: "length p - 1 < length p" "p ! (length p - 1) = newline" "newline \<notin> set ?line"
    using index_byte_Some [OF True] by auto
  then have p: "p = ?line @ [newline]" using take_Suc_conv_app_nth [OF i(1)] by simp
  have lines: "split_lines p = [?line, []]"
    using split_lines_at [OF i(3), of "[]"] split_lines_one [of "[]"] p by simp
  have "mask_lines L w p = mask_line L w ?line @ [newline]"
    using True p by (simp add: mask_lines_def Let_def mask_blank)
  moreover have "split_lines (mask_line L w ?line @ [newline]) = [mask_line L w ?line, []]"
    using split_lines_at [OF mask_line_one_line [OF assms], of ?line "[]"] split_lines_one [of "[]"] by simp
  ultimately show ?thesis by (simp add: lines last_replaced_def blank_def mask_blank)
next
  case False
  then show ?thesis using mask_rest_lines [OF assms] by (simp add: mask_lines_def)
qed

section \<open>What the diagnostics leave\<close>

text \<open>
  A member under a diagnostic key comes from a member of the original under the same key
  and is what \<open>maskDiagnostic\<close> made of it.
\<close>

lemma walk_members_masked:
  assumes "walk_diagnostic_members L m mark path ms = Inr (ms', changed)" and "(key, v) \<in> set ms'"
    and "diagnostic_base key = Some base"
  shows "\<exists>v0. (key, v0) \<in> set ms \<and> (\<exists>masked. mask_diagnostic L m mark base (path_for path base) v0 = Inr (Some masked)
    \<and> (v = masked \<or> masked = v0 \<and> (\<exists>c. walk_diagnostics L m mark (path_for path key) v0 = Inr (v, c))))"
  using assms
proof (induction ms arbitrary: ms' changed)
  case (Cons kv ms)
  obtain k w where kv: "kv = (k, w)" by (cases kv)
  define d where "d = (case diagnostic_base k of None \<Rightarrow> Inr (Some w)
      | Some base \<Rightarrow> mask_diagnostic L m mark base (path_for path base) w)"
  obtain opt where opt: "d = Inr opt"
    using Cons.prems(1) by (cases d) (simp_all add: kv d_def)
  obtain rest c where rest: "walk_diagnostic_members L m mark path ms = Inr (rest, c)"
    using Cons.prems(1) opt
    by (cases "walk_diagnostic_members L m mark path ms")
      (auto simp: kv d_def [symmetric] split: option.splits if_splits sum.splits)
  note later = Cons.IH [OF rest _ Cons.prems(3)]
  consider (omitted) "opt = None" "ms' = rest" | (masked) x where "opt = Some x" "x \<noteq> w" "ms' = (k, x) # rest"
    | (walked) w' c' where "opt = Some w" "walk_diagnostics L m mark (path_for path k) w = Inr (w', c')" "ms' = (k, w') # rest"
    using Cons.prems(1) opt rest by (auto simp: kv d_def [symmetric] split: option.splits if_splits sum.splits)
  then show ?case
  proof cases
    case omitted
    then show ?thesis using later Cons.prems(2) by auto
  next
    case masked
    then show ?thesis using later Cons.prems(2,3) opt by (auto simp: kv d_def)
  next
    case walked
    then show ?thesis using later Cons.prems(2,3) opt by (auto simp: kv d_def)
  qed
qed simp

section \<open>Properties\<close>

text \<open>
  C39: A write keeps the lines of its input: the lines of what it hands to the destination
  are the masked lines of the input, one for one, and only when the last line has no
  newline and was replaced by the fallback line, a newline is added to end it.
\<close>

theorem lines_masked_one_for_one:
  assumes "sorts_ok L"
  shows "split_lines (mask_lines L (new_line_writer L core d) p)
    = map (mask_line L (new_line_writer L core d)) (split_lines p)
      @ (if last_replaced L (new_line_writer L core d) p then [[]] else [])"
  using mask_lines_lines [OF _ new_line_writer_ok] assms by (simp add: sorts_ok_def)

theorem lines_masked_one_for_one_witness:
  "length (split_lines (mask_lines plain_library (new_line_writer plain_library None True) ''not json'')) = 2"
proof -
  let ?w = "new_line_writer plain_library None True"
  have one: "split_lines ''not json'' = [''not json'']" by (rule split_lines_one) simp
  have "last_replaced plain_library ?w ''not json''"
    unfolding last_replaced_def one by (simp add: mask_line_def new_line_writer_def blank_def)
  then show ?thesis using lines_masked_one_for_one [OF plain_library_sorts, of None True "''not json''"] by (simp add: one)
qed

text \<open>
  C40: A line that is not blank leaves the writer as one JSON value in valid UTF-8 on one
  line; a line the core refuses, or that meets no core, leaves it as the fallback line
  with nothing of the original.
\<close>

theorem masked_line_is_json:
  assumes "sorts_ok L" and "\<not> blank line" and "w = new_line_writer L core d"
  shows "json_value (mask_line L w line) \<and> valid_utf8 (mask_line L w line) \<and> no_control (mask_line L w line)
    \<and> (core = None \<or> snd (mask_json L core line) \<noteq> None \<longrightarrow> mask_line L w line = fallback_line (lw_mark w))"
proof -
  have w: "lw_core w = core" "lw_fallback w = fallback_line (lw_mark w)" by (simp_all add: assms(3) new_line_writer_def Let_def)
  have "written (mask_line L w line)"
    using mask_line_written [OF _ new_line_writer_ok assms(2)] assms(1,3) by (simp add: sorts_ok_def)
  moreover have "core = None \<or> snd (mask_json L core line) \<noteq> None \<Longrightarrow> mask_line L w line = fallback_line (lw_mark w)"
    using assms(2) w by (cases core) (auto simp: mask_line_def split: prod.splits option.splits)
  ultimately show ?thesis by (auto simp: written_def)
qed

theorem masked_line_is_json_witness: "json_value (fallback_line default_redaction_marker)"
  using masked_line_is_json [OF plain_library_sorts, of "''x''" "new_line_writer plain_library None False" None False]
  by (simp add: blank_def new_line_writer_def mask_line_def)

text \<open>
  A write reports all of its input only when the destination took all of the masked
  text; otherwise it reports no byte and the error.  What the destination sees is the
  masked text, whole, or nothing at all.
\<close>

theorem write_reports_what_was_written:
  "case write_lines L w dest p of ((n, e), sent) \<Rightarrow>
     (sent = None \<or> sent = Some (mask_lines L w p))
   \<and> (e = None \<and> p \<noteq> [] \<longrightarrow> n = int (length p) \<and> (\<exists>out k. dest = Some out \<and> out (mask_lines L w p) = (k, None)
        \<and> int (length (mask_lines L w p)) \<le> k))
   \<and> (e \<noteq> None \<longrightarrow> n = 0)"
  by (auto simp: write_lines_def Let_def split: option.splits prod.splits)

theorem write_reports_what_was_written_witness:
  "fst (fst (write_lines plain_library (new_line_writer plain_library None True) None ''x'')) = 0"
  using write_reports_what_was_written [of plain_library "new_line_writer plain_library None True" "''x''" None]
  by (simp add: write_lines_def)

text \<open>
  After the pass over the diagnostic keys every member under such a key is one that
  the rule of its base key let pass or rewrote: a member the policy omits is gone, and no
  other text reaches the line under that key.
\<close>

theorem diagnostic_members_decided:
  assumes "walk_diagnostics L m mark path (JsonObject ms) = Inr (JsonObject ms', changed)" and "(key, v) \<in> set ms'"
    and "diagnostic_base key = Some base"
  shows "\<exists>v0. (key, v0) \<in> set ms \<and> (\<exists>masked. mask_diagnostic L m mark base (path_for path base) v0 = Inr (Some masked)
    \<and> (v = masked \<or> masked = v0 \<and> (\<exists>c. walk_diagnostics L m mark (path_for path key) v0 = Inr (v, c))))"
proof -
  have "walk_diagnostic_members L m mark path ms = Inr (ms', changed)"
    using assms(1) by (cases "walk_diagnostic_members L m mark path ms") auto
  then show ?thesis using assms(2,3) by (rule walk_members_masked)
qed

theorem diagnostic_members_decided_witness:
  "\<exists>v0 masked. (''tokenError'', v0) \<in> set [(''tokenError'', JsonNull)] \<and>
     mask_diagnostic plain_library \<lparr>m_policy = PolicyFunc (Some (\<lambda>f. Returns no_opinion)),
       m_cfg = default_config\<lparr>embedded := False, text_detectors := False\<rparr>\<rparr> ''***'' ''token'' ''$[token]'' v0 = Inr (Some masked)"
proof -
  let ?m = "\<lparr>m_policy = PolicyFunc (Some (\<lambda>f. Returns no_opinion)),
     m_cfg = default_config\<lparr>embedded := False, text_detectors := False\<rparr>\<rparr>"
  have base: "diagnostic_base ''tokenError'' = Some ''token''" and path: "path_for ''$'' ''token'' = ''$[token]''"
    by code_simp+
  have utf8: "valid_utf8 ''token''" "valid_utf8 ''diagnostic''" by (rule valid_utf8_ascii; simp)+
  have call: "call_policy u (PolicyFunc (Some (\<lambda>f. Returns no_opinion))) f = Inr no_opinion" for u f
    by (simp add: call_policy_def)
  have opinion: "\<not> dec_omit no_opinion" "is_nil_rule (dec_rule no_opinion)"
    by (simp_all add: no_opinion_def is_nil_rule_def)
  have kept: "mask_diagnostic plain_library ?m ''***'' ''token'' ''$[token]'' JsonNull = Inr (Some JsonNull)"
    by (simp add: mask_diagnostic_def mask_string_field_def mask_scalar_string_def diagnostic_probe_def utf8 call opinion
        inspectable_def)
  have "walk_diagnostics plain_library ?m ''***'' ''$'' (JsonObject [(''tokenError'', JsonNull)])
      = Inr (JsonObject [(''tokenError'', JsonNull)], False)"
    by (simp add: base path kept)
  from diagnostic_members_decided [OF this, of "''tokenError''" JsonNull, OF _ base] show ?thesis
    unfolding path by auto
qed

end
