(* ===== verification/JsonWalk.thy ===== *)
theory JsonWalk
  imports StreamOutput JsonTree
begin

text \<open>
  The tree walker (\<open>json_walk.go\<close>) and \<open>maskJSONDOM\<close> (\<open>json.go\<close>), the reference the
  streaming walker is compared with: it decodes a document to a tree, masks the tree and
  encodes it.  It keeps its counter, its failures and its stop flag in the same state as
  an inspection; \<open>None\<close> is an omitted value.  The members of a Go map are visited in the
  order of the list, which stands for any order of the map.
\<close>

section \<open>Walking a tree\<close>

definition marker_tree :: "masker \<Rightarrow> json_tree" where
  "marker_tree m = JsonString (marker (m_cfg m))"

definition apply_tree_rule ::
    "golib \<Rightarrow> masker \<Rightarrow> rule \<Rightarrow> json_tree \<Rightarrow> field \<Rightarrow> inspect_state \<Rightarrow> json_tree \<times> inspect_state" where
  "apply_tree_rule L m r v f st =
     (case apply_rule (tables L) r
         \<lparr>ri_value = json_scalar_text v, ri_kind = f_kind f, ri_redaction = marker (m_cfg m)\<rparr> of
        Inl e \<Rightarrow> (marker_tree m, st\<lparr>st_errs := add_rule_error L (callback_code CodeRuleFailure e) f r (st_errs st)\<rparr>)
      | Inr result \<Rightarrow> (JsonString result, st))"

text \<open>\<open>applyFieldDecision\<close>; \<open>None\<close> when the policy has no opinion.\<close>

definition apply_field_decision ::
    "golib \<Rightarrow> masker \<Rightarrow> json_tree \<Rightarrow> field \<Rightarrow> inspect_state \<Rightarrow> json_tree option option \<times> inspect_state" where
  "apply_field_decision L m v f st = (case call_policy (tables L) (m_policy m) f of
       Inl e \<Rightarrow> (Some (Some (marker_tree m)), fail_inspect L (callback_code CodePolicyFailure e) f 0 st)
     | Inr d \<Rightarrow>
         if dec_omit d then (Some None, st)
         else if is_nil_rule (dec_rule d) then (None, st)
         else (case apply_tree_rule L m (dec_rule d) v f st of (result, st) \<Rightarrow> (Some (Some result), st)))"

definition walk_string ::
    "golib \<Rightarrow> masker \<Rightarrow> bytes \<Rightarrow> field \<Rightarrow> int \<Rightarrow> inspect_state \<Rightarrow> json_tree option \<times> inspect_state" where
  "walk_string L m s f depth st =
     (if inspectable m s then
        (case inspect_string L m depth s f st of ((masked, changed), st) \<Rightarrow> (Some (JsonString (if changed then masked else s)), st))
      else (Some (JsonString s), st))"

text \<open>
  What every value passes before the switch on its type: \<open>Inl\<close> a result, \<open>Inr\<close> the field
  with its kind.
\<close>

definition enter_tree ::
    "golib \<Rightarrow> masker \<Rightarrow> json_tree \<Rightarrow> field \<Rightarrow> int \<Rightarrow> inspect_state \<Rightarrow> (json_tree option + field) \<times> inspect_state" where
  "enter_tree L m v f depth st =
     (if st_stop st then (Inl (Some (marker_tree m)), st)
      else if max_depth (m_cfg m) < depth then (Inl (Some (marker_tree m)), fail_inspect L CodeDepthLimit f depth st)
      else (let st = st\<lparr>st_nodes := st_nodes st + 1\<rparr> in
        if max_nodes (m_cfg m) < st_nodes st then (Inl (Some (marker_tree m)), fail_inspect L CodeNodeLimit f depth st)
        else (let f = (if f_kind f = KindInvalid then f\<lparr>f_kind := json_value_kind v\<rparr> else f) in
          case apply_field_decision L m v f st of
            (Some result, st) \<Rightarrow> (Inl result, st)
          | (None, st) \<Rightarrow> (Inr f, st))))"

definition member_field :: "field \<Rightarrow> bytes \<Rightarrow> json_tree \<Rightarrow> field" where
  "member_field f key v =
     \<lparr>f_key = key, f_path = path_for (f_path f) key, f_source = SourceJSON, f_kind = json_value_kind v\<rparr>"

definition element_field :: "field \<Rightarrow> nat \<Rightarrow> json_tree \<Rightarrow> field" where
  "element_field f i v =
     \<lparr>f_key = [], f_path = path_for_index (f_path f) i, f_source = SourceJSON, f_kind = json_value_kind v\<rparr>"

fun walk_tree :: "golib \<Rightarrow> masker \<Rightarrow> json_tree \<Rightarrow> field \<Rightarrow> int \<Rightarrow> inspect_state \<Rightarrow> json_tree option \<times> inspect_state"
  and walk_members ::
    "golib \<Rightarrow> masker \<Rightarrow> (bytes \<times> json_tree) list \<Rightarrow> field \<Rightarrow> int \<Rightarrow> inspect_state \<Rightarrow> (bytes \<times> json_tree) list \<times> inspect_state"
  and walk_elements ::
    "golib \<Rightarrow> masker \<Rightarrow> nat \<Rightarrow> json_tree list \<Rightarrow> field \<Rightarrow> int \<Rightarrow> inspect_state \<Rightarrow> json_tree list \<times> inspect_state" where
  "walk_tree L m JsonNull f depth st = (case enter_tree L m JsonNull f depth st of
       (Inl r, st) \<Rightarrow> (r, st) | (Inr f, st) \<Rightarrow> (Some JsonNull, st))"
| "walk_tree L m (JsonBool b) f depth st = (case enter_tree L m (JsonBool b) f depth st of
       (Inl r, st) \<Rightarrow> (r, st)
     | (Inr f, st) \<Rightarrow>
         (Some (if preserve_safe (m_cfg m) then JsonBool b else JsonString (json_scalar_text (JsonBool b))), st))"
| "walk_tree L m (JsonString s) f depth st = (case enter_tree L m (JsonString s) f depth st of
       (Inl r, st) \<Rightarrow> (r, st) | (Inr f, st) \<Rightarrow> walk_string L m s f depth st)"
| "walk_tree L m (JsonNumber n) f depth st = (case enter_tree L m (JsonNumber n) f depth st of
       (Inl r, st) \<Rightarrow> (r, st) | (Inr f, st) \<Rightarrow> (Some (JsonNumber n), st))"
| "walk_tree L m (JsonObject ms) f depth st = (case enter_tree L m (JsonObject ms) f depth st of
       (Inl r, st) \<Rightarrow> (r, st)
     | (Inr f, st) \<Rightarrow> (case walk_members L m ms f depth st of (ms, st) \<Rightarrow> (Some (JsonObject ms), st)))"
| "walk_tree L m (JsonArray vs) f depth st = (case enter_tree L m (JsonArray vs) f depth st of
       (Inl r, st) \<Rightarrow> (r, st)
     | (Inr f, st) \<Rightarrow> (case walk_elements L m 0 vs f depth st of (vs, st) \<Rightarrow> (Some (JsonArray vs), st)))"
| "walk_members L m [] f depth st = ([], st)"
| "walk_members L m ((key, v) # ms) f depth st =
     (if st_stop st then ((key, v) # ms, st)
      else (case walk_tree L m v (member_field f key v) (depth + 1) st of
          (r, st) \<Rightarrow> (case walk_members L m ms f depth st of
              (ms, st) \<Rightarrow> ((case r of None \<Rightarrow> ms | Some v \<Rightarrow> (key, v) # ms), st))))"
| "walk_elements L m i [] f depth st = ([], st)"
| "walk_elements L m i (v # vs) f depth st =
     (if st_stop st then (v # vs, st)
      else (case walk_tree L m v (element_field f i v) (depth + 1) st of
          (r, st) \<Rightarrow> (case walk_elements L m (Suc i) vs f depth st of
              (vs, st) \<Rightarrow> ((case r of None \<Rightarrow> JsonNull | Some v \<Rightarrow> v) # vs, st))))"

definition mask_json_root :: "golib \<Rightarrow> masker \<Rightarrow> json_tree \<Rightarrow> field \<Rightarrow> json_tree \<times> go_error option" where
  "mask_json_root L m v root = (case walk_tree L m v root 0 \<lparr>st_nodes = 0, st_errs = [], st_stop = False\<rparr> of
       (r, st) \<Rightarrow> ((case r of None \<Rightarrow> JsonNull | Some v \<Rightarrow> v), aggregate_errors (st_errs st)))"

definition mask_json_dom :: "golib \<Rightarrow> masker \<Rightarrow> bytes \<Rightarrow> bytes \<times> go_error option" where
  "mask_json_dom L m data = (case decode_json data 0 of
       None \<Rightarrow> json_failure L m CodeInvalidJSON
     | Some (decoded, next) \<Rightarrow>
         if skip_json_space data next \<noteq> length data then json_failure L m CodeInvalidJSON
         else (case mask_json_root L m decoded (root_field\<lparr>f_kind := json_value_kind decoded\<rparr>) of
             (_, Some e) \<Rightarrow> (safe_json_fallback m, Some e)
           | (masked, None) \<Rightarrow> (case encode_tree masked of
               None \<Rightarrow> json_failure L m CodeInvalidJSON
             | Some encoded \<Rightarrow> (encoded, None))))"

section \<open>The state only moves forward\<close>

lemma apply_tree_rule_le: "apply_tree_rule L m r v f st = (x, st') \<Longrightarrow> state_le st st'"
  using state_errs_le [OF add_rule_error_le] by (auto simp: apply_tree_rule_def split: sum.splits)

lemma field_decision_le: "apply_field_decision L m v f st = (x, st') \<Longrightarrow> state_le st st'"
  using fail_inspect_le apply_tree_rule_le
  by (auto simp: apply_field_decision_def split: sum.splits if_splits prod.splits)

lemma enter_tree_le:
  assumes "enter_tree L m v f depth st = (x, st')"
  shows "state_le st st'"
proof -
  let ?f = "if f_kind f = KindInvalid then f\<lparr>f_kind := json_value_kind v\<rparr> else f"
  have n: "state_le st (st\<lparr>st_nodes := st_nodes st + 1\<rparr>)" by (rule state_nodes_le) simp
  obtain y st1 where d: "apply_field_decision L m v ?f (st\<lparr>st_nodes := st_nodes st + 1\<rparr>) = (y, st1)" by (metis surj_pair)
  have "st' \<in> {st, fail_inspect L CodeDepthLimit f depth st,
      fail_inspect L CodeNodeLimit f depth (st\<lparr>st_nodes := st_nodes st + 1\<rparr>), st1}"
    using assms d by (auto simp: enter_tree_def Let_def split: if_splits option.splits)
  then show ?thesis
    using fail_inspect_le state_le_trans [OF n fail_inspect_le] state_le_trans [OF n field_decision_le [OF d]] by auto
qed

lemma walk_string_le:
  "sorts_by m_key (sort_members L) \<Longrightarrow> walk_string L m s f depth st = (r, st') \<Longrightarrow> state_le st st'"
  using inspect_string_ok [of L m depth] by (auto simp: walk_string_def inspector_ok_def split: if_splits prod.splits)

text \<open>The switch of \<open>walk\<close> on a value that was entered.\<close>

fun walk_inside :: "golib \<Rightarrow> masker \<Rightarrow> json_tree \<Rightarrow> field \<Rightarrow> int \<Rightarrow> inspect_state \<Rightarrow> json_tree option \<times> inspect_state" where
  "walk_inside L m JsonNull f depth st = (Some JsonNull, st)"
| "walk_inside L m (JsonBool b) f depth st =
     (Some (if preserve_safe (m_cfg m) then JsonBool b else JsonString (json_scalar_text (JsonBool b))), st)"
| "walk_inside L m (JsonString s) f depth st = walk_string L m s f depth st"
| "walk_inside L m (JsonNumber n) f depth st = (Some (JsonNumber n), st)"
| "walk_inside L m (JsonObject ms) f depth st =
     (case walk_members L m ms f depth st of (ms, st) \<Rightarrow> (Some (JsonObject ms), st))"
| "walk_inside L m (JsonArray vs) f depth st =
     (case walk_elements L m 0 vs f depth st of (vs, st) \<Rightarrow> (Some (JsonArray vs), st))"

lemma walk_tree_enter:
  "walk_tree L m v f depth st = (case enter_tree L m v f depth st of
     (Inl r, st) \<Rightarrow> (r, st) | (Inr f, st) \<Rightarrow> walk_inside L m v f depth st)"
  by (cases v; hypsubst; simp split: prod.split sum.split)

lemma walk_tree_le_if:
  assumes "walk_tree L m v f depth st = (r, st')"
    and "\<And>f' st1 x. enter_tree L m v f depth st = (Inr f', st1) \<Longrightarrow> walk_inside L m v f' depth st1 = (r, st') \<Longrightarrow> state_le st1 st'"
  shows "state_le st st'"
proof -
  obtain x st1 where e: "enter_tree L m v f depth st = (x, st1)" by (metis surj_pair)
  show ?thesis
  proof (cases x)
    case (Inl y)
    then show ?thesis using assms(1) enter_tree_le [OF e] by (simp add: walk_tree_enter e)
  next
    case (Inr f')
    then show ?thesis using assms state_le_trans [OF enter_tree_le [OF e]] by (simp add: walk_tree_enter e)
  qed
qed

definition tree_moves_forward :: "golib \<Rightarrow> masker \<Rightarrow> json_tree \<Rightarrow> bool" where
  "tree_moves_forward L m v \<longleftrightarrow> (\<forall>f depth st r st'. walk_tree L m v f depth st = (r, st') \<longrightarrow> state_le st st')"

lemma walk_members_le:
  assumes "\<forall>kv \<in> set ms. tree_moves_forward L m (snd kv)" and "walk_members L m ms f depth st = (ms', st')"
  shows "state_le st st'"
  using assms
proof (induction ms arbitrary: ms' st st')
  case (Cons kv ms)
  obtain k v where kv: "kv = (k, v)" by (cases kv)
  show ?case
  proof (cases "st_stop st")
    case False
    obtain r st1 where r: "walk_tree L m v (member_field f k v) (depth + 1) st = (r, st1)" by (metis surj_pair)
    obtain rest st2 where rest: "walk_members L m ms f depth st1 = (rest, st2)" by (metis surj_pair)
    have "state_le st st1" using Cons.prems(1) r by (simp add: kv tree_moves_forward_def)
    moreover have "state_le st1 st2" using Cons.IH [OF _ rest] Cons.prems(1) Cons.prems(2) False r rest by (simp add: kv)
    ultimately show ?thesis using Cons.prems(2) False r rest state_le_trans by (auto simp: kv)
  qed (use Cons.prems in \<open>simp add: kv\<close>)
qed simp

lemma walk_elements_le:
  assumes "\<forall>v \<in> set vs. tree_moves_forward L m v" and "walk_elements L m i vs f depth st = (vs', st')"
  shows "state_le st st'"
  using assms
proof (induction vs arbitrary: vs' st st' i)
  case (Cons v vs)
  show ?case
  proof (cases "st_stop st")
    case False
    obtain r st1 where r: "walk_tree L m v (element_field f i v) (depth + 1) st = (r, st1)" by (metis surj_pair)
    obtain rest st2 where rest: "walk_elements L m (Suc i) vs f depth st1 = (rest, st2)" by (metis surj_pair)
    have "state_le st st1" using Cons.prems(1) r by (simp add: tree_moves_forward_def)
    moreover have "state_le st1 st2" using Cons.IH [OF _ rest] Cons.prems(1) Cons.prems(2) False r rest by simp
    ultimately show ?thesis using Cons.prems(2) False r rest state_le_trans by auto
  qed (use Cons.prems in simp)
qed simp

lemma walk_tree_le:
  assumes sorts: "sorts_by m_key (sort_members L)"
  shows "tree_moves_forward L m v"
proof (induction v)
  case (JsonString s)
  show ?case unfolding tree_moves_forward_def
    by (intro allI impI, erule walk_tree_le_if) (use walk_string_le [OF sorts] in simp)
next
  case (JsonObject ms)
  have "\<forall>kv \<in> set ms. tree_moves_forward L m (snd kv)" using JsonObject by auto
  from walk_members_le [OF this] show ?case unfolding tree_moves_forward_def
    by (intro allI impI, erule_tac walk_tree_le_if) (simp split: prod.splits)
next
  case (JsonArray vs)
  then have "\<forall>v \<in> set vs. tree_moves_forward L m v" by blast
  from walk_elements_le [OF this] show ?case unfolding tree_moves_forward_def
    by (intro allI impI, erule_tac walk_tree_le_if) (simp split: prod.splits)
qed (unfold tree_moves_forward_def, (intro allI impI, erule walk_tree_le_if, simp)+)

section \<open>Documents\<close>

lemma mask_json_dom_spec: "mask_json_dom L m data = (result, None) \<Longrightarrow> written result"
  using encode_tree_written
  by (auto simp: mask_json_dom_def json_failure_def split: option.splits if_splits prod.splits)

end
