(* ===== verification/TreeParse.thy ===== *)
theory TreeParse
  imports StreamOutput JsonTree
begin

text \<open>
  What the decoder read, in terms of the scanners of the streaming walker: the token of a
  string, the kind and the end of a value, and the value \<open>skipJSONValue\<close> steps over.
\<close>

section \<open>String tokens\<close>

definition read_string :: "bytes \<Rightarrow> nat \<Rightarrow> nat \<Rightarrow> bytes \<Rightarrow> bool" where
  "read_string data p e s \<longleftrightarrow> p < length data \<and> data ! p = quote_char
     \<and> scan_json_string_token data p = Some e \<and> unmarshal_string (slice data p e) = Some s"

lemma unmarshal_length: "unmarshal_string t = Some s \<Longrightarrow> 2 \<le> length t"
  by (auto simp: unmarshal_string_def split: if_splits)

text \<open>A token that was scanned and decodes: its parts.\<close>

lemma read_string_parts:
  assumes "read_string data p e s"
  obtains b where "e = scan_json_string data p" and "p + 2 \<le> e" and "e \<le> length data" and "data ! (e - 1) = quote_char"
    and "b = slice data (p + 1) (e - 1)" and "slice data p e = quote_char # b @ [quote_char]" and "unquote_body b = Some s"
proof -
  have e: "e = scan_json_string data p" "e \<le> length data" "data ! (e - 1) = quote_char"
    using assms by (auto simp: read_string_def scan_json_string_token_def Let_def split: if_splits)
  have "2 \<le> length (slice data p e)" using assms by (auto simp: read_string_def dest: unmarshal_length)
  then have le: "p + 2 \<le> e" using length_slice [OF e(2), of p] by simp
  have parts: "slice data p e = quote_char # slice data (p + 1) (e - 1) @ [quote_char]"
    using token_parts [OF le e(2) _ e(3)] assms by (simp add: read_string_def)
  then have "unquote_body (slice data (p + 1) (e - 1)) = Some s"
    using assms by (simp add: read_string_def unmarshal_quoted)
  then show thesis using that e le parts by blast
qed

lemma slice_to_end: "a \<le> b \<Longrightarrow> drop a s = slice s a b @ drop b s"
  unfolding slice_def using append_take_drop_id [of "b - a" "drop a s"] by (simp add: drop_take)

lemma token_body_valid:
  assumes "valid_utf8 data" and "data ! p = quote_char" and "p + 2 \<le> e" and "e \<le> length data" and "data ! (e - 1) = quote_char"
  shows "valid_utf8 (slice data (p + 1) (e - 1))"
proof -
  have "data = take p data @ quote_char # drop (p + 1) data"
    using assms id_take_nth_drop [of p data] by simp
  moreover have "valid_utf8 (take p data @ quote_char # drop (p + 1) data) \<longleftrightarrow> valid_utf8 (take p data) \<and> valid_utf8 (drop (p + 1) data)"
    by (rule valid_utf8_at_ascii) simp
  ultimately have "valid_utf8 (drop (p + 1) data)" using assms(1) by metis
  moreover have "drop (p + 1) data = slice data (p + 1) (e - 1) @ quote_char # drop e data"
  proof -
    have "drop (p + 1) data = slice data (p + 1) (e - 1) @ drop (e - 1) data"
      using slice_to_end [of "p + 1" "e - 1" data] assms(3) by simp
    moreover have "drop (e - 1) data = quote_char # drop e data"
      using assms Cons_nth_drop_Suc [of "e - 1" data] by simp
    ultimately show ?thesis by simp
  qed
  ultimately show ?thesis using valid_utf8_at_ascii [of quote_char "slice data (p + 1) (e - 1)" "drop e data"] by simp
qed

text \<open>Text without an escape decodes to itself.\<close>

lemma unquote_no_escape:
  assumes "valid_utf8 b" and "backslash \<notin> set b" and "unquote_body b = Some s"
  shows "s = b"
  using assms
proof (induction b arbitrary: s rule: measure_induct_rule [of length])
  case (less b)
  show ?case
  proof (cases b)
    case (Cons c cs)
    show ?thesis
    proof (cases "byte c < 128")
      case True
      then obtain s' where "unquote_body cs = Some s'" "s = c # s'"
        using less.prems(2,3) by (auto simp: Cons unquote_body.simps(2) split: if_splits)
      then show ?thesis using less.IH [of cs s'] less.prems True by (simp add: Cons)
    next
      case False
      obtain r n where d: "decode_rune (c # cs) = (r, n)" by (metis surj_pair)
      have c: "chunks b = (r, take n (c # cs)) # chunks (drop n (c # cs))" using chunks_decode [of b] by (simp add: Cons d)
      then have "(r, take n (c # cs)) \<in> set (chunks b)" "\<not> bad_chunk (r, take n (c # cs))"
        using less.prems(1) by (simp_all add: valid_utf8_def)
      then have enc: "take n (c # cs) = encode_rune r" using chunk_cases by blast
      have rest: "valid_utf8 (drop n (c # cs))" using less.prems(1) c by (simp add: valid_utf8_def)
      obtain s' where s': "unquote_body (drop n (c # cs)) = Some s'" "s = encode_rune r @ s'"
        using less.prems(3) unquote_multibyte [OF False d] by (auto simp: Cons)
      have "backslash \<notin> set (drop n (c # cs))" using less.prems(2) set_drop_subset [of n "c # cs"] by (auto simp: Cons)
      moreover have "length (drop n (c # cs)) < length b" using decode_rune_progress [of c cs] by (simp add: Cons d)
      ultimately have "s' = drop n (c # cs)" using less.IH [OF _ rest _ s'(1)] by blast
      then show ?thesis using s'(2) enc by (metis append_take_drop_id Cons)
    qed
  qed (use less.prems in simp)
qed

lemma unquote_no_control: "unquote_body b = Some s \<Longrightarrow> c \<in> set b \<Longrightarrow> \<not> c < CHR 0x20"
proof -
  assume "unquote_body b = Some s" and c: "c \<in> set b"
  then have "clean_body b" by (intro unquote_clean) simp
  then show ?thesis using c by (induction b rule: clean_body.induct) (auto split: if_splits list.splits)
qed

text \<open>What may be copied is what would be written.\<close>

lemma copyable_valid: "list_all copyable_chunk (chunks b) \<Longrightarrow> valid_utf8 b"
  unfolding valid_utf8_def
  by (erule list.pred_mono_strong) (auto simp: copyable_chunk_def bad_chunk_def rune_error_def split: if_splits)

lemma copyable_escape:
  assumes "list_all copyable_chunk (chunks b)" and "unquote_body b = Some s"
  shows "escape_json b = b"
  using assms
proof (induction b arbitrary: s rule: measure_induct_rule [of length])
  case (less b)
  show ?case
  proof (cases b)
    case (Cons c cs)
    show ?thesis
    proof (cases "byte c < 128")
      case True
      have copy: "copyable_chunk (byte c, [c])" "list_all copyable_chunk (chunks cs)" using less.prems(1) True by (simp_all add: Cons)
      then have c: "c \<noteq> backslash" using True by (simp add: copyable_chunk_def)
      then obtain s' where "unquote_body cs = Some s'" "c \<noteq> quote_char" "\<not> c < CHR 0x20"
        using less.prems(2) True by (auto simp: Cons unquote_body.simps(2) split: if_splits)
      moreover have "json_plain c" using copy(1) c True calculation by (simp add: copyable_chunk_def json_plain_def)
      ultimately show ?thesis using less.IH [of cs s'] copy(2) True by (simp add: Cons escape_json.simps(2))
    next
      case False
      obtain r n where d: "decode_rune (c # cs) = (r, n)" by (metis surj_pair)
      have ch: "chunks b = (r, take n (c # cs)) # chunks (drop n (c # cs))" using chunks_decode [of b] by (simp add: Cons d)
      have copy: "copyable_chunk (r, take n (c # cs))" "list_all copyable_chunk (chunks (drop n (c # cs)))"
        using less.prems(1) ch by simp_all
      have n: "0 < n" "n \<le> length (c # cs)" using decode_rune_progress [of c cs] decode_rune_size [of "c # cs"] by (simp_all add: d)
      have r: "128 \<le> r" using decode_not_ascii [of c cs] False by (simp add: d)
      then have ok: "\<not> (r = rune_error \<and> n = 1)" "r \<noteq> 8232" "r \<noteq> 8233"
        using copy(1) n by (auto simp: copyable_chunk_def bad_chunk_def)
      obtain s' where s': "unquote_body (drop n (c # cs)) = Some s'"
        using less.prems(2) unquote_multibyte [OF False d] by (auto simp: Cons)
      have "escape_json (drop n (c # cs)) = drop n (c # cs)"
        by (rule less.IH [OF _ copy(2) s']) (use n in \<open>simp add: Cons\<close>)
      then show ?thesis using False ok by (auto simp: Cons escape_json.simps(2) d Let_def)
    qed
  qed simp
qed

lemma read_string_stream:
  assumes utf8: "valid_utf8 data" and read: "read_string data p e s"
  shows "stream_scalar_end data p KindString = Some e"
    and "stream_json_string_text (slice data p e) = Some s"
    and "inspectable_token m (slice data p e) = inspectable m s"
    and "append_stream_json_string out (slice data p e) = Some (out @ append_json_string [] s)"
    and "cache_ok data cache \<Longrightarrow> fst (stream_object_key data p e cache) = Some s"
proof -
  obtain b where e: "e = scan_json_string data p" "p + 2 \<le> e" "e \<le> length data" "data ! (e - 1) = quote_char"
    and b: "b = slice data (p + 1) (e - 1)" and t: "slice data p e = quote_char # b @ [quote_char]" and un: "unquote_body b = Some s"
    using read_string_parts [OF read] .
  have q: "data ! p = quote_char" using read by (simp add: read_string_def)
  have valid: "valid_utf8 b" unfolding b by (rule token_body_valid [OF utf8 q e(2-4)])
  have ctl: "\<not> list_ex (\<lambda>c. c < CHR 0x20) b" using unquote_no_control [OF un] by (simp add: list_ex_iff)
  have inner: "slice (slice data p e) 1 (length (slice data p e) - 1) = b" unfolding t by (rule slice_quoted)
  have un_t: "unmarshal_string (slice data p e) = Some s" unfolding t by (simp only: unmarshal_quoted un)
  have len: "\<not> length (slice data p e) < 2" "slice data p e ! 0 = quote_char"
      "slice data p e ! (length (slice data p e) - 1) = quote_char"
    unfolding t by (simp_all add: nth_append)
  have same: "backslash \<notin> set b \<Longrightarrow> b = s" using unquote_no_escape [OF valid _ un] by simp
  have esc: "backslash \<in> set (slice data p e) \<longleftrightarrow> backslash \<in> set b" unfolding t by simp
  show "stream_scalar_end data p KindString = Some e" using e by (simp add: stream_scalar_end_def Let_def)
  show decoded: "stream_json_string_text (slice data p e) = Some s"
    using len ctl same un_t unfolding stream_json_string_text_def inner by (auto simp: list_ex_iff)
  show "inspectable_token m (slice data p e) = inspectable m s"
    using len(1) same decoded esc unfolding inspectable_token_def inner by (auto simp: inspectable_def)
  show "append_stream_json_string out (slice data p e) = Some (out @ append_json_string [] s)"
  proof (cases "stream_json_string_can_copy (slice data p e)")
    case True
    then have copy: "list_all copyable_chunk (chunks b)"
      using len unfolding stream_json_string_can_copy_def inner by (auto split: if_splits)
    have "escape_json b = b" by (rule copyable_escape [OF copy un])
    moreover have "backslash \<notin> set b" using copyable_bytes [OF copy] by auto
    ultimately show ?thesis using True same unfolding append_stream_json_string_def by (simp add: t append_json_string_def)
  next
    case False
    then show ?thesis by (simp add: append_stream_json_string_def un_t append_json_string_dst [of out])
  qed
  assume cache: "cache_ok data cache"
  have "decode_key (slice data p e) = Some s" unfolding decode_key_def inner using un_t same by auto
  then show "fst (stream_object_key data p e cache) = Some s"
    using stream_object_key_spec [OF cache e(2,3) q e(4)] ctl unfolding b by simp
qed

section \<open>Values\<close>

text \<open>The end of a scalar as the walker computes it: 0 for a container.\<close>

fun scalar_end :: "json_tree \<Rightarrow> nat \<Rightarrow> nat" where
  "scalar_end (JsonObject _) e = 0"
| "scalar_end (JsonArray _) e = 0"
| "scalar_end _ e = e"

lemma parse_value_cases [consumes 1, case_names string object0 object array0 array primitive]:
  assumes "parse_value dup d data p = Some (t, e)"
  obtains s where "t = JsonString s" and "read_string data p e s"
  | b where "d = Suc b" and "p < length data" and "data ! p = CHR ''{''" and "skip_json_space data (p + 1) < length data"
      and "data ! skip_json_space data (p + 1) = CHR ''}''" and "t = JsonObject []" and "e = skip_json_space data (p + 1) + 1"
  | b ms where "d = Suc b" and "p < length data" and "data ! p = CHR ''{''"
      and "\<not> (skip_json_space data (p + 1) < length data \<and> data ! skip_json_space data (p + 1) = CHR ''}'')"
      and "parse_members dup (length data) (parse_value dup b) data (skip_json_space data (p + 1)) [] = Some (ms, e)" and "t = JsonObject ms"
  | b where "d = Suc b" and "p < length data" and "data ! p = CHR ''[''" and "skip_json_space data (p + 1) < length data"
      and "data ! skip_json_space data (p + 1) = CHR '']''" and "t = JsonArray []" and "e = skip_json_space data (p + 1) + 1"
  | b vs where "d = Suc b" and "p < length data" and "data ! p = CHR ''[''"
      and "\<not> (skip_json_space data (p + 1) < length data \<and> data ! skip_json_space data (p + 1) = CHR '']'')"
      and "parse_elements (length data) (parse_value dup b) data (skip_json_space data (p + 1)) = Some (vs, e)" and "t = JsonArray vs"
  | "p < length data" and "data ! p \<notin> {quote_char, CHR ''{'', CHR ''[''}" and "parse_primitive data p = Some (t, e)"
proof -
  have len: "p < length data" using assms by (auto simp: parse_value.simps [of dup d] split: if_splits)
  consider (q) "data ! p = quote_char" | (o) "data ! p = CHR ''{''" | (a) "data ! p = CHR ''[''"
    | (x) "data ! p \<notin> {quote_char, CHR ''{'', CHR ''[''}" by blast
  then show thesis
  proof cases
    case q
    then show ?thesis using assms len that(1)
      by (auto simp: parse_value.simps [of dup d] read_string_def split: option.splits)
  next
    case o
    then obtain b where b: "d = Suc b" using assms len by (cases d) (auto simp: parse_value.simps [of dup 0])
    show ?thesis using assms len o that(2,3) [OF b len o] b
      by (auto simp: parse_value.simps [of dup "Suc b"] Let_def split: if_splits)
  next
    case a
    then obtain b where b: "d = Suc b" using assms len by (cases d) (auto simp: parse_value.simps [of dup 0])
    show ?thesis using assms len a that(4,5) [OF b len a] b
      by (auto simp: parse_value.simps [of dup "Suc b"] Let_def split: if_splits)
  next
    case x
    then show ?thesis using assms len that(6) by (simp add: parse_value.simps [of dup d])
  qed
qed

lemma parse_primitive_token:
  assumes "parse_primitive data p = Some (t, e)"
  shows "e = scan_json_primitive data p" and "p < e" and "e \<le> length data" and "valid_skipped_primitive (slice data p e)"
    and "t = (if slice data p e = ''null'' then JsonNull else if slice data p e = ''true'' then JsonBool True
      else if slice data p e = ''false'' then JsonBool False else JsonNumber (slice data p e))"
  using assms scan_json_primitive_le [of data p] by (auto simp: parse_primitive_def Let_def split: if_splits)

lemma parse_primitive_kind:
  assumes "parse_primitive data p = Some (t, e)"
  shows "stream_json_kind (data ! p) = json_value_kind t" and "valid_stream_primitive (slice data p e) (json_value_kind t)"
    and "slice data p e = (if t = JsonNull then ''null'' else json_scalar_text t)" and "json_value_kind t \<in> {KindNil, KindBool, KindNumber}"
proof -
  note tok = parse_primitive_token [OF assms]
  let ?t = "slice data p e"
  have head: "data ! p = ?t ! 0" using nth_slice [of e data 0 p] tok(2,3) by simp
  have "?t \<in> {''true'', ''false'', ''null''} \<or> json_number_grammar ?t" using tok(4) by (simp only: valid_skipped_primitive_iff)
  then have all: "stream_json_kind (data ! p) = json_value_kind t \<and> valid_stream_primitive ?t (json_value_kind t)
      \<and> ?t = (if t = JsonNull then ''null'' else json_scalar_text t) \<and> json_value_kind t \<in> {KindNil, KindBool, KindNumber}"
  proof
    assume "json_number_grammar ?t"
    moreover obtain c cs where c: "?t = c # cs" "c = CHR ''-'' \<or> json_digit c" using calculation by (rule number_grammar_head)
    moreover have "?t \<notin> {''true'', ''false'', ''null''}" using c by (auto simp: json_digit_def)
    then have "t = JsonNumber ?t" using tok(5) by simp
    ultimately show ?thesis unfolding head
      by (simp add: number_kind valid_stream_primitive_def valid_json_number_iff)
  next
    assume "?t \<in> {''true'', ''false'', ''null''}"
    then show ?thesis unfolding head using tok(5)
      by (auto simp: stream_json_kind_def valid_stream_primitive_def)
  qed
  then show "stream_json_kind (data ! p) = json_value_kind t" and "valid_stream_primitive (slice data p e) (json_value_kind t)"
    and "slice data p e = (if t = JsonNull then ''null'' else json_scalar_text t)" and "json_value_kind t \<in> {KindNil, KindBool, KindNumber}"
    by blast+
qed

lemma parsed_scalar_end:
  assumes "parse_value dup d data p = Some (t, e)"
  shows "p < length data" and "stream_json_kind (data ! p) = json_value_kind t"
    and "stream_scalar_end data p (json_value_kind t) = Some (scalar_end t e)"
  using assms
proof (induction rule: parse_value_cases)
  case (string s)
  { case 1 show ?case using string(2) by (simp add: read_string_def) }
  { case 2 show ?case using string by (simp add: read_string_def stream_json_kind_def) }
  { case 3
    obtain b where "e = scan_json_string data p" "p + 2 \<le> e" "e \<le> length data" using string(2) by (rule read_string_parts)
    then show ?case using string(1) by (simp add: stream_scalar_end_def Let_def) }
next
  case primitive
  note k = parse_primitive_kind [OF primitive(3)] and tok = parse_primitive_token [OF primitive(3)]
  { case 1 show ?case using primitive by simp }
  { case 2 show ?case by (rule k(1)) }
  { case 3
    have "scalar_end t e = e" using k(4) by (cases t) auto
    then show ?case using k tok by (auto simp: stream_scalar_end_def Let_def) }
qed (simp_all add: stream_json_kind_def stream_scalar_end_def)

definition reads_value :: "bytes \<Rightarrow> nat \<Rightarrow> nat \<Rightarrow> bool" where
  "reads_value data p e \<longleftrightarrow> p < e \<and> e \<le> length data \<and> json_value (slice data p e)"

definition parser_ok :: "tree_parser \<Rightarrow> bytes \<Rightarrow> bool" where
  "parser_ok child data \<longleftrightarrow> (\<forall>p t e. child data p = Some (t, e) \<longrightarrow> reads_value data p e)"

text \<open>One round over the members and over the elements.\<close>

lemma parse_members_round:
  assumes "parse_members dup (Suc n) child data p acc = Some (ms, e)"
  obtains keyEnd key colon v q where "read_string data p keyEnd key" and "colon = skip_json_space data keyEnd"
    and "colon < length data" and "data ! colon = CHR '':''" and "child data (skip_json_space data (colon + 1)) = Some (v, q)"
    and "skip_json_space data q < length data" and "dup \<or> key \<notin> fst ` set acc"
    and "data ! skip_json_space data q = CHR '','' \<and>
        parse_members dup n child data (skip_json_space data (skip_json_space data q + 1)) (put_member key v acc) = Some (ms, e)
      \<or> data ! skip_json_space data q = CHR ''}'' \<and> data ! skip_json_space data q \<noteq> CHR '',''
        \<and> ms = put_member key v acc \<and> e = skip_json_space data q + 1"
proof -
  obtain keyEnd key v q where r: "scan_json_string_token data p = Some keyEnd" "unmarshal_string (slice data p keyEnd) = Some key"
      "skip_json_space data keyEnd < length data" "data ! skip_json_space data keyEnd = CHR '':''"
      "child data (skip_json_space data (skip_json_space data keyEnd + 1)) = Some (v, q)"
      "skip_json_space data q < length data" "dup \<or> key \<notin> fst ` set acc"
      "data ! skip_json_space data q = CHR '','' \<and>
        parse_members dup n child data (skip_json_space data (skip_json_space data q + 1)) (put_member key v acc) = Some (ms, e)
      \<or> data ! skip_json_space data q = CHR ''}'' \<and> data ! skip_json_space data q \<noteq> CHR '',''
        \<and> ms = put_member key v acc \<and> e = skip_json_space data q + 1"
    using assms by (auto simp: Let_def split: option.splits if_splits)
  moreover have "read_string data p keyEnd key"
    using r(1,2) by (auto simp: read_string_def scan_json_string_token_def split: if_splits)
  ultimately show thesis using that by blast
qed

lemma parse_elements_round:
  assumes "parse_elements (Suc n) child data p = Some (vs, e)"
  obtains v q where "child data p = Some (v, q)" and "skip_json_space data q < length data"
    and "data ! skip_json_space data q = CHR '','' \<and> (\<exists>rest. vs = v # rest
        \<and> parse_elements n child data (skip_json_space data (skip_json_space data q + 1)) = Some (rest, e))
      \<or> data ! skip_json_space data q = CHR '']'' \<and> data ! skip_json_space data q \<noteq> CHR '',''
        \<and> vs = [v] \<and> e = skip_json_space data q + 1"
  using assms that by (auto simp: Let_def split: option.splits if_splits)

lemma parse_members_read:
  assumes "parser_ok child data" and "parse_members dup n child data p acc = Some (ms, e)"
  shows "object_read data p e"
  using assms(2)
proof (induction n arbitrary: p acc)
  case (Suc n)
  obtain keyEnd key colon v q where r: "read_string data p keyEnd key" "colon = skip_json_space data keyEnd"
    "colon < length data" "data ! colon = CHR '':''" "child data (skip_json_space data (colon + 1)) = Some (v, q)"
    and p2: "skip_json_space data q < length data"
    and more: "data ! skip_json_space data q = CHR '','' \<and>
        parse_members dup n child data (skip_json_space data (skip_json_space data q + 1)) (put_member key v acc) = Some (ms, e)
      \<or> data ! skip_json_space data q = CHR ''}'' \<and> data ! skip_json_space data q \<noteq> CHR '',''
        \<and> ms = put_member key v acc \<and> e = skip_json_space data q + 1"
    using Suc.prems by (rule parse_members_round)
  obtain b where tok: "keyEnd = scan_json_string data p" "p + 2 \<le> keyEnd" "keyEnd \<le> length data"
    "slice data p keyEnd = quote_char # b @ [quote_char]" "unquote_body b = Some key"
    using r(1) by (rule read_string_parts)
  have token: "string_token (slice data p keyEnd)" using r(1) by (simp add: string_token_def read_string_def)
  have val: "reads_value data (skip_json_space data (colon + 1)) q" using assms(1) r(5) by (simp add: parser_ok_def)
  have le: "keyEnd \<le> colon" unfolding r(2) by (rule skip_json_space_ge)
  obtain x y z where parts: "json_ws x" "json_ws y" "json_ws z"
    "slice data p (skip_json_space data q) = slice data p keyEnd @ x @ '':'' @ y @ slice data (skip_json_space data (colon + 1)) q @ z"
    "p < skip_json_space data q"
    using member_text [of p keyEnd colon data "skip_json_space data (colon + 1)" q] tok(2) le r(2-4) val p2
    by (auto simp: reads_value_def)
  note pieces = parts(1-3) token _ parts(4,5) p2
  have v: "json_value (slice data (skip_json_space data (colon + 1)) q)" using val by (simp add: reads_value_def)
  from more show ?case
  proof
    assume c: "data ! skip_json_space data q = CHR '','' \<and>
        parse_members dup n child data (skip_json_space data (skip_json_space data q + 1)) (put_member key v acc) = Some (ms, e)"
    show ?thesis by (rule object_read_more [OF pieces]) (use v c Suc.IH in auto)
  next
    assume "data ! skip_json_space data q = CHR ''}'' \<and> data ! skip_json_space data q \<noteq> CHR '',''
        \<and> ms = put_member key v acc \<and> e = skip_json_space data q + 1"
    then show ?thesis using object_read_last [OF pieces] v by simp
  qed
qed simp

lemma parse_elements_read:
  assumes "parser_ok child data" and "parse_elements n child data p = Some (vs, e)"
  shows "array_read data p e"
  using assms(2)
proof (induction n arbitrary: p vs)
  case (Suc n)
  obtain v q where r: "child data p = Some (v, q)" and p2: "skip_json_space data q < length data"
    and more: "data ! skip_json_space data q = CHR '','' \<and> (\<exists>rest. vs = v # rest
        \<and> parse_elements n child data (skip_json_space data (skip_json_space data q + 1)) = Some (rest, e))
      \<or> data ! skip_json_space data q = CHR '']'' \<and> data ! skip_json_space data q \<noteq> CHR '',''
        \<and> vs = [v] \<and> e = skip_json_space data q + 1"
    using Suc.prems by (rule parse_elements_round)
  have val: "p < q" "q \<le> length data" "json_value (slice data p q)" using assms(1) r by (simp_all add: parser_ok_def reads_value_def)
  have le: "q \<le> skip_json_space data q" by (rule skip_json_space_ge)
  have ws: "json_ws (slice data q (skip_json_space data q))" by (rule json_ws_skipped [OF val(2)])
  have parts: "slice data p (skip_json_space data q) = slice data p q @ slice data q (skip_json_space data q)"
    using val(1) le by (simp add: slice_append)
  have lt: "p < skip_json_space data q" using val(1) le by simp
  note pieces = ws val(3) parts lt p2
  from more show ?case using array_read_more [OF pieces] array_read_last [OF pieces] Suc.IH by blast
qed simp

lemma parse_value_read: "parse_value dup d data p = Some (t, e) \<Longrightarrow> reads_value data p e"
proof (induction d arbitrary: p t e rule: nat_less_induct)
  case (1 d)
  have child: "parser_ok (parse_value dup b) data" if "d = Suc b" for b
    using 1(1) that unfolding parser_ok_def by blast
  show ?case using 1(2)
  proof (cases rule: parse_value_cases)
    case (string s)
    obtain b where "p + 2 \<le> e" "e \<le> length data" using string(2) by (rule read_string_parts)
    then show ?thesis using string(2) json_string [of "slice data p e"]
      by (simp add: reads_value_def string_token_def read_string_def)
  next
    case (object0 b)
    let ?q = "skip_json_space data (p + 1)"
    have le: "p + 1 \<le> ?q" by (rule skip_json_space_ge)
    obtain w where "json_ws w" "slice data p e = data ! p # w @ slice data ?q e"
      using container_text [OF object0(2) refl, of e] object0(4,7) by auto
    then show ?thesis using json_object0 [of w] slice_one [OF object0(4)] object0 le by (simp add: reads_value_def)
  next
    case (object b ms)
    let ?q = "skip_json_space data (p + 1)"
    have le: "p + 1 \<le> ?q" by (rule skip_json_space_ge)
    obtain x where x: "?q < e" "e \<le> length data" "json_members x" "slice data ?q e = x @ ''}''"
      using parse_members_read [OF child [OF object(1)] object(5)] by (auto simp: object_read_def)
    obtain w where "json_ws w" "slice data p e = data ! p # w @ slice data ?q e"
      using container_text [OF object(2) refl x(1,2)] by auto
    then show ?thesis using json_object [OF members_ws [OF x(3)]] object(3) x le by (simp add: reads_value_def)
  next
    case (array0 b)
    let ?q = "skip_json_space data (p + 1)"
    have le: "p + 1 \<le> ?q" by (rule skip_json_space_ge)
    obtain w where "json_ws w" "slice data p e = data ! p # w @ slice data ?q e"
      using container_text [OF array0(2) refl, of e] array0(4,7) by auto
    then show ?thesis using json_array0 [of w] slice_one [OF array0(4)] array0 le by (simp add: reads_value_def)
  next
    case (array b vs)
    let ?q = "skip_json_space data (p + 1)"
    have le: "p + 1 \<le> ?q" by (rule skip_json_space_ge)
    obtain x where x: "?q < e" "e \<le> length data" "json_elements x" "slice data ?q e = x @ '']''"
      using parse_elements_read [OF child [OF array(1)] array(5)] by (auto simp: array_read_def)
    obtain w where "json_ws w" "slice data p e = data ! p # w @ slice data ?q e"
      using container_text [OF array(2) refl x(1,2)] by auto
    then show ?thesis using json_array [OF elements_ws [OF x(3)]] array(3) x le by (simp add: reads_value_def)
  next
    case primitive
    note tok = parse_primitive_token [OF primitive(3)]
    have "json_value (slice data p e)" using tok(4) by (auto simp: valid_skipped_primitive_iff intro: json_literal json_number)
    then show ?thesis using tok by (simp add: reads_value_def)
  qed
qed

section \<open>Stepping over a value\<close>

lemma delimiter_behind:
  assumes "e \<le> length data" and "skip_json_space data e = length data \<or> primitive_end (data ! skip_json_space data e)"
  shows "value_delimiter (drop e data)"
proof (cases "e = length data")
  case False
  then have head: "drop e data = data ! e # drop (Suc e) data" using assms(1) by (simp add: Cons_nth_drop_Suc)
  have "primitive_end (data ! e)"
  proof (cases "skip_json_space data e = e")
    case True
    then show ?thesis using assms(2) False by simp
  next
    case no: False
    then have "e < skip_json_space data e" using skip_json_space_ge [of e data] by simp
    then have "json_space (data ! e)"
      using advance_all [of e e "\<lambda>i. json_space (data ! i)" "length data"] by (simp add: skip_json_space_def)
    then show ?thesis by (simp add: primitive_end_def)
  qed
  then show ?thesis by (simp add: head value_delimiter_def)
qed (simp add: value_delimiter_def)

lemma skip_value_read:
  assumes "reads_value data p e" and "value_delimiter (drop e data)" and "skip_json_space data p = p"
  shows "skip_json_value data p = Some e"
proof -
  have e: "p < e" "e \<le> length data" "json_value (slice data p e)" using assms(1) by (simp_all add: reads_value_def)
  have data: "data = take p data @ [] @ slice data p e @ drop e data"
    using slice_to_end [of p e data] e(1) append_take_drop_id [of p data] by simp
  have "skip_loop data (length (take p data), [], True) = skip_done data (length (take p data @ [] @ slice data p e)) []"
    using skips_grammar(1) [OF e(3)] data assms(2) unfolding skips_value_def by (metis json_ws_Nil)
  moreover have "length (take p data) = p" "length (take p data @ [] @ slice data p e) = e" using e by (simp_all add: length_slice)
  ultimately have "skip_loop data (p, [], True) = Some e" by (simp add: skip_done_def skip_resume_def)
  then show ?thesis using assms(3) e by (simp add: skip_json_value_def)
qed

section \<open>Documents without repeated keys\<close>

lemma parse_members_unique:
  assumes "\<And>p x. child data p = Some x \<Longrightarrow> child' data p = Some x"
  shows "parse_members False n child data p acc = Some (ms, e) \<Longrightarrow> parse_members True n child' data p acc = Some (ms, e)"
proof (induction n arbitrary: p acc)
  case (Suc n)
  then show ?case using assms by (auto simp: Let_def split: option.splits if_splits)
qed simp

lemma parse_elements_unique:
  assumes "\<And>p x. child data p = Some x \<Longrightarrow> child' data p = Some x"
  shows "parse_elements n child data p = Some (vs, e) \<Longrightarrow> parse_elements n child' data p = Some (vs, e)"
proof (induction n arbitrary: p vs)
  case (Suc n)
  show ?case using Suc.prems
    by (rule parse_elements_round) (use assms Suc.IH in \<open>auto simp: Let_def\<close>)
qed simp

lemma parse_unique_same: "parse_value False d data p = Some (t, e) \<Longrightarrow> parse_value True d data p = Some (t, e)"
proof (induction d arbitrary: p t e rule: nat_less_induct)
  case (1 d)
  have child: "parse_value False b data p = Some x \<Longrightarrow> parse_value True b data p = Some x" if "d = Suc b" for b p x
    using 1(1) that by (cases x) simp
  show ?case using 1(2)
  proof (cases rule: parse_value_cases)
    case (string s)
    then show ?thesis by (simp add: parse_value.simps [of True d] read_string_def)
  next
    case (object b ms)
    then show ?thesis using parse_members_unique [of "parse_value False b" data "parse_value True b", OF child [OF object(1)]]
      by (auto simp: parse_value.simps [of True "Suc b"] Let_def)
  next
    case (array b vs)
    then show ?thesis using parse_elements_unique [of "parse_value False b" data "parse_value True b", OF child [OF array(1)]]
      by (auto simp: parse_value.simps [of True "Suc b"] Let_def)
  qed (simp_all add: parse_value.simps [of True "Suc _"] parse_value.simps [of True d] Let_def)
qed

end
