(* ===== verification/WalkParity.thy ===== *)
theory WalkParity
  imports JsonWalk TreeParse
begin

text \<open>
  The streaming walker does what the tree walker does: on a document in which no object
  repeats a key, both succeed or both fail, and when they succeed they write the same
  bytes.  Until its first failure the one walk keeps the state of the other; from then on
  only the failure matters, and it is never lost.
\<close>

section \<open>Policies that do not look at the path\<close>

lemma key_policy_ignores_path: "key_policy_decide u p (f\<lparr>f_path := path\<rparr>) = key_policy_decide u p f"
  by (simp add: key_policy_decide_def cong: option.case_cong)

lemma policy_ignores_path:
  shows "\<not> policy_needs_paths p \<Longrightarrow> decide u p (f\<lparr>f_path := path\<rparr>) = decide u p f"
    and "\<not> list_ex policy_needs_paths ps \<Longrightarrow> decide_chain u ps (f\<lparr>f_path := path\<rparr>) = decide_chain u ps f"
proof (induction u p f and u ps f rule: decide_decide_chain.induct)
  case (9 u p ps f)
  then show ?case by (auto split: sum.split)
qed (auto simp: key_policy_ignores_path)

definition path_free :: "golib \<Rightarrow> masker \<Rightarrow> bool" where
  "path_free L m \<longleftrightarrow> need_paths (m_cfg m) \<or>
     (\<forall>f path. call_policy (tables L) (m_policy m) (f\<lparr>f_path := path\<rparr>) = call_policy (tables L) (m_policy m) f)"

lemma new_masker_path_free: "new_masker p opts = Inr m \<Longrightarrow> path_free L m"
  using policy_ignores_path(1) [of p]
  by (auto simp: new_masker_def path_free_def call_policy_def split: if_splits sum.splits)

section \<open>The same field\<close>

text \<open>The field of the tree walker has its path, that of the streaming walker may not.\<close>

definition same_field :: "stream_walker \<Rightarrow> field \<Rightarrow> field \<Rightarrow> bool" where
  "same_field w f g \<longleftrightarrow> (f_path f = [] \<or> f_path f = current_path w)
     \<and> g\<lparr>f_kind := KindInvalid\<rparr> = f\<lparr>f_path := current_path w, f_kind := KindInvalid\<rparr>"

definition streamed_field :: "masker \<Rightarrow> stream_walker \<Rightarrow> field \<Rightarrow> value_kind \<Rightarrow> field" where
  "streamed_field m w f kind = (if need_paths (m_cfg m) then f\<lparr>f_path := current_path w\<rparr> else f)\<lparr>f_kind := kind\<rparr>"

lemma same_field_parts:
  assumes "same_field w f g"
  shows "g\<lparr>f_kind := kind\<rparr> = f\<lparr>f_path := current_path w, f_kind := kind\<rparr>"
  using assms by (cases f; cases g) (simp add: same_field_def)

lemma streamed_field_located:
  assumes "same_field w f g"
  shows "locate w (streamed_field m w f kind) = g\<lparr>f_kind := kind\<rparr>"
    and "f_kind (streamed_field m w f kind) = kind"
  using assms unfolding same_field_parts [OF assms]
  by (cases f; auto simp: same_field_def streamed_field_def locate_def)+

lemma streamed_field_policy:
  assumes "same_field w f g" and "path_free L m"
  shows "call_policy (tables L) (m_policy m) (streamed_field m w f kind) = call_policy (tables L) (m_policy m) (g\<lparr>f_kind := kind\<rparr>)"
proof (cases "need_paths (m_cfg m)")
  case True
  then show ?thesis unfolding same_field_parts [OF assms(1)] streamed_field_def by simp
next
  case False
  have "f\<lparr>f_path := current_path w, f_kind := kind\<rparr> = f\<lparr>f_kind := kind\<rparr>\<lparr>f_path := current_path w\<rparr>" by simp
  then show ?thesis using assms(2) False unfolding same_field_parts [OF assms(1)] streamed_field_def path_free_def by metis
qed

lemma current_path_push: "current_path (push_part part w) = add_part (current_path w) part"
  by (simp add: current_path_def push_part_def)

lemma same_field_path: "same_field w f g \<Longrightarrow> f_path g = current_path w"
  by (cases f; cases g) (simp add: same_field_def)

lemma member_same_field:
  "f_path g = current_path w \<Longrightarrow> same_field (push_part (KeyPart key) w) (stream_field key) (member_field g key v)"
  by (simp add: same_field_def stream_field_def member_field_def current_path_push add_part_def)

lemma element_same_field:
  "f_path g = current_path w \<Longrightarrow> same_field (push_part (IndexPart i) w) (stream_field []) (element_field g i v)"
  by (simp add: same_field_def stream_field_def element_field_def current_path_push add_part_def)

section \<open>Walking in step\<close>

definition fresh :: "inspect_state \<Rightarrow> bool" where
  "fresh st \<longleftrightarrow> st_errs st = [] \<and> \<not> st_stop st"

lemma still_fresh: "fresh st \<Longrightarrow> state_le st st' \<Longrightarrow> st_errs st' = [] \<Longrightarrow> fresh st'"
  by (auto simp: fresh_def state_le_def has_limit_def)

lemma failed_stays: "st_errs st \<noteq> [] \<Longrightarrow> state_le st st' \<Longrightarrow> st_errs st' \<noteq> []"
  by (simp add: state_le_def)

text \<open>
  The result of a step of the tree walker beside that of the streaming walker, for a value
  that ends at \<open>e\<close>.
\<close>

definition same_walk ::
    "nat \<Rightarrow> stream_walker \<Rightarrow> bytes \<Rightarrow> json_tree option \<times> inspect_state \<Rightarrow> walk_result \<Rightarrow> bool" where
  "same_walk e w out x y \<longleftrightarrow> (case (x, y) of ((res, st'), (r, w', out')) \<Rightarrow>
     if st_errs st' = [] then w_ins w' = st' \<and> (case res of
         None \<Rightarrow> r = Some (e, True) \<and> out' = out @ (if w_path w = [] then ''null'' else [])
       | Some v \<Rightarrow> r = Some (e, False) \<and> (\<exists>t. encode_tree v = Some t \<and> out' = out @ t))
     else st_errs (w_ins w') \<noteq> [])"

definition parity :: "golib \<Rightarrow> masker \<Rightarrow> bytes \<Rightarrow> tree_parser \<Rightarrow> bool" where
  "parity L m data parser \<longleftrightarrow> (\<forall>p t e w f g depth out.
     parser data (skip_json_space data p) = Some (t, e) \<longrightarrow> value_delimiter (drop e data) \<longrightarrow> cache_ok data (w_keys w)
     \<longrightarrow> fresh (w_ins w) \<longrightarrow> same_field w f g \<longrightarrow> f_kind g \<in> {KindInvalid, json_value_kind t}
     \<longrightarrow> same_walk e w out (walk_tree L m t g depth (w_ins w)) (append_value L m depth data p f w out))"

subsection \<open>Arrays\<close>

lemma array_loop_later:
  assumes "value_ok child" and "cache_ok data (w_keys w)"
    and c: "child data p (stream_field []) (push_part (IndexPart i) w) (if 0 < i then out @ '','' else out) = (r1, w2, out2)"
    and "array_loop (Suc k) child data p i w out = (r, w', out')"
  shows "walker_le (pop_part w2) w'"
proof (cases r1)
  case None
  then show ?thesis using assms(4) c by (simp add: Let_def)
next
  case (Some x)
  obtain q omitted where x: "x = (q, omitted)" by (cases x)
  have "value_step_ok data p (push_part (IndexPart i) w) (if 0 < i then out @ '','' else out) (r1, w2, out2)"
    using assms(1,2) c unfolding value_ok_def by (metis push_keys)
  then have cache: "cache_ok data (w_keys (pop_part w2))" by (simp add: value_step_ok_def Some x)
  define q2 where "q2 = skip_json_space data (skip_json_space data q + 1)"
  define out3 where "out3 = (if omitted then out2 @ ''null'' else out2)"
  have "walker_le (pop_part w2) w3" if "array_loop k child data q2 (i + 1) (pop_part w2) out3 = (r3, w3, out4)" for r3 w3 out4
    using array_loop_ok [OF assms(1) cache, of q2 "i + 1" out3 k] that by (simp add: q2_def array_result_ok_def)
  then show ?thesis using assms(4) c unfolding array_loop.simps Let_def c Some x option.case prod.case q2_def [symmetric] out3_def [symmetric]
    by (auto split: if_splits)
qed

lemma join_cons: "ts \<noteq> [] \<Longrightarrow> join sep (t # ts) = t @ sep @ join sep ts"
  by (cases ts) simp_all

definition same_elements ::
    "nat \<Rightarrow> bytes \<Rightarrow> json_tree list \<times> inspect_state \<Rightarrow> walk_result \<Rightarrow> bool" where
  "same_elements e out x y \<longleftrightarrow> (case (x, y) of ((vs, st'), (r, w', out')) \<Rightarrow>
     if st_errs st' = [] then w_ins w' = st' \<and> r = Some (e, False)
       \<and> (\<exists>ts. map encode_tree vs = map Some ts \<and> ts \<noteq> [] \<and> out' = out @ join '','' ts @ '']'')
     else st_errs (w_ins w') \<noteq> [])"

lemma elements_parity:
  assumes child: "parity L m data parser" and reads: "parser_ok parser data" and sorts: "sorts_by m_key (sort_members L)"
  shows "parse_elements n parser data p = Some (vs, e) \<Longrightarrow> p = skip_json_space data p \<Longrightarrow> cache_ok data (w_keys w)
    \<Longrightarrow> fresh (w_ins w) \<Longrightarrow> f_path g = current_path w \<Longrightarrow> length data - p < k
    \<Longrightarrow> same_elements e (if 0 < i then out @ '','' else out) (walk_elements L m i vs g depth (w_ins w))
      (array_loop k (append_value L m (depth + 1)) data p i w out)"
proof (induction n arbitrary: p vs w k i out)
  case (Suc n)
  obtain v q where v: "parser data p = Some (v, q)" and q: "skip_json_space data q < length data"
    and more: "data ! skip_json_space data q = CHR '','' \<and> (\<exists>rest. vs = v # rest
        \<and> parse_elements n parser data (skip_json_space data (skip_json_space data q + 1)) = Some (rest, e))
      \<or> data ! skip_json_space data q = CHR '']'' \<and> data ! skip_json_space data q \<noteq> CHR '',''
        \<and> vs = [v] \<and> e = skip_json_space data q + 1"
    using Suc.prems(1) by (rule parse_elements_round)
  obtain vs' where vs: "vs = v # vs'" using more by blast
  obtain j where k: "k = Suc j" using Suc.prems(6) by (cases k) auto
  have val: "p < q" "q \<le> length data" using reads v by (simp_all add: parser_ok_def reads_value_def)
  define out1 where "out1 = (if 0 < i then out @ '','' else out)"
  define w1 where "w1 = push_part (IndexPart i) w"
  have ins1: "w_ins w1 = w_ins w" "w_path w1 \<noteq> []" by (simp_all add: w1_def push_part_def)
  obtain res st1 where dom: "walk_tree L m v (element_field g i v) (depth + 1) (w_ins w) = (res, st1)" by (metis surj_pair)
  obtain r w2 out2 where str: "append_value L m (depth + 1) data p (stream_field []) w1 out1 = (r, w2, out2)" by (metis surj_pair)
  have "value_delimiter (drop q data)"
    using more by (intro delimiter_behind [OF val(2)]) (auto simp: primitive_end_def)
  moreover have "parser data (skip_json_space data p) = Some (v, q)" using v Suc.prems(2) by simp
  ultimately have same: "same_walk q w1 out1 (res, st1) (r, w2, out2)"
    using child [unfolded parity_def, rule_format, of p v q w1 "stream_field []" "element_field g i v" out1 "depth + 1"]
      Suc.prems(3,4) element_same_field [OF Suc.prems(5), of i v] dom str
    by (simp add: ins1 w1_def [symmetric]) (simp add: w1_def element_field_def)
  note ok = append_value_ok [OF sorts, of m "depth + 1"]
  have step: "value_step_ok data p w1 out1 (r, w2, out2)"
    using ok Suc.prems(3) str unfolding value_ok_def w1_def by (metis push_keys)
  have "walker_le (push_part (IndexPart i) w) w2" using step by (simp add: value_step_ok_def w1_def)
  then have keeps: "walker_le w (pop_part w2)" by (rule pushed_le)
  obtain rest st' where walked: "walk_elements L m (Suc i) vs' g depth st1 = (rest, st')" by (metis surj_pair)
  have dom_all: "walk_elements L m i vs g depth (w_ins w) = ((case res of None \<Rightarrow> JsonNull | Some v \<Rightarrow> v) # rest, st')"
    using Suc.prems(4) by (simp add: vs fresh_def dom walked)
  obtain r' w' out' where loop: "array_loop k (append_value L m (depth + 1)) data p i w out = (r', w', out')" by (metis surj_pair)
  show ?case
  proof (cases "st_errs st1 = []")
    case False
    then have "st_errs (w_ins w2) \<noteq> []" using same by (simp add: same_walk_def)
    then have "st_errs (w_ins (pop_part w2)) \<noteq> []" by (simp add: pop_part_def)
    moreover have "walker_le (pop_part w2) w'"
      using array_loop_later [OF ok Suc.prems(3) _ loop [unfolded k]] str by (simp add: w1_def out1_def)
    ultimately have "st_errs (w_ins w') \<noteq> []" using failed_stays by (simp add: walker_le_def)
    moreover have "\<forall>v \<in> set vs'. tree_moves_forward L m v" using walk_tree_le [OF sorts] by blast
    then have "st_errs st' \<noteq> []" using failed_stays [OF False walk_elements_le [OF _ walked]] by blast
    ultimately show ?thesis by (simp add: same_elements_def dom_all loop)
  next
    case True
    then have same: "w_ins w2 = st1" "r = Some (q, res = None)"
        "\<exists>t. encode_tree (case res of None \<Rightarrow> JsonNull | Some v \<Rightarrow> v) = Some t \<and> (if res = None then out2 @ ''null'' else out2) = out1 @ t"
      using same ins1(2) by (auto simp: same_walk_def split: option.splits)
    obtain t where t: "encode_tree (case res of None \<Rightarrow> JsonNull | Some v \<Rightarrow> v) = Some t"
        "(if res = None then out2 @ ''null'' else out2) = out1 @ t"
      using same(3) by blast
    have cache: "cache_ok data (w_keys (pop_part w2))" using step by (simp add: value_step_ok_def same(2))
    have ins: "w_ins (pop_part w2) = st1" by (simp add: pop_part_def same(1))
    have fresh: "fresh st1" using still_fresh [OF Suc.prems(4) _ True] keeps by (simp add: walker_le_def ins)
    have path: "f_path g = current_path (pop_part w2)" using Suc.prems(5) keeps by (simp add: current_path_def walker_le_def)
    have unfolded: "array_loop k (append_value L m (depth + 1)) data p i w out =
        (if data ! skip_json_space data q = CHR '','' then
           array_loop j (append_value L m (depth + 1)) data (skip_json_space data (skip_json_space data q + 1)) (i + 1) (pop_part w2) (out1 @ t)
         else if data ! skip_json_space data q = CHR '']'' then (Some (skip_json_space data q + 1, False), pop_part w2, (out1 @ t) @ '']'')
         else (None, pop_part w2, out1 @ t))"
      using q str unfolding k array_loop.simps Let_def out1_def [symmetric] w1_def [symmetric] str same(2) option.case prod.case t(2)
      by simp
    from more show ?thesis
    proof
      assume "data ! skip_json_space data q = CHR '','' \<and> (\<exists>rest. vs = v # rest
        \<and> parse_elements n parser data (skip_json_space data (skip_json_space data q + 1)) = Some (rest, e))"
      then have c: "data ! skip_json_space data q = CHR '',''"
        "parse_elements n parser data (skip_json_space data (skip_json_space data q + 1)) = Some (vs', e)" by (simp_all add: vs)
      have "p < skip_json_space data (skip_json_space data q + 1)"
        using val skip_json_space_ge [of q data] skip_json_space_ge [of "skip_json_space data q + 1" data] by simp
      then have "length data - skip_json_space data (skip_json_space data q + 1) < j" using Suc.prems(6) val by (simp add: k)
      from Suc.IH [OF c(2) _ cache fresh [folded ins] path this, of "i + 1" "out1 @ t"]
      show ?thesis unfolding dom_all unfolded out1_def [symmetric]
        by (simp add: c(1) ins walked t(1) same_elements_def split: prod.splits if_splits) (auto simp: Cons_eq_map_conv join_cons)
    next
      assume "data ! skip_json_space data q = CHR '']'' \<and> data ! skip_json_space data q \<noteq> CHR '',''
        \<and> vs = [v] \<and> e = skip_json_space data q + 1"
      then have c: "data ! skip_json_space data q = CHR '']''" "vs' = []" "e = skip_json_space data q + 1" by (simp_all add: vs)
      have "rest = []" "st' = st1" using walked by (simp_all add: c)
      then show ?thesis unfolding dom_all unfolded out1_def [symmetric] using t(1) True
        by (auto simp: c ins same_elements_def intro: exI [of _ "[t]"])
    qed
  qed
qed simp

subsection \<open>Objects\<close>

lemma find_new_member:
  assumes "index_sound ms" and "key \<notin> m_key ` set (fst ms)"
  shows "find_stream_member key ms = None"
proof (cases "find_stream_member key ms")
  case (Some i)
  from find_stream_member_sound [OF assms(1) this] have "m_key (fst ms ! i) = key" "fst ms ! i \<in> set (fst ms)" by auto
  then show ?thesis using assms(2) by auto
qed

lemma upsert_new_member:
  "index_sound ms \<Longrightarrow> key \<notin> m_key ` set (fst ms)
    \<Longrightarrow> fst (upsert_stream_member key r ms) = fst ms @ [\<lparr>m_key = key, m_start = fst r, m_end = snd r\<rparr>]"
  by (simp add: upsert_stream_member_def find_new_member Let_def)

lemma remove_new_member: "index_sound ms \<Longrightarrow> key \<notin> m_key ` set (fst ms) \<Longrightarrow> remove_stream_member key ms = ms"
  by (simp add: remove_stream_member_def find_new_member)

definition kept_members :: "bytes \<Rightarrow> stream_member list \<Rightarrow> (bytes \<times> json_tree) list \<Rightarrow> bool" where
  "kept_members scratch ms kept \<longleftrightarrow> list_all2 (\<lambda>mem kv. m_key mem = fst kv \<and> m_end mem \<le> length scratch
     \<and> encode_tree (snd kv) = Some (slice scratch (m_start mem) (m_end mem))) ms kept"

lemma kept_keys: "kept_members scratch ms kept \<Longrightarrow> map m_key ms = map fst kept"
  unfolding kept_members_def by (induction rule: list_all2_induct) auto

lemma kept_grow: "kept_members scratch ms kept \<Longrightarrow> kept_members (scratch @ v) ms kept"
  unfolding kept_members_def by (erule list_all2_mono) (auto simp: slice_append_left)

lemma kept_add:
  assumes "kept_members scratch ms kept" and "encode_tree v = Some t"
  shows "kept_members (scratch @ t) (ms @ [\<lparr>m_key = key, m_start = length scratch, m_end = length (scratch @ t)\<rparr>]) (kept @ [(key, v)])"
  using kept_grow [OF assms(1), of t] assms(2) unfolding kept_members_def by (auto simp: slice_def intro: list_all2_appendI)

lemma write_object_encodes:
  assumes sorts: "sorts_by m_key (sort_members L)" and kept: "kept_members scratch ms kept" and distinct: "distinct (map fst kept)"
  shows "encode_tree (JsonObject kept) = Some (write_object L scratch ms)"
proof -
  let ?pair = "\<lambda>mem. (m_key mem, Some (slice scratch (m_start mem) (m_end mem)))"
  let ?member = "\<lambda>mem. (m_key mem, slice scratch (m_start mem) (m_end mem))"
  have pairs: "map (\<lambda>(k, v). (k, encode_tree v)) kept = map ?pair ms"
    using kept unfolding kept_members_def by (induction rule: list_all2_induct) auto
  let ?sorted = "sort_members L ms"
  have s: "set ?sorted = set ms" "sorted (map m_key ?sorted)" "mset ?sorted = mset ms"
    using sorts unfolding sorts_by_def by (metis set_mset_mset, metis, metis)
  have keys: "distinct (map m_key ms)" using kept_keys [OF kept] distinct by simp
  have "mset (map m_key ?sorted) = mset (map m_key ms)" using s(3) by simp
  then have keys': "distinct (map m_key ?sorted)" using keys by (metis mset_eq_imp_distinct_iff)
  have "mset (map fst (sort_key fst (map ?pair ms))) = mset (map m_key ms)" by (simp add: multiset.map_comp comp_def)
  then have sorted_keys: "distinct (map fst (sort_key fst (map ?pair ms)))" using keys by (metis mset_eq_imp_distinct_iff)
  have "sort_key fst (map ?pair ms) = map ?pair ?sorted"
    by (rule sorted_distinct_unique [of fst]) (use s keys keys' sorted_keys in \<open>simp_all add: comp_def\<close>)
  then have all: "all_some (map tagged (sort_key fst (map (\<lambda>(k, v). (k, encode_tree v)) kept))) = Some (map ?member ?sorted)"
    unfolding pairs by (simp add: all_some_iff tagged_def comp_def)
  have "map encode_member (map ?member ?sorted) = map (write_member scratch) ?sorted"
    by (simp add: encode_member_def write_member_def [abs_def] comp_def)
  then show ?thesis unfolding encode_tree.simps all write_object_def by (simp only: option.map)
qed

lemma object_key_read:
  assumes utf8: "valid_utf8 data" and cache: "cache_ok data (w_keys w)" and key: "read_string data p keyEnd key"
    and colon: "colon = skip_json_space data keyEnd" "colon < length data" "data ! colon = CHR '':''"
  obtains cache where "object_key data p w = (Some (key, skip_json_space data (colon + 1)), w\<lparr>w_keys := cache\<rparr>)"
    and "cache_ok data cache"
proof -
  obtain b where b: "keyEnd = scan_json_string data p" "p + 2 \<le> keyEnd" "keyEnd \<le> length data"
    using key by (rule read_string_parts)
  obtain cache' where k: "stream_object_key data p keyEnd (w_keys w) = (Some key, cache')"
    using read_string_stream(5) [OF utf8 key cache] by (metis prod.collapse)
  have o: "object_key data p w = (Some (key, skip_json_space data (colon + 1)), w\<lparr>w_keys := cache'\<rparr>)"
    using key b k colon by (simp add: object_key_def read_string_def Let_def)
  moreover have "cache_ok data cache'" using object_key_ok [OF cache o] by (metis stream_walker.select_convs(5) stream_walker.surjective stream_walker.update_convs(5))
  ultimately show thesis by (rule that)
qed

lemma object_loop_later:
  assumes "value_ok child" and "sorts_by m_key (sort_members L)" and "object_key data p w = (Some (key, q), w1)" and "cache_ok data (w_keys w1)"
    and c: "child data q (stream_field key) (push_part (KeyPart key) w1) scratch = (r1, w2, scratch2)"
    and members: "\<forall>mem \<in> set (fst ms). member_ok scratch (m_start mem) (m_end mem)"
    and "object_loop L (Suc k) child data p scratch ms w = (r, w')"
  shows "walker_le (pop_part w2) w'"
proof (cases r1)
  case None
  then show ?thesis using assms(3,7) c by (simp add: Let_def)
next
  case (Some x)
  obtain e omitted where x: "x = (e, omitted)" by (cases x)
  have step: "value_step_ok data q (push_part (KeyPart key) w1) scratch (r1, w2, scratch2)"
    using assms(1,4) c unfolding value_ok_def by (metis push_keys)
  then have cache: "cache_ok data (w_keys (pop_part w2))" and out: "appends False omitted scratch scratch2"
    by (simp_all add: value_step_ok_def Some x push_part_def)
  define ms2 where "ms2 = (if omitted then remove_stream_member key ms
    else upsert_stream_member key (length scratch, length scratch2) ms)"
  have "\<forall>mem \<in> set (fst ms2). member_ok scratch2 (m_start mem) (m_end mem)"
    unfolding ms2_def by (rule member_step_ok [OF members out])
  from object_loop_ok [OF assms(1,2) cache this]
  have "walker_le (pop_part w2) w3" if "object_loop L k child data q2 scratch2 ms2 (pop_part w2) = (r3, w3)" for q2 r3 w3
    using that by (metis object_result_ok_def snd_conv)
  then show ?thesis using assms(7) unfolding object_loop.simps assms(3) c Some x option.case prod.case Let_def ms2_def [symmetric]
    by (auto split: if_splits)
qed

definition same_members ::
    "nat \<Rightarrow> (bytes \<times> json_tree) list \<Rightarrow> (bytes \<times> json_tree) list \<times> inspect_state
      \<Rightarrow> (nat \<times> bytes) option \<times> stream_walker \<Rightarrow> bool" where
  "same_members e kept x y \<longleftrightarrow> (case (x, y) of ((rest, st'), (r, w')) \<Rightarrow>
     if st_errs st' = [] then w_ins w' = st' \<and> (\<exists>object. r = Some (e, object) \<and> encode_tree (JsonObject (kept @ rest)) = Some object)
     else st_errs (w_ins w') \<noteq> [])"

lemma kept_member_ok:
  assumes "kept_members scratch ms kept"
  shows "\<forall>mem \<in> set ms. member_ok scratch (m_start mem) (m_end mem)"
  using assms encode_tree_written unfolding kept_members_def member_ok_def
  by (induction rule: list_all2_induct) auto

lemma parse_members_extends:
  "parse_members False n child data p acc = Some (all, e) \<Longrightarrow> \<exists>new. all = acc @ new"
proof (induction n arbitrary: p acc)
  case (Suc n)
  obtain keyEnd key colon v q where "False \<or> key \<notin> fst ` set acc"
    and "data ! skip_json_space data q = CHR '','' \<and>
        parse_members False n child data (skip_json_space data (skip_json_space data q + 1)) (put_member key v acc) = Some (all, e)
      \<or> data ! skip_json_space data q = CHR ''}'' \<and> data ! skip_json_space data q \<noteq> CHR '',''
        \<and> all = put_member key v acc \<and> e = skip_json_space data q + 1"
    using Suc.prems by (rule parse_members_round)
  then show ?case using Suc.IH by (fastforce simp: put_new)
qed simp

lemma members_parity:
  assumes child: "parity L m data parser" and reads: "parser_ok parser data" and sorts: "sorts_by m_key (sort_members L)"
    and utf8: "valid_utf8 data"
  shows "parse_members False n parser data p acc = Some (all, e) \<Longrightarrow> cache_ok data (w_keys w)
    \<Longrightarrow> fresh (w_ins w) \<Longrightarrow> f_path g = current_path w \<Longrightarrow> length data - p < k \<Longrightarrow> index_sound ms
    \<Longrightarrow> kept_members scratch (fst ms) kept \<Longrightarrow> fst ` set kept \<subseteq> fst ` set acc \<Longrightarrow> distinct (map fst kept)
    \<Longrightarrow> \<exists>new. all = acc @ new \<and> same_members e kept (walk_members L m new g depth (w_ins w))
      (object_loop L k (append_value L m (depth + 1)) data p scratch ms w)"
proof (induction n arbitrary: p acc w k ms scratch kept)
  case (Suc n)
  obtain keyEnd key colon v q where r: "read_string data p keyEnd key" and colon: "colon = skip_json_space data keyEnd"
    "colon < length data" "data ! colon = CHR '':''" and v: "parser data (skip_json_space data (colon + 1)) = Some (v, q)"
    and q: "skip_json_space data q < length data" and unique: "False \<or> key \<notin> fst ` set acc"
    and more: "data ! skip_json_space data q = CHR '','' \<and>
        parse_members False n parser data (skip_json_space data (skip_json_space data q + 1)) (put_member key v acc) = Some (all, e)
      \<or> data ! skip_json_space data q = CHR ''}'' \<and> data ! skip_json_space data q \<noteq> CHR '',''
        \<and> all = put_member key v acc \<and> e = skip_json_space data q + 1"
    using Suc.prems(1) by (rule parse_members_round)
  have put: "put_member key v acc = acc @ [(key, v)]" using unique by (simp add: put_new)
  obtain j where k: "k = Suc j" using Suc.prems(5) by (cases k) auto
  obtain cache where key: "object_key data p w = (Some (key, skip_json_space data (colon + 1)), w\<lparr>w_keys := cache\<rparr>)"
    and cache: "cache_ok data cache"
    using object_key_read [OF utf8 Suc.prems(2) r colon] .
  let ?q = "skip_json_space data (colon + 1)"
  define w0 where "w0 = w\<lparr>w_keys := cache\<rparr>"
  have w0: "w_ins w0 = w_ins w" "current_path w0 = current_path w" "cache_ok data (w_keys w0)" "walker_le w w0"
    using cache by (simp_all add: w0_def current_path_def walker_le_def)
  have val: "?q < q" "q \<le> length data" using reads v by (simp_all add: parser_ok_def reads_value_def)
  have "p + 2 \<le> keyEnd" using r by (rule read_string_parts)
  then have after: "p < ?q" using skip_json_space_ge [of keyEnd data] skip_json_space_ge [of "colon + 1" data] colon(1) by simp
  define w1 where "w1 = push_part (KeyPart key) w0"
  have ins1: "w_ins w1 = w_ins w" "w_path w1 \<noteq> []" "cache_ok data (w_keys w1)" by (simp_all add: w1_def push_part_def w0)
  obtain res st1 where dom: "walk_tree L m v (member_field g key v) (depth + 1) (w_ins w) = (res, st1)" by (metis surj_pair)
  obtain r w2 scratch2 where str: "append_value L m (depth + 1) data ?q (stream_field key) w1 scratch = (r, w2, scratch2)"
    by (metis surj_pair)
  have "value_delimiter (drop q data)"
    using more by (intro delimiter_behind [OF val(2)]) (auto simp: primitive_end_def)
  moreover have "same_field w1 (stream_field key) (member_field g key v)"
    unfolding w1_def by (rule member_same_field) (use Suc.prems(4) w0 in simp)
  moreover have "parser data (skip_json_space data ?q) = Some (v, q)" using v by simp
  ultimately have same: "same_walk q w1 scratch (res, st1) (r, w2, scratch2)"
    using child [unfolded parity_def, rule_format, of ?q v q w1 "stream_field key" "member_field g key v" scratch "depth + 1"]
      Suc.prems(3) dom str
    by (simp add: ins1) (simp add: member_field_def)
  note ok = append_value_ok [OF sorts, of m "depth + 1"]
  have step: "value_step_ok data ?q w1 scratch (r, w2, scratch2)"
    using ok ins1(3) str unfolding value_ok_def by metis
  have "walker_le (push_part (KeyPart key) w0) w2" using step by (simp add: value_step_ok_def w1_def)
  then have keeps: "walker_le w (pop_part w2)" using walker_le_trans [OF w0(4) pushed_le] by blast
  have dom_all: "walk_members L m ((key, v) # new) g depth (w_ins w)
      = ((case res of None \<Rightarrow> [] | Some v \<Rightarrow> [(key, v)]) @ fst (walk_members L m new g depth st1),
         snd (walk_members L m new g depth st1))" for new
    using Suc.prems(3) by (simp add: fresh_def dom split: prod.splits option.splits)
  obtain r' w' where loop: "object_loop L k (append_value L m (depth + 1)) data p scratch ms w = (r', w')" by (metis surj_pair)
  have split: "\<exists>new. all = acc @ (key, v) # new" 
    using more
  proof
    assume "data ! skip_json_space data q = CHR '','' \<and>
        parse_members False n parser data (skip_json_space data (skip_json_space data q + 1)) (put_member key v acc) = Some (all, e)"
    then have "parse_members False n parser data (skip_json_space data (skip_json_space data q + 1)) (acc @ [(key, v)]) = Some (all, e)"
      by (simp add: put)
    from parse_members_extends [OF this] show ?thesis by auto
  qed (simp add: put)
  show ?case
  proof (cases "st_errs st1 = []")
    case False
    then have "st_errs (w_ins w2) \<noteq> []" using same by (simp add: same_walk_def)
    then have "st_errs (w_ins (pop_part w2)) \<noteq> []" by (simp add: pop_part_def)
    moreover have "walker_le (pop_part w2) w'"
      using object_loop_later [OF ok sorts key [folded w0_def] w0(3) _ kept_member_ok [OF Suc.prems(7)] loop [unfolded k]] str
      by (simp add: w1_def)
    ultimately have "st_errs (w_ins w') \<noteq> []" using failed_stays by (simp add: walker_le_def)
    moreover have "st_errs (snd (walk_members L m new g depth st1)) \<noteq> []" for new
      using failed_stays [OF False walk_members_le] walk_tree_le [OF sorts] by (metis prod.collapse)
    ultimately have "same_members e kept (walk_members L m ((key, v) # new) g depth (w_ins w)) (r', w')" for new
      unfolding dom_all same_members_def by simp
    then show ?thesis unfolding loop using split by blast
  next
    case True
    define kept2 where "kept2 = kept @ (case res of None \<Rightarrow> [] | Some v \<Rightarrow> [(key, v)])"
    define ms2 where "ms2 = (if res = None then remove_stream_member key ms
      else upsert_stream_member key (length scratch, length scratch2) ms)"
    have "m_key ` set (fst ms) = fst ` set kept" using kept_keys [OF Suc.prems(7)] by (metis set_map)
    then have new_key: "key \<notin> m_key ` set (fst ms)" "key \<notin> fst ` set kept" using unique Suc.prems(8) by auto
    have same: "w_ins w2 = st1" "r = Some (q, res = None)"
      and out: "case res of None \<Rightarrow> scratch2 = scratch | Some v \<Rightarrow> (\<exists>t. encode_tree v = Some t \<and> scratch2 = scratch @ t)"
      using same ins1(2) True by (auto simp: same_walk_def split: option.splits)
    have kept2: "kept_members scratch2 (fst ms2) kept2"
    proof (cases res)
      case None
      then show ?thesis using out Suc.prems(7) remove_new_member [OF Suc.prems(6) new_key(1)] by (simp add: ms2_def kept2_def)
    next
      case (Some x)
      then obtain t where t: "encode_tree x = Some t" "scratch2 = scratch @ t" using out by auto
      then show ?thesis using kept_add [OF Suc.prems(7) t(1), of key] upsert_new_member [OF Suc.prems(6) new_key(1)] Some
        by (simp add: ms2_def kept2_def)
    qed
    have sound2: "index_sound ms2" using upsert_sound remove_sound Suc.prems(6) by (simp add: ms2_def)
    have sub: "fst ` set kept2 \<subseteq> fst ` set (acc @ [(key, v)])" and dist: "distinct (map fst kept2)"
      using Suc.prems(8,9) new_key(2) by (auto simp: kept2_def split: option.splits)
    have cache2: "cache_ok data (w_keys (pop_part w2))" using step by (simp add: value_step_ok_def same(2))
    have ins: "w_ins (pop_part w2) = st1" by (simp add: pop_part_def same(1))
    have fresh: "fresh st1" using still_fresh [OF Suc.prems(3) _ True] keeps by (simp add: walker_le_def ins)
    have path: "f_path g = current_path (pop_part w2)" using Suc.prems(4) keeps by (simp add: current_path_def walker_le_def)
    have unfolded: "object_loop L k (append_value L m (depth + 1)) data p scratch ms w =
        (if data ! skip_json_space data q = CHR '','' then
           object_loop L j (append_value L m (depth + 1)) data (skip_json_space data (skip_json_space data q + 1)) scratch2 ms2 (pop_part w2)
         else if data ! skip_json_space data q = CHR ''}'' then
           (Some (skip_json_space data q + 1, write_object L scratch2 (fst ms2)), pop_part w2)
         else (None, pop_part w2))"
      using q unfolding k object_loop.simps key w0_def [symmetric] w1_def [symmetric] str same(2) option.case prod.case Let_def ms2_def
      by simp
    have goal: "same_members e kept (walk_members L m ((key, v) # new) g depth (w_ins w)) x"
      if "same_members e kept2 (walk_members L m new g depth st1) x" for new x
      using that unfolding dom_all by (auto simp: same_members_def kept2_def split: prod.splits if_splits)
    from more show ?thesis
    proof
      assume "data ! skip_json_space data q = CHR '','' \<and>
        parse_members False n parser data (skip_json_space data (skip_json_space data q + 1)) (put_member key v acc) = Some (all, e)"
      then have c: "data ! skip_json_space data q = CHR '',''"
        "parse_members False n parser data (skip_json_space data (skip_json_space data q + 1)) (acc @ [(key, v)]) = Some (all, e)"
        by (simp_all add: put)
      have "p < skip_json_space data (skip_json_space data q + 1)"
        using val after skip_json_space_ge [of q data] skip_json_space_ge [of "skip_json_space data q + 1" data] by simp
      then have "length data - skip_json_space data (skip_json_space data q + 1) < j" using Suc.prems(5) val after by (simp add: k)
      from Suc.IH [OF c(2) cache2 fresh [folded ins] path this sound2 kept2 sub dist]
      obtain new where new: "all = (acc @ [(key, v)]) @ new" "same_members e kept2 (walk_members L m new g depth st1)
          (object_loop L j (append_value L m (depth + 1)) data (skip_json_space data (skip_json_space data q + 1)) scratch2 ms2 (pop_part w2))"
        unfolding ins by blast
      show ?thesis using new(1) goal [OF new(2)] unfolding unfolded by (intro exI [of _ "(key, v) # new"]) (simp add: c(1))
    next
      assume "data ! skip_json_space data q = CHR ''}'' \<and> data ! skip_json_space data q \<noteq> CHR '',''
        \<and> all = put_member key v acc \<and> e = skip_json_space data q + 1"
      then have c: "data ! skip_json_space data q = CHR ''}''" "all = acc @ [(key, v)]" "e = skip_json_space data q + 1" by (simp_all add: put)
      have "same_members e kept2 (walk_members L m [] g depth st1) (Some (e, write_object L scratch2 (fst ms2)), pop_part w2)"
        using write_object_encodes [OF sorts kept2 dist] True by (simp add: same_members_def ins)
      from goal [OF this] show ?thesis unfolding unfolded by (intro exI [of _ "[(key, v)]"]) (simp add: c)
    qed
  qed
qed simp

subsection \<open>Values\<close>

lemma add_field_error_nonempty: "errs = [] \<Longrightarrow> add_field_error L c f d errs \<noteq> []"
  by (simp add: add_field_error_def add_mask_error_def max_mask_errors_def)

lemma add_rule_error_nonempty: "errs = [] \<Longrightarrow> add_rule_error L c f r errs \<noteq> []"
  by (simp add: add_rule_error_def add_mask_error_def max_mask_errors_def)

lemma fail_inspect_failed: "fresh st \<Longrightarrow> st_errs (fail_inspect L c f d st) \<noteq> []"
  by (simp add: fresh_def fail_inspect_def add_field_error_nonempty)

lemma stream_fail_failed: "\<not> st_stop (w_ins w) \<Longrightarrow> st_errs (w_ins (stream_fail L c f d w)) \<noteq> []"
  by (simp add: stream_fail_def Let_def count_change_def set_ins_def add_stream_error_def)

text \<open>Both walkers ask the policy and apply its rule to the same text.\<close>

definition same_decision ::
    "stream_walker \<Rightarrow> bytes \<Rightarrow> json_tree option option \<times> inspect_state \<Rightarrow> (bool \<times> bool) option \<times> stream_walker \<times> bytes \<Rightarrow> bool" where
  "same_decision w out x y \<longleftrightarrow> (case (x, y) of ((res, st'), (r, w', out')) \<Rightarrow> (case res of
       None \<Rightarrow> r = None \<and> w' = w \<and> out' = out \<and> st' = w_ins w
     | Some v \<Rightarrow> (\<exists>omitted. r = Some (False, omitted)
         \<and> (if st_errs st' = [] then w_ins w' = st' \<and> (case v of
              None \<Rightarrow> omitted \<and> out' = out
            | Some v \<Rightarrow> \<not> omitted \<and> (\<exists>t. encode_tree v = Some t \<and> out' = out @ t))
           else st_errs (w_ins w') \<noteq> []))))"

lemma decision_parity:
  assumes field: "same_field w f g" and path: "path_free L m" and fresh: "fresh (w_ins w)"
    and scalar: "(if kind = KindString then stream_json_string_text (slice data p e)
      else if 0 < e \<and> kind \<noteq> KindNil then Some (slice data p e) else Some []) = Some (json_scalar_text t)"
  shows "same_decision w out (apply_field_decision L m t (g\<lparr>f_kind := kind\<rparr>) (w_ins w))
    (decide_value L m (streamed_field m w f kind) data p e w out)"
proof -
  let ?f = "streamed_field m w f kind" and ?g = "g\<lparr>f_kind := kind\<rparr>"
  have call: "call_policy (tables L) (m_policy m) ?f = call_policy (tables L) (m_policy m) ?g"
    by (rule streamed_field_policy [OF field path])
  have kind: "f_kind ?f = kind" by (rule streamed_field_located(2) [OF field])
  have stop: "\<not> st_stop (w_ins w)" "st_errs (w_ins w) = []" using fresh by (simp_all add: fresh_def)
  have json: "encode_tree (JsonString s) = Some (append_json_string [] s)" for s by simp
  show ?thesis
  proof (cases "call_policy (tables L) (m_policy m) ?g")
    case (Inl x)
    show ?thesis
      unfolding same_decision_def apply_field_decision_def decide_value_def call Inl sum.case prod.case
      by (simp add: stream_fail_failed [OF stop(1)] fail_inspect_failed [OF fresh], rule exI [of _ False], simp)
  next
    case (Inr d)
    consider (omit) "dec_omit d" | (pass) "\<not> dec_omit d" "is_nil_rule (dec_rule d)"
      | (ruled) "\<not> dec_omit d" "\<not> is_nil_rule (dec_rule d)" by blast
    then show ?thesis
    proof cases
      case omit
      then show ?thesis unfolding same_decision_def apply_field_decision_def decide_value_def call Inr sum.case
        by (simp add: stop count_change_def) blast
    next
      case pass
      then show ?thesis unfolding same_decision_def apply_field_decision_def decide_value_def call Inr sum.case by simp
    next
      case ruled
      note unfolded = same_decision_def apply_field_decision_def decide_value_def apply_tree_rule_def call Inr sum.case
        if_not_P [OF ruled(1)] if_not_P [OF ruled(2)] kind scalar option.case
      let ?r = "apply_rule (tables L) (dec_rule d) \<lparr>ri_value = json_scalar_text t, ri_kind = kind, ri_redaction = marker (m_cfg m)\<rparr>"
      show ?thesis
      proof (cases ?r)
        case (Inl x)
        then show ?thesis unfolding unfolded
          by (simp add: stop add_rule_error_nonempty count_change_def set_ins_def add_stream_error_def) blast
      next
        case (Inr s)
        then show ?thesis unfolding unfolded
          by (simp add: stop count_change_def append_json_string_dst [of out]) blast
      qed
    qed
  qed
qed

lemma parsed_scalar_text:
  assumes "valid_utf8 data" and "parse_value dup d data p = Some (t, e)"
  shows "(if json_value_kind t = KindString then stream_json_string_text (slice data p (scalar_end t e))
      else if 0 < scalar_end t e \<and> json_value_kind t \<noteq> KindNil then Some (slice data p (scalar_end t e)) else Some [])
    = Some (json_scalar_text t)"
  using assms(2)
proof (cases rule: parse_value_cases)
  case (string s)
  then show ?thesis using read_string_stream(2) [OF assms(1) string(2)] by simp
next
  case primitive
  note k = parse_primitive_kind [OF primitive(3)]
  have "0 < e" using parse_primitive_token(2) [OF primitive(3)] by simp
  then show ?thesis using k(3,4) by (cases t) auto
qed simp_all

lemma string_parity:
  assumes utf8: "valid_utf8 data" and read: "read_string data p e s" and field: "same_field w f g"
  shows "same_walk e w out (walk_string L m s (g\<lparr>f_kind := kind\<rparr>) depth (w_ins w))
    (append_string m (inspect_string L m depth) (slice data p e) e (streamed_field m w f kind) w out)"
proof -
  note tok = read_string_stream(2-4) [OF utf8 read]
  have token: "append_token (slice data p e) e w' out = (Some (e, False), w', out @ append_json_string [] s)" for w'
    by (simp add: append_token_def tok)
  obtain masked changed st' where i: "inspect_string L m depth s (g\<lparr>f_kind := kind\<rparr>) (w_ins w) = ((masked, changed), st')"
    by (metis surj_pair)
  show ?thesis
  proof (cases "inspectable m s")
    case False
    then show ?thesis by (simp add: walk_string_def append_string_def tok token same_walk_def)
  next
    case True
    then show ?thesis
      by (cases changed) (simp_all add: walk_string_def append_string_def tok token same_walk_def streamed_field_located [OF field] i
          set_ins_def count_change_def append_json_string_dst [of out])
  qed
qed

lemma kind_parity:
  assumes child: "\<And>b. d = Suc b \<Longrightarrow> parity L m data (parse_value False b)"
    and sorts: "sorts_by m_key (sort_members L)" and utf8: "valid_utf8 data"
    and parsed: "parse_value False d data p = Some (t, e)"
    and cache: "cache_ok data (w_keys w)" and fresh: "fresh (w_ins w)" and field: "same_field w f g"
  shows "same_walk e w out (walk_inside L m t (g\<lparr>f_kind := json_value_kind t\<rparr>) depth (w_ins w))
    (append_kind L m (inspect_string L m depth) (append_value L m (depth + 1)) data p (scalar_end t e)
      (streamed_field m w f (json_value_kind t)) w out)"
proof -
  have kind: "f_kind (streamed_field m w f k) = k" for k by (rule streamed_field_located(2) [OF field])
  have path: "f_path (g\<lparr>f_kind := k\<rparr>) = current_path w" for k using same_field_path [OF field] by simp
  have ok: "parser_ok (parse_value False b) data" for b using parse_value_read by (auto simp: parser_ok_def)
  let ?q = "skip_json_space data (p + 1)"
  show ?thesis using parsed
  proof (cases rule: parse_value_cases)
    case (string s)
    then show ?thesis using string_parity [OF utf8 string(2) field] kind [of KindString] by (simp add: append_kind_def Let_def)
  next
    case (object0 b)
    then show ?thesis using kind [of KindObject] fresh
      by (simp add: append_kind_def append_object_def Let_def same_walk_def fresh_def)
  next
    case (object b ms)
    let ?k = "Suc (length data - ?q)"
    obtain rest st' where dom: "walk_members L m ms (g\<lparr>f_kind := KindObject\<rparr>) depth (w_ins w) = (rest, st')" by (metis surj_pair)
    obtain r w' where str: "object_loop L ?k (append_value L m (depth + 1)) data ?q [] no_members w = (r, w')" by (metis surj_pair)
    have "same_members e [] (rest, st') (r, w')"
      using members_parity [OF child [OF object(1)] ok sorts utf8 object(5) cache fresh path [of KindObject],
          where k = ?k and ms = no_members and scratch = "[]" and kept = "[]" and depth = depth]
        dom str by (simp add: no_members_def index_sound_def kept_members_def)
    then show ?thesis using object(4,6) dom str kind [of KindObject]
      by (auto simp: append_kind_def append_object_def Let_def same_walk_def same_members_def split: option.splits if_splits)
  next
    case (array0 b)
    then show ?thesis using kind [of KindArray] fresh
      by (simp add: append_kind_def append_array_def Let_def same_walk_def fresh_def)
  next
    case (array b vs)
    let ?k = "Suc (length data - ?q)"
    obtain rest st' where dom: "walk_elements L m 0 vs (g\<lparr>f_kind := KindArray\<rparr>) depth (w_ins w) = (rest, st')" by (metis surj_pair)
    obtain r w' out' where str: "array_loop ?k (append_value L m (depth + 1)) data ?q 0 w (out @ ''['') = (r, w', out')"
      by (metis surj_pair)
    have "same_elements e (out @ ''['') (rest, st') (r, w', out')"
      using elements_parity [OF child [OF array(1)] ok sorts array(5) _ cache fresh path [of KindArray],
          where k = ?k and i = 0 and out = "out @ ''[''" and depth = depth]
        dom str by simp
    then show ?thesis using array(4,6) dom str kind [of KindArray]
      by (auto simp: append_kind_def append_array_def Let_def same_walk_def same_elements_def all_some_iff split: if_splits)
  next
    case primitive
    note k = parse_primitive_kind [OF primitive(3)]
    have slice: "slice data p e = (if t = JsonNull then ''null'' else json_scalar_text t)" by (rule k(3))
    have valid: "t = JsonNumber n \<Longrightarrow> valid_json_number n" for n using k(2,3) by (auto simp: valid_stream_primitive_def)
    show ?thesis using k(4) slice kind [of "json_value_kind t"] fresh valid
      by (cases t) (auto simp: append_kind_def Let_def same_walk_def fresh_def append_json_string_dst [of out])
  qed
qed

lemma entered_parity:
  assumes path: "path_free L m" and scalar: "(if kind = KindString then stream_json_string_text (slice data p se)
      else if 0 < se \<and> kind \<noteq> KindNil then Some (slice data p se) else Some []) = Some (json_scalar_text t)"
    and fresh: "fresh (w_ins w)" and field: "same_field w f g" and skip: "skip_json_value data p = Some e"
    and inside: "same_walk e w out (walk_inside L m t (g\<lparr>f_kind := kind\<rparr>) depth (w_ins w))
      (append_kind L m (inspect_string L m depth) (append_value L m (depth + 1)) data p se (streamed_field m w f kind) w out)"
  shows "same_walk e w out
    (case (case apply_field_decision L m t (g\<lparr>f_kind := kind\<rparr>) (w_ins w) of
        (Some result, st) \<Rightarrow> (Inl result, st) | (None, st) \<Rightarrow> (Inr (g\<lparr>f_kind := kind\<rparr>), st)) of
       (Inl r, st) \<Rightarrow> (r, st) | (Inr f, st) \<Rightarrow> walk_inside L m t f depth st)
    (case decide_value L m (streamed_field m w f kind) data p se w out of
       (Some (broken, omitted), w', out) \<Rightarrow>
         (if broken then None else map_option (\<lambda>end. (end, omitted)) (skip_json_value data p), w',
          if omitted \<and> w_path w' = [] then out @ ''null'' else out)
     | (None, w', out) \<Rightarrow>
         append_kind L m (inspect_string L m depth) (append_value L m (depth + 1)) data p se (streamed_field m w f kind) w' out)"
proof -
  obtain x st' where dom: "apply_field_decision L m t (g\<lparr>f_kind := kind\<rparr>) (w_ins w) = (x, st')" by (metis surj_pair)
  obtain r w' out' where str: "decide_value L m (streamed_field m w f kind) data p se w out = (r, w', out')" by (metis surj_pair)
  have same: "same_decision w out (x, st') (r, w', out')"
    using decision_parity [OF field path fresh scalar, of out] by (simp only: dom str)
  show ?thesis
  proof (cases x)
    case None
    then show ?thesis using same inside by (simp add: dom str same_decision_def)
  next
    case (Some v)
    then obtain omitted where r: "r = Some (False, omitted)" using same by (auto simp: same_decision_def)
    have "walker_le w w'" using decide_value_ok [OF str] by simp
    then have "w_path w' = w_path w" by (simp add: walker_le_def)
    then show ?thesis using same by (auto simp: dom str Some r skip same_walk_def same_decision_def split: option.splits if_splits)
  qed
qed

lemma value_parity:
  assumes child: "\<And>b. d = Suc b \<Longrightarrow> parity L m data (parse_value False b)"
    and sorts: "sorts_by m_key (sort_members L)" and path: "path_free L m" and utf8: "valid_utf8 data"
  shows "parity L m data (parse_value False d)"
  unfolding parity_def
proof (intro allI impI)
  fix p0 t e and w :: stream_walker and f g :: field and depth out
  define p where "p = skip_json_space data p0"
  assume "parse_value False d data (skip_json_space data p0) = Some (t, e)" and delim: "value_delimiter (drop e data)"
    and cache: "cache_ok data (w_keys w)" and fresh: "fresh (w_ins w)" and field: "same_field w f g"
    and kind: "f_kind g \<in> {KindInvalid, json_value_kind t}"
  then have parsed: "parse_value False d data p = Some (t, e)" by (simp add: p_def)
  note ends = parsed_scalar_end [OF parsed]
  have skip: "skip_json_value data p = Some e"
    by (rule skip_value_read [OF parse_value_read [OF parsed] delim]) (simp add: p_def)
  define st where "st = (w_ins w)\<lparr>st_nodes := st_nodes (w_ins w) + 1\<rparr>"
  define w1 where "w1 = set_ins st w"
  have path1: "current_path w1 = current_path w" by (simp add: w1_def set_ins_def current_path_def)
  have w1: "w_ins w1 = st" "w_path w1 = w_path w" "cache_ok data (w_keys w1)" "fresh st" "same_field w1 f g"
    using cache fresh field path1 by (simp_all add: w1_def st_def set_ins_def fresh_def same_field_def)
  have stop: "\<not> st_stop (w_ins w)" using fresh by (simp add: fresh_def)
  have g: "(if f_kind g = KindInvalid then g\<lparr>f_kind := json_value_kind t\<rparr> else g) = g\<lparr>f_kind := json_value_kind t\<rparr>"
    using kind by (cases g) auto
  have not_invalid: "json_value_kind t \<noteq> KindInvalid" by (cases t) simp_all
  have str: "append_value L m depth data p0 f w out =
      (if max_depth (m_cfg m) < depth then skip_masked m data p (stream_fail L CodeDepthLimit f depth w) out
       else if max_nodes (m_cfg m) < st_nodes st then skip_masked m data p (stream_fail L CodeNodeLimit f depth w1) out
       else (case decide_value L m (streamed_field m w1 f (json_value_kind t)) data p (scalar_end t e) w1 out of
         (Some (broken, omitted), w', out) \<Rightarrow>
           (if broken then None else map_option (\<lambda>end. (end, omitted)) (skip_json_value data p), w',
            if omitted \<and> w_path w' = [] then out @ ''null'' else out)
       | (None, w', out) \<Rightarrow> append_kind L m (inspect_string L m depth) (append_value L m (depth + 1)) data p (scalar_end t e)
           (streamed_field m w1 f (json_value_kind t)) w' out))"
    unfolding append_value_unfold [of L m depth] append_value_at_def Let_def p_def [symmetric] st_def [symmetric] w1_def [symmetric]
      ends(2) streamed_field_def
    using ends(1,3) stop not_invalid w1(1) by simp
  have dom: "walk_tree L m t g depth (w_ins w) =
      (if max_depth (m_cfg m) < depth then (Some (marker_tree m), fail_inspect L CodeDepthLimit g depth (w_ins w))
       else if max_nodes (m_cfg m) < st_nodes st then (Some (marker_tree m), fail_inspect L CodeNodeLimit g depth st)
       else (case (case apply_field_decision L m t (g\<lparr>f_kind := json_value_kind t\<rparr>) st of
           (Some result, st) \<Rightarrow> (Inl result, st) | (None, st) \<Rightarrow> (Inr (g\<lparr>f_kind := json_value_kind t\<rparr>), st)) of
          (Inl r, st) \<Rightarrow> (r, st) | (Inr f, st) \<Rightarrow> walk_inside L m t f depth st))"
    unfolding walk_tree_enter enter_tree_def Let_def st_def [symmetric] g using stop by simp
  have failed: "same_walk e w out (Some (marker_tree m), fail_inspect L c g depth st2) (skip_masked m data p (stream_fail L c f depth w2) out)"
    if "fresh st2" "w_ins w2 = st2" for c st2 w2
    using fail_inspect_failed [OF that(1)] stream_fail_failed [of w2] that by (simp add: same_walk_def skip_masked_def fresh_def)
  consider (deep) "max_depth (m_cfg m) < depth" | (nodes) "\<not> max_depth (m_cfg m) < depth" "max_nodes (m_cfg m) < st_nodes st"
    | (on) "\<not> max_depth (m_cfg m) < depth" "\<not> max_nodes (m_cfg m) < st_nodes st" by blast
  then show "same_walk e w out (walk_tree L m t g depth (w_ins w)) (append_value L m depth data p0 f w out)"
  proof cases
    case deep
    then show ?thesis unfolding str dom using failed [OF fresh refl] by simp
  next
    case nodes
    then show ?thesis unfolding str dom using failed [OF w1(4,1)] by simp
  next
    case on
    have scalar: "(if json_value_kind t = KindString then stream_json_string_text (slice data p (scalar_end t e))
      else if 0 < scalar_end t e \<and> json_value_kind t \<noteq> KindNil then Some (slice data p (scalar_end t e)) else Some [])
      = Some (json_scalar_text t)"
      by (rule parsed_scalar_text [OF utf8 parsed])
    have fresh1: "fresh (w_ins w1)" using w1 by simp
    have "same_walk e w1 out (walk_tree L m t g depth (w_ins w)) (append_value L m depth data p0 f w out)"
      unfolding str dom if_not_P [OF on(1)] if_not_P [OF on(2)] unfolding w1(1) [symmetric]
      by (rule entered_parity [OF path scalar fresh1 w1(5) skip kind_parity [OF child sorts utf8 parsed w1(3) fresh1 w1(5)]])
    then show ?thesis unfolding same_walk_def w1(2) .
  qed
qed

lemma every_depth_parity:
  assumes "sorts_by m_key (sort_members L)" and "path_free L m" and "valid_utf8 data"
  shows "parity L m data (parse_value False d)"
proof (induction d rule: nat_less_induct)
  case (1 d)
  show ?case by (rule value_parity) (use 1 assms in auto)
qed

section \<open>Property\<close>

lemma dom_result:
  assumes "decode_json data 0 = Some (t, e)" and "skip_json_space data e = length data"
    and walk: "walk_tree L m t (root_field\<lparr>f_kind := json_value_kind t\<rparr>) 0 \<lparr>st_nodes = 0, st_errs = [], st_stop = False\<rparr> = (res, st)"
  shows "st_errs st \<noteq> [] \<Longrightarrow> mask_json_dom L m data = (safe_json_fallback m, Some (MaskErrors (st_errs st)))"
    and "st_errs st = [] \<Longrightarrow> encode_tree (case res of None \<Rightarrow> JsonNull | Some v \<Rightarrow> v) = Some out \<Longrightarrow> mask_json_dom L m data = (out, None)"
  using assms by (simp_all add: mask_json_dom_def mask_json_root_def aggregate_errors_def)

text \<open>
  C1: The streaming walker agrees with the reference implementation \<open>maskJSONDOM\<close>.  On a
  valid UTF-8 document that \<open>encoding/json\<close> decodes and in which no object repeats a key,
  with a masker that \<open>New\<close> made, both return the same bytes, and one reports an error
  exactly when the other does.
\<close>

theorem stream_agrees_with_tree:
  assumes "sorts_ok L" and "new_masker policy opts = Inr m" and "valid_utf8 data"
    and "decode_unique data 0 = Some (t, e)" and "skip_json_space data e = length data"
  shows "fst (mask_json_stream L m data) = fst (mask_json_dom L m data)
    \<and> (snd (mask_json_stream L m data) = None \<longleftrightarrow> snd (mask_json_dom L m data) = None)"
proof -
  have sorts: "sorts_by m_key (sort_members L)" using assms(1) by (simp add: sorts_ok_def)
  have parsed: "parse_value False json_max_nesting data (skip_json_space data 0) = Some (t, e)"
    using assms(4) by (simp add: decode_unique_def)
  then have decoded: "decode_json data 0 = Some (t, e)" by (simp add: decode_json_def parse_unique_same)
  let ?st = "\<lparr>st_nodes = 0, st_errs = [], st_stop = False\<rparr>" and ?w = "new_stream_walker 0 []"
  let ?g = "root_field\<lparr>f_kind := json_value_kind t\<rparr>"
  have "e \<le> length data" using parse_value_read [OF parsed] by (simp add: reads_value_def)
  then have "value_delimiter (drop e data)" using assms(5) by (intro delimiter_behind) auto
  moreover have "same_field ?w root_field ?g"
    by (simp add: same_field_def root_field_def current_path_def new_stream_walker_def)
  moreover have "w_ins ?w = ?st" "cache_ok data (w_keys ?w)" "fresh ?st" by (simp_all add: new_stream_walker_def fresh_def)
  ultimately have same: "same_walk e ?w [] (walk_tree L m t ?g 0 ?st) (append_value L m 0 data 0 root_field ?w [])"
    using every_depth_parity [OF sorts new_masker_path_free [OF assms(2)] assms(3), of json_max_nesting] parsed
    unfolding parity_def by (metis field.select_convs(4) field.surjective field.update_convs(4) insertI1 insertI2)
  obtain res st where dom: "walk_tree L m t ?g 0 ?st = (res, st)" by (metis surj_pair)
  obtain r w out where str: "append_value L m 0 data 0 root_field ?w [] = (r, w, out)" by (metis surj_pair)
  note same = same [unfolded dom str]
  show ?thesis
  proof (cases "st_errs st = []")
    case True
    have w: "w_ins w = st" "\<exists>omitted. r = Some (e, omitted)"
      "encode_tree (case res of None \<Rightarrow> JsonNull | Some v \<Rightarrow> v) = Some out"
      using same True by (auto simp: same_walk_def new_stream_walker_def split: option.splits)
    then have "mask_json_stream L m data = (out, None)"
      using assms(5) True by (auto simp: mask_json_stream_def str has_json_resource_error_def aggregate_errors_def)
    then show ?thesis using dom_result(2) [OF decoded assms(5) dom True w(3)] by simp
  next
    case False
    then have "st_errs (w_ins w) \<noteq> []" using same by (simp add: same_walk_def)
    then have "fst (mask_json_stream L m data) = safe_json_fallback m \<and> snd (mask_json_stream L m data) \<noteq> None"
      by (auto simp: mask_json_stream_def str json_failure_def aggregate_errors_def split: option.splits)
    then show ?thesis using dom_result(1) [OF decoded assms(5) dom False] by simp
  qed
qed

theorem stream_agrees_with_tree_witness:
  "fst (mask_json_stream plain_library \<lparr>m_policy = PolicyFunc (Some (\<lambda>f. Returns no_opinion)), m_cfg = default_config\<lparr>need_paths := True\<rparr>\<rparr> ''null'')
    = fst (mask_json_dom plain_library \<lparr>m_policy = PolicyFunc (Some (\<lambda>f. Returns no_opinion)), m_cfg = default_config\<lparr>need_paths := True\<rparr>\<rparr> ''null'')"
proof -
  let ?p = "PolicyFunc (Some (\<lambda>f. Returns no_opinion))"
  have m: "new_masker ?p [] = Inr \<lparr>m_policy = ?p, m_cfg = default_config\<lparr>need_paths := True\<rparr>\<rparr>"
    by (simp add: new_masker_def)
  have utf8: "valid_utf8 ''null''" by (rule valid_utf8_ascii) simp
  have space: "skip_json_space ''null'' 4 = length ''null''" by code_simp
  have "parse_primitive ''null'' 0 = Some (JsonNull, 4)" "skip_json_space ''null'' 0 = 0" by code_simp+
  then have "decode_unique ''null'' 0 = Some (JsonNull, 4)" by (simp add: decode_unique_def parse_value.simps [of _ json_max_nesting])
  from stream_agrees_with_tree [OF plain_library_sorts m utf8 this space] show ?thesis by blast
qed

end
