(* ===== verification/GoTypes.thy ===== *)
theory GoTypes
  imports Types
begin

text \<open>
  The Go types the reflection walker inspects, as \<open>reflect.Type\<close> shows them, and the
  questions \<open>text_isolation.go\<close> and \<open>walk.go\<close> ask of a type alone.  Elements of an array
  and fields of a struct are inline and so are part of the type; a pointer, slice or map
  refers to its element by its number in the table of the program's types, so that a
  recursive type is a finite value.  Two types are the same \<open>reflect.Type\<close> when they are
  equal; a defined type carries its name, and no two numbers name equal types.
\<close>

section \<open>Types\<close>

datatype scalar_kind =
    BoolKind | IntKind nat | UintKind nat | UintptrKind | FloatKind nat | ComplexKind nat | StringKind

datatype reference_kind = ChanKind | FuncKind | UnsafePointerKind

text \<open>
  What \<open>reflect\<close> says about the methods of a type \<open>T\<close>: whether it has exported methods,
  whether \<open>T\<close> and \<open>*T\<close> implement \<open>encoding.TextMarshaler\<close>, and whether \<open>*T\<close>
  implements \<open>sync.Locker\<close>.
\<close>

record type_info =
  ti_name :: bytes
  ti_methods :: bool
  ti_text :: bool
  ti_pointer_text :: bool
  ti_pointer_locker :: bool

definition plain_info :: type_info where
  "plain_info = \<lparr>ti_name = [], ti_methods = False, ti_text = False, ti_pointer_text = False, ti_pointer_locker = False\<rparr>"

text \<open>
  \<open>reflect.StructField\<close> without its type.  The tag is the list of its key and value pairs,
  in which \<open>Tag.Lookup\<close> finds the first; an exported field has an empty package path.
\<close>

record struct_field =
  sf_name :: bytes
  sf_pkg_path :: bytes
  sf_anonymous :: bool
  sf_tag :: "(bytes \<times> bytes) list"

abbreviation is_exported :: "struct_field \<Rightarrow> bool" where
  "is_exported f \<equiv> sf_pkg_path f = []"

type_synonym type_id = nat

datatype go_type =
    ScalarType type_info scalar_kind
  | ArrayType type_info nat go_type
  | StructType type_info "(struct_field \<times> go_type) list"
  | PointerType type_info type_id
  | SliceType type_info type_id
  | MapType type_info type_id type_id
  | InterfaceType type_info
  | ReferenceType type_info reference_kind

fun info_of :: "go_type \<Rightarrow> type_info" where
  "info_of (ScalarType i _) = i"
| "info_of (ArrayType i _ _) = i"
| "info_of (StructType i _) = i"
| "info_of (PointerType i _) = i"
| "info_of (SliceType i _) = i"
| "info_of (MapType i _ _) = i"
| "info_of (InterfaceType i) = i"
| "info_of (ReferenceType i _) = i"

fun is_pointer :: "go_type \<Rightarrow> bool" where
  "is_pointer (PointerType _ _) = True"
| "is_pointer _ = False"

fun is_struct :: "go_type \<Rightarrow> bool" where
  "is_struct (StructType _ _) = True"
| "is_struct _ = False"

fun is_interface :: "go_type \<Rightarrow> bool" where
  "is_interface (InterfaceType _) = True"
| "is_interface _ = False"

text \<open>The kinds listed as scalars throughout \<open>walk.go\<close>: complex numbers are not among them.\<close>

fun is_basic_scalar :: "go_type \<Rightarrow> bool" where
  "is_basic_scalar (ScalarType _ (ComplexKind _)) = False"
| "is_basic_scalar (ScalarType _ _) = True"
| "is_basic_scalar _ = False"

section \<open>The types of a program\<close>

text \<open>
  The table of the types, the types of the standard library the sources name, and the
  classes of runes of package \<open>unicode\<close>, which depend on its release.
\<close>

record go_world =
  type_table :: "go_type list"
  number_type :: go_type
  raw_message_type :: go_type
  read_only_text_types :: "go_type list"
  letter_rune :: "nat \<Rightarrow> bool"
  digit_rune_class :: "nat \<Rightarrow> bool"
  size_of :: "go_type \<Rightarrow> nat"

text \<open>\<open>typ.Elem()\<close> of a reference; every number a type holds is one of the table.\<close>

definition type_ref :: "'w go_world_scheme \<Rightarrow> type_id \<Rightarrow> go_type" where
  "type_ref W i = (if i < length (type_table W) then type_table W ! i else InterfaceType plain_info)"

section \<open>Kinds\<close>

fun kind_of_scalar :: "scalar_kind \<Rightarrow> value_kind" where
  "kind_of_scalar StringKind = KindString"
| "kind_of_scalar BoolKind = KindBool"
| "kind_of_scalar (ComplexKind _) = KindInvalid"
| "kind_of_scalar _ = KindNumber"

definition kind_of_type :: "'w go_world_scheme \<Rightarrow> go_type \<Rightarrow> value_kind" where
  "kind_of_type W t =
     (if t = number_type W then KindNumber
      else case t of
        ScalarType _ k \<Rightarrow> kind_of_scalar k
      | MapType _ _ _ \<Rightarrow> KindObject
      | StructType _ _ \<Rightarrow> KindObject
      | SliceType _ _ \<Rightarrow> KindArray
      | ArrayType _ _ _ \<Rightarrow> KindArray
      | _ \<Rightarrow> KindInvalid)"

section \<open>What a copy of a value would share\<close>

fun holds_reference :: "go_type \<Rightarrow> bool" where
  "holds_reference (ArrayType _ _ t) = holds_reference t"
| "holds_reference (StructType _ fs) = list_ex (\<lambda>ft. holds_reference (snd ft)) fs"
| "holds_reference (ScalarType _ _) = False"
| "holds_reference _ = True"

definition is_lock :: "go_type \<Rightarrow> bool" where
  "is_lock t \<longleftrightarrow> is_struct t \<and> ti_pointer_locker (info_of t)"

fun contains_lock :: "go_type \<Rightarrow> bool" where
  "contains_lock (ArrayType _ _ t) = contains_lock t"
| "contains_lock (StructType i fs) \<longleftrightarrow> is_lock (StructType i fs) \<or> list_ex (\<lambda>ft. contains_lock (snd ft)) fs"
| "contains_lock _ = False"

fun copyable_type :: "'w go_world_scheme \<Rightarrow> go_type \<Rightarrow> bool" where
  "copyable_type W (ArrayType _ _ t) = copyable_type W t"
| "copyable_type W (SliceType _ e) \<longleftrightarrow> \<not> holds_reference (type_ref W e) \<and> \<not> contains_lock (type_ref W e)"
| "copyable_type W (StructType i fs) \<longleftrightarrow> \<not> is_lock (StructType i fs)
     \<and> list_all (\<lambda>ft. if is_exported (fst ft) then copyable_type W (snd ft)
         else \<not> holds_reference (snd ft) \<and> \<not> contains_lock (snd ft)) fs"
| "copyable_type W (ScalarType _ _) = True"
| "copyable_type W _ = False"

text \<open>The verdict of \<open>copyableType\<close> is cached per type, which changes no answer.\<close>

definition isolatable_text_type :: "'w go_world_scheme \<Rightarrow> go_type \<Rightarrow> bool" where
  "isolatable_text_type W t \<longleftrightarrow> t \<in> set (read_only_text_types W) \<or> copyable_type W t"

section \<open>Nodes a value holds inline\<close>

definition max_inline_nodes :: int where
  "max_inline_nodes = 2147483647"

definition saturating_add :: "int \<Rightarrow> int \<Rightarrow> int" where
  "saturating_add l r = (if max_inline_nodes - r < l then max_inline_nodes else l + r)"

definition saturating_mul :: "int \<Rightarrow> int \<Rightarrow> int" where
  "saturating_mul l r =
     (if l = 0 \<or> r = 0 then 0
      else if max_inline_nodes div r < l then max_inline_nodes
      else l * r)"

fun count_inline_nodes :: "go_type \<Rightarrow> int" where
  "count_inline_nodes (ArrayType _ n t) = saturating_mul (int n) (count_inline_nodes t)"
| "count_inline_nodes (StructType _ fs) =
     max (foldl (\<lambda>count ft. saturating_add count (count_inline_nodes (snd ft))) 0 fs) 1"
| "count_inline_nodes _ = 1"

text \<open>The count without a bound.\<close>

fun inline_nodes_exact :: "go_type \<Rightarrow> int" where
  "inline_nodes_exact (ArrayType _ n t) = int n * inline_nodes_exact t"
| "inline_nodes_exact (StructType _ fs) = max (sum_list (map (\<lambda>ft. inline_nodes_exact (snd ft)) fs)) 1"
| "inline_nodes_exact _ = 1"

lemma inline_nodes_exact_nonneg: "0 \<le> inline_nodes_exact t"
  by (induction t rule: inline_nodes_exact.induct) auto

lemma saturating_add_min:
  "0 \<le> l \<Longrightarrow> 0 \<le> r \<Longrightarrow> saturating_add (min l max_inline_nodes) (min r max_inline_nodes) = min (l + r) max_inline_nodes"
  by (auto simp: saturating_add_def max_inline_nodes_def)

lemma int_div_less_iff:
  fixes m l r :: int assumes "0 < r" shows "m div r < l \<longleftrightarrow> m < l * r"
proof -
  have m: "m = (m div r) * r + m mod r" "0 \<le> m mod r" "m mod r < r" using assms by simp_all
  show ?thesis
  proof (cases "m div r < l")
    case True
    then have "(m div r + 1) * r \<le> l * r" using assms by (intro mult_right_mono) auto
    then show ?thesis using True m unfolding distrib_right mult_1 by linarith
  next
    case False
    then have "l * r \<le> (m div r) * r" using assms by (intro mult_right_mono) auto
    then show ?thesis using False m by linarith
  qed
qed

lemma saturating_mul_min:
  assumes "0 \<le> l" and "0 \<le> r"
  shows "saturating_mul l (min r max_inline_nodes) = min (l * r) max_inline_nodes"
proof -
  let ?r = "min r max_inline_nodes"
  consider "l = 0 \<or> r = 0" | "0 < l" "0 < r" using assms by linarith
  then show ?thesis
  proof cases
    case 1
    then show ?thesis by (auto simp: saturating_mul_def max_inline_nodes_def)
  next
    case 2
    then have r: "0 < ?r" by (simp add: max_inline_nodes_def)
    have "max_inline_nodes div ?r < l \<longleftrightarrow> max_inline_nodes < l * ?r"
      by (rule int_div_less_iff [OF r])
    moreover have "min (l * ?r) max_inline_nodes = min (l * r) max_inline_nodes"
    proof (cases "r \<le> max_inline_nodes")
      case False
      have "max_inline_nodes \<le> l * max_inline_nodes" "max_inline_nodes \<le> l * r"
        using 2 False mult_mono [of 1 l max_inline_nodes r] mult_right_mono [of 1 l max_inline_nodes]
        by (simp_all add: max_inline_nodes_def)
      then show ?thesis using False by simp
    qed simp
    ultimately show ?thesis using 2 r by (auto simp: saturating_mul_def)
  qed
qed

lemma foldl_saturating:
  assumes "\<forall>ft \<in> set fs. count_inline_nodes (snd ft) = min (inline_nodes_exact (snd ft)) max_inline_nodes" and "0 \<le> c"
  shows "foldl (\<lambda>count ft. saturating_add count (count_inline_nodes (snd ft))) (min c max_inline_nodes) fs
    = min (c + sum_list (map (\<lambda>ft. inline_nodes_exact (snd ft)) fs)) max_inline_nodes"
  using assms
proof (induction fs arbitrary: c)
  case (Cons ft fs)
  obtain f t where ft: "ft = (f, t)" by (cases ft)
  have "saturating_add (min c max_inline_nodes) (count_inline_nodes t) = min (c + inline_nodes_exact t) max_inline_nodes"
    using Cons.prems saturating_add_min [OF _ inline_nodes_exact_nonneg] by (simp add: ft)
  then show ?case using Cons.IH [of "c + inline_nodes_exact t"] Cons.prems inline_nodes_exact_nonneg [of t]
    by (simp add: ft add.assoc)
qed simp

text \<open>
  The nodes a value is charged before it is copied are the exact number of scalars,
  references and empty structs it holds inline, cut off at the largest 32-bit integer:
  nothing wraps around.
\<close>

lemma count_inline_nodes_min: "count_inline_nodes t = min (inline_nodes_exact t) max_inline_nodes"
proof (induction t)
  case (ArrayType i n t)
  then show ?case using saturating_mul_min [OF _ inline_nodes_exact_nonneg] by simp
next
  case (StructType i fs)
  then have "\<forall>ft \<in> set fs. count_inline_nodes (snd ft) = min (inline_nodes_exact (snd ft)) max_inline_nodes" by force
  from foldl_saturating [OF this, of 0] show ?case by (simp add: max_inline_nodes_def)
qed (simp_all add: max_inline_nodes_def)

lemma count_inline_nodes_nonneg: "0 \<le> count_inline_nodes t"
  using inline_nodes_exact_nonneg by (simp add: count_inline_nodes_min max_inline_nodes_def)

lemma saturating_mul_nonneg: "0 \<le> l \<Longrightarrow> 0 \<le> r \<Longrightarrow> 0 \<le> saturating_mul l r"
  by (simp add: saturating_mul_def max_inline_nodes_def)

section \<open>Copyable types\<close>

text \<open>The types laid out inside a value of a type, the type itself first.\<close>

fun inline_types :: "go_type \<Rightarrow> go_type list" where
  "inline_types (ArrayType i n t) = ArrayType i n t # inline_types t"
| "inline_types (StructType i fs) = StructType i fs # concat (map (\<lambda>ft. inline_types (snd ft)) fs)"
| "inline_types t = [t]"

lemma inline_types_struct:
  "set (inline_types (StructType i fs)) = insert (StructType i fs) (\<Union>t \<in> snd ` set fs. set (inline_types t))"
  by auto

lemma inline_types_self [simp]: "t \<in> set (inline_types t)"
  by (cases t) auto

lemma inline_types_trans: "t' \<in> set (inline_types t) \<Longrightarrow> set (inline_types t') \<subseteq> set (inline_types t)"
proof (induction t)
  case (StructType i fs)
  show ?case
  proof (cases "t' = StructType i fs")
    case False
    then obtain ft where ft: "ft \<in> set fs" "t' \<in> set (inline_types (snd ft))"
      using StructType.prems unfolding inline_types_struct by auto
    then have "set (inline_types t') \<subseteq> set (inline_types (snd ft))"
      using StructType.IH [of ft "snd ft"] by (simp add: snds.simps)
    then show ?thesis using ft(1) unfolding inline_types_struct by blast
  qed simp
qed auto

definition points_elsewhere :: "go_type \<Rightarrow> bool" where
  "points_elsewhere t \<longleftrightarrow> (case t of ScalarType _ _ \<Rightarrow> False | ArrayType _ _ _ \<Rightarrow> False | StructType _ _ \<Rightarrow> False | _ \<Rightarrow> True)"

lemma holds_reference_inline: "holds_reference t \<longleftrightarrow> (\<exists>t' \<in> set (inline_types t). points_elsewhere t')"
  by (induction t rule: holds_reference.induct) (auto simp: list_ex_iff points_elsewhere_def)

lemma contains_lock_inline: "contains_lock t \<longleftrightarrow> (\<exists>t' \<in> set (inline_types t). is_lock t')"
  by (induction t rule: contains_lock.induct) (auto simp: list_ex_iff is_lock_def)

end
