(* ===== verification/StructFields.thy ===== *)
theory StructFields
  imports GoTypes Masker "HOL-Library.Multiset" "HOL-Library.Product_Lexorder"
begin

text \<open>
  The fields of a struct the walker visits (\<open>visibleFields\<close> and \<open>collectFields\<close> of
  \<open>walk.go\<close>) and what is compiled for each of them (\<open>struct_metadata.go\<close>): names and
  promotions follow \<open>encoding/json\<close>.
\<close>

section \<open>Tags\<close>

abbreviation tag_lookup :: "struct_field \<Rightarrow> bytes \<Rightarrow> bytes option" where
  "tag_lookup f \<equiv> map_of (sf_tag f)"

definition valid_json_tag_name :: "'w go_world_scheme \<Rightarrow> bytes \<Rightarrow> bool" where
  "valid_json_tag_name W name \<longleftrightarrow> name \<noteq> []
     \<and> list_all (\<lambda>r. r \<in> set (map byte ''!#$%&()*+-./:;<=>?@[]^_{|}~ '') \<or> letter_rune W r \<or> digit_rune_class W r) (runes name)"

abbreviation tag_name :: "bytes \<Rightarrow> bytes" where
  "tag_name tag \<equiv> fst (cut CHR '','' tag)"

text \<open>The name and whether the field is omitted.\<close>

definition json_field_name :: "'w go_world_scheme \<Rightarrow> struct_field \<Rightarrow> bytes \<times> bool" where
  "json_field_name W f = (case tag_lookup f ''json'' of
       Some tag \<Rightarrow>
         if tag = ''-'' then ([], True)
         else if valid_json_tag_name W (tag_name tag) then (tag_name tag, False)
         else (sf_name f, False)
     | None \<Rightarrow> (sf_name f, False))"

definition json_field_tagged :: "'w go_world_scheme \<Rightarrow> struct_field \<Rightarrow> bool" where
  "json_field_tagged W f \<longleftrightarrow> (case tag_lookup f ''json'' of
       None \<Rightarrow> False | Some tag \<Rightarrow> valid_json_tag_name W (tag_name tag) \<and> tag \<noteq> ''-'')"

definition ambiguous_json_tag :: bytes where
  "ambiguous_json_tag = '' ambiguous json name''"

definition ambiguous_json_name :: "'w go_world_scheme \<Rightarrow> struct_field \<Rightarrow> bool" where
  "ambiguous_json_name W f \<longleftrightarrow> (case tag_lookup f ''json'' of
       None \<Rightarrow> False
     | Some tag \<Rightarrow> tag \<noteq> ''-'' \<and> tag_name tag \<noteq> [] \<and> \<not> valid_json_tag_name W (tag_name tag))"

definition struct_mask_tag :: "struct_field \<Rightarrow> bytes \<Rightarrow> bytes" where
  "struct_mask_tag f name = (case tag_lookup f name of None \<Rightarrow> [] | Some value \<Rightarrow> value)"

section \<open>Candidates\<close>

record field_candidate =
  fc_field :: struct_field
  fc_type :: go_type
  fc_index :: "nat list"
  fc_depth :: nat
  fc_tagged :: bool

text \<open>The type of an embedding, through one pointer.\<close>

definition embedded_type :: "'w go_world_scheme \<Rightarrow> go_type \<Rightarrow> go_type" where
  "embedded_type W t = (case t of PointerType _ e \<Rightarrow> type_ref W e | _ \<Rightarrow> t)"

text \<open>A field the walker cannot reach: unexported, and no embedding of a struct.\<close>

definition hidden_field :: "'w go_world_scheme \<Rightarrow> struct_field \<Rightarrow> go_type \<Rightarrow> bool" where
  "hidden_field W f t \<longleftrightarrow> \<not> is_exported f \<and> \<not> (sf_anonymous f \<and> is_struct (embedded_type W t))"

definition promotes :: "'w go_world_scheme \<Rightarrow> struct_field \<Rightarrow> go_type \<Rightarrow> bool" where
  "promotes W f t \<longleftrightarrow> sf_anonymous f \<and> \<not> json_field_tagged W f \<and> is_struct (embedded_type W t)"

text \<open>The types that can be reached from a list of field types through the table.\<close>

definition known_types :: "'w go_world_scheme \<Rightarrow> go_type list \<Rightarrow> go_type set" where
  "known_types W ts = (\<Union>t \<in> set (type_table W) \<union> set ts. set (inline_types t))"

lemma known_types_finite: "finite (known_types W ts)"
  by (simp add: known_types_def)

lemma known_types_embedded:
  assumes "is_struct (embedded_type W t)"
  shows "known_types W [embedded_type W t] \<subseteq> known_types W (t # ts)"
proof -
  have "embedded_type W t = t \<or> embedded_type W t \<in> set (type_table W)"
    using assms by (auto simp: embedded_type_def type_ref_def split: go_type.splits if_splits)
  then show ?thesis by (auto simp: known_types_def)
qed

lemma known_types_fields:
  "known_types W (map snd fs) \<subseteq> known_types W [StructType i fs]"
  by (auto simp: known_types_def)

lemma known_types_self: "t \<in> known_types W [t]"
  by (simp add: known_types_def)

definition collect_measure ::
    "('w go_world_scheme \<times> go_type \<times> nat list \<times> nat \<times> go_type list
      + 'w go_world_scheme \<times> nat \<times> (struct_field \<times> go_type) list \<times> nat list \<times> nat \<times> go_type list) \<Rightarrow> nat \<times> nat" where
  "collect_measure x = (case x of
       Inl (W, t, _, _, stack) \<Rightarrow> (card (known_types W [t] - set stack), 0)
     | Inr (W, _, fs, _, _, stack) \<Rightarrow> (card (known_types W (map snd fs) - set stack), Suc (length fs)))"

text \<open>
  \<open>collectFields\<close>; \<open>stack\<close> holds the structs being collected and stops a struct that
  embeds a pointer to itself.
\<close>

function (sequential) collect_fields ::
    "'w go_world_scheme \<Rightarrow> go_type \<Rightarrow> nat list \<Rightarrow> nat \<Rightarrow> go_type list \<Rightarrow> field_candidate list"
  and collect_from ::
    "'w go_world_scheme \<Rightarrow> nat \<Rightarrow> (struct_field \<times> go_type) list \<Rightarrow> nat list \<Rightarrow> nat \<Rightarrow> go_type list \<Rightarrow> field_candidate list" where
  "collect_fields W (StructType i fs) pre depth stack =
     (if StructType i fs \<in> set stack then []
      else collect_from W 0 fs pre depth (StructType i fs # stack))"
| "collect_fields W t pre depth stack = []"
| "collect_from W i [] pre depth stack = []"
| "collect_from W i ((f, t) # fs) pre depth stack =
     (if hidden_field W f t \<or> snd (json_field_name W f) then []
      else if promotes W f t then collect_fields W (embedded_type W t) (pre @ [i]) (depth + 1) stack
      else [\<lparr>fc_field = f, fc_type = t, fc_index = pre @ [i], fc_depth = depth, fc_tagged = json_field_tagged W f\<rparr>])
     @ collect_from W (Suc i) fs pre depth stack"
  by pat_completeness auto

termination
proof (relation "inv_image (less_than <*lex*> less_than) collect_measure", goal_cases)
  case 1
  then show ?case by (intro wf_inv_image wf_lex_prod wf_less_than)
next
  case (2 W i fs pre depth stack)
  have "card (known_types W (map snd fs) - insert (StructType i fs) (set stack))
      < card (known_types W [StructType i fs] - set stack)"
    using 2 known_types_fields known_types_self
    by (intro psubset_card_mono finite_Diff known_types_finite) blast
  then show ?case by (simp add: collect_measure_def)
next
  case (3 W i f t fs pre depth stack)
  then have "known_types W [embedded_type W t] - set stack \<subseteq> known_types W (t # map snd fs) - set stack"
    using known_types_embedded [of W t "map snd fs"] by (auto simp: promotes_def)
  then have "card (known_types W [embedded_type W t] - set stack) \<le> card (known_types W (t # map snd fs) - set stack)"
    by (intro card_mono finite_Diff known_types_finite)
  then show ?case by (auto simp: collect_measure_def le_less)
next
  case (4 W i f t fs pre depth stack)
  have "card (known_types W (map snd fs) - set stack) \<le> card (known_types W (t # map snd fs) - set stack)"
    by (intro card_mono finite_Diff known_types_finite) (auto simp: known_types_def)
  then show ?case by (auto simp: collect_measure_def le_less)
qed

section \<open>Visible fields\<close>

abbreviation candidate_name :: "'w go_world_scheme \<Rightarrow> field_candidate \<Rightarrow> bytes" where
  "candidate_name W c \<equiv> fst (json_field_name W (fc_field c))"

text \<open>\<open>compareFieldCandidates\<close>, as a key that orders the same way.\<close>

definition candidate_key :: "field_candidate \<Rightarrow> bytes \<times> nat \<times> nat list" where
  "candidate_key c = (sf_name (fc_field c), length (fc_index c), fc_index c)"

fun compare_lists :: "'a::linorder list \<Rightarrow> 'a list \<Rightarrow> int" where
  "compare_lists [] [] = 0"
| "compare_lists [] _ = - 1"
| "compare_lists _ [] = 1"
| "compare_lists (x # xs) (y # ys) = (if x \<noteq> y then (if x < y then - 1 else 1) else compare_lists xs ys)"

definition compare_field_candidates :: "field_candidate \<Rightarrow> field_candidate \<Rightarrow> int" where
  "compare_field_candidates l r =
     (let result = compare_lists (sf_name (fc_field l)) (sf_name (fc_field r)) in
      if result \<noteq> 0 then result
      else if length (fc_index l) \<noteq> length (fc_index r) then
        (if length (fc_index l) < length (fc_index r) then - 1 else 1)
      else compare_lists (fc_index l) (fc_index r))"

definition named_group :: "'w go_world_scheme \<Rightarrow> field_candidate list \<Rightarrow> bytes \<Rightarrow> field_candidate list" where
  "named_group W cs name = filter (\<lambda>c. candidate_name W c = name) cs"

definition min_field_depth :: "field_candidate list \<Rightarrow> nat" where
  "min_field_depth cands = foldl (\<lambda>least c. if fc_depth c < least then fc_depth c else least) (fc_depth (hd cands)) (tl cands)"

definition best_fields :: "field_candidate list \<Rightarrow> field_candidate list" where
  "best_fields cands =
     (let best = filter (\<lambda>c. fc_depth c = min_field_depth cands) cands;
          tagged = filter fc_tagged best in
      if length tagged = 1 then tagged else best)"

text \<open>The loop over the names in the order \<open>names\<close> of the map, and the two sorts.\<close>

definition visible_in_order ::
    "'w go_world_scheme \<Rightarrow> field_candidate list \<Rightarrow> bytes list \<Rightarrow> field_candidate list \<times> field_candidate list list" where
  "visible_in_order W cs names =
     (let groups = map (\<lambda>name. best_fields (named_group W cs name)) names in
      (sort_key candidate_key (map hd (filter (\<lambda>best. \<not> 1 < length best) groups)),
       sort_key (\<lambda>best. candidate_key (hd best)) (filter (\<lambda>best. 1 < length best) groups)))"

definition visible_fields ::
    "'w go_world_scheme \<Rightarrow> go_type \<Rightarrow> field_candidate list \<times> field_candidate list list" where
  "visible_fields W t =
     (let cs = collect_fields W t [] 0 [] in visible_in_order W cs (remdups (map (candidate_name W) cs)))"

section \<open>Where a candidate lies\<close>

text \<open>
  The field at the end of an index, with its type, when every field on the way is one the
  walker may enter; embedded pointers are followed.
\<close>

fun field_at :: "'w go_world_scheme \<Rightarrow> go_type \<Rightarrow> nat list \<Rightarrow> (struct_field \<times> go_type) option" where
  "field_at W t [] = None"
| "field_at W t (i # is) = (case embedded_type W t of
       StructType _ fs \<Rightarrow>
         if i < length fs \<and> \<not> hidden_field W (fst (fs ! i)) (snd (fs ! i))
         then (if is = [] then Some (fs ! i) else field_at W (snd (fs ! i)) is) else None
     | _ \<Rightarrow> None)"

definition placed :: "'w go_world_scheme \<Rightarrow> (struct_field \<times> go_type) list \<Rightarrow> nat \<Rightarrow> nat list \<Rightarrow> nat \<Rightarrow> field_candidate \<Rightarrow> bool" where
  "placed W fs i pre depth c \<longleftrightarrow> (\<exists>j idx. fc_index c = pre @ (i + j) # idx \<and> j < length fs
     \<and> fc_depth c = depth + length idx \<and> \<not> hidden_field W (fst (fs ! j)) (snd (fs ! j))
     \<and> (if idx = [] then fs ! j = (fc_field c, fc_type c) else field_at W (snd (fs ! j)) idx = Some (fc_field c, fc_type c)))"

lemma placed_Suc: "placed W fs (Suc i) pre depth c \<Longrightarrow> placed W (ft # fs) i pre depth c"
  unfolding placed_def by (elim exE conjE) (rule_tac x = "Suc j" in exI, rule_tac x = idx in exI, simp)

lemma placed_here: "\<not> hidden_field W f t \<Longrightarrow> placed W ((f, t) # fs) i pre depth
    \<lparr>fc_field = f, fc_type = t, fc_index = pre @ [i], fc_depth = depth, fc_tagged = b\<rparr>"
  unfolding placed_def by (rule exI [of _ 0], rule exI [of _ "[]"]) simp

lemma placed_below:
  assumes "placed W gs 0 (pre @ [i]) (Suc depth) c" and "embedded_type W t = StructType k gs" and "\<not> hidden_field W f t"
  shows "placed W ((f, t) # fs) i pre depth c"
proof -
  obtain j idx where c: "fc_index c = (pre @ [i]) @ (0 + j) # idx" "j < length gs" "fc_depth c = Suc depth + length idx"
      "\<not> hidden_field W (fst (gs ! j)) (snd (gs ! j))" "if idx = [] then gs ! j = (fc_field c, fc_type c) else field_at W (snd (gs ! j)) idx = Some (fc_field c, fc_type c)"
    using assms(1) unfolding placed_def by blast
  show ?thesis unfolding placed_def
    by (rule exI [of _ 0], rule exI [of _ "j # idx"]) (use c assms(2,3) in \<open>auto split: if_splits\<close>)
qed

lemma placed_prefix: "placed W fs i pre depth c \<Longrightarrow> \<exists>j idx. fc_index c = pre @ (i + j) # idx"
  unfolding placed_def by blast

lemma collect_placed:
  "is_struct t \<Longrightarrow> (\<exists>k fs. t = StructType k fs \<and> (\<forall>c \<in> set (collect_fields W t pre depth stack). placed W fs 0 pre depth c))
     \<and> distinct (map fc_index (collect_fields W t pre depth stack))"
  "(\<forall>c \<in> set (collect_from W i fs pre depth stack). placed W fs i pre depth c)
     \<and> distinct (map fc_index (collect_from W i fs pre depth stack))"
proof (induction W t pre depth stack and W i fs pre depth stack rule: collect_fields_collect_from.induct)
  case (4 W i f t fs pre depth stack)
  let ?here = "if hidden_field W f t \<or> snd (json_field_name W f) then []
      else if promotes W f t then collect_fields W (embedded_type W t) (pre @ [i]) (depth + 1) stack
      else [\<lparr>fc_field = f, fc_type = t, fc_index = pre @ [i], fc_depth = depth, fc_tagged = json_field_tagged W f\<rparr>]"
  have here: "(\<forall>c \<in> set ?here. placed W ((f, t) # fs) i pre depth c \<and> (\<exists>idx. fc_index c = pre @ i # idx))
      \<and> distinct (map fc_index ?here)"
  proof (cases "\<not> (hidden_field W f t \<or> snd (json_field_name W f)) \<and> promotes W f t")
    case True
    then have "is_struct (embedded_type W t)" by (simp add: promotes_def)
    with "4.IH"(1) True obtain k gs where gs: "embedded_type W t = StructType k gs"
        "\<forall>c \<in> set (collect_fields W (embedded_type W t) (pre @ [i]) (depth + 1) stack). placed W gs 0 (pre @ [i]) (depth + 1) c"
        "distinct (map fc_index (collect_fields W (embedded_type W t) (pre @ [i]) (depth + 1) stack))"
      by blast
    have "placed W ((f, t) # fs) i pre depth c \<and> (\<exists>idx. fc_index c = pre @ i # idx)"
      if "c \<in> set (collect_fields W (embedded_type W t) (pre @ [i]) (depth + 1) stack)" for c
    proof -
      have "placed W gs 0 (pre @ [i]) (Suc depth) c" using gs(2) that by auto
      from placed_below [OF this gs(1), of f fs] True placed_prefix [OF this] show ?thesis by auto
    qed
    then show ?thesis using True gs(3) by auto
  next
    case False
    then show ?thesis using placed_here by auto
  qed
  have rest: "\<forall>c \<in> set (collect_from W (Suc i) fs pre depth stack).
      placed W ((f, t) # fs) i pre depth c \<and> (\<forall>idx. fc_index c \<noteq> pre @ i # idx)"
  proof
    fix c assume "c \<in> set (collect_from W (Suc i) fs pre depth stack)"
    then have p: "placed W fs (Suc i) pre depth c" using "4.IH"(2) by blast
    from placed_Suc [OF this] placed_prefix [OF this]
    show "placed W ((f, t) # fs) i pre depth c \<and> (\<forall>idx. fc_index c \<noteq> pre @ i # idx)" by auto
  qed
  have split: "collect_from W i ((f, t) # fs) pre depth stack = ?here @ collect_from W (Suc i) fs pre depth stack"
    by (rule collect_from.simps(2))
  have "distinct (map fc_index (?here @ collect_from W (Suc i) fs pre depth stack))"
    unfolding map_append distinct_append
  proof (intro conjI)
    show "set (map fc_index ?here) \<inter> set (map fc_index (collect_from W (Suc i) fs pre depth stack)) = {}"
    proof (rule equals0I)
      fix x assume "x \<in> set (map fc_index ?here) \<inter> set (map fc_index (collect_from W (Suc i) fs pre depth stack))"
      then obtain c d where "c \<in> set ?here" "d \<in> set (collect_from W (Suc i) fs pre depth stack)"
          "fc_index c = x" "fc_index d = x"
        by (auto simp del: set_append)
      then show False using here rest by metis
    qed
  qed (use here "4.IH"(2) in blast)+
  moreover have "placed W ((f, t) # fs) i pre depth c"
    if "c \<in> set (?here @ collect_from W (Suc i) fs pre depth stack)" for c
    using that here rest unfolding set_append by blast
  ultimately show ?case unfolding split by blast
qed auto

text \<open>Every candidate's index leads to it from the struct, and no two have the same.\<close>

lemma collected_field_at:
  assumes "c \<in> set (collect_fields W t [] 0 [])"
  shows "field_at W t (fc_index c) = Some (fc_field c, fc_type c)" and "length (fc_index c) = Suc (fc_depth c)"
proof -
  obtain k fs where t: "t = StructType k fs" using assms by (cases t) auto
  then have "placed W fs 0 [] 0 c" using collect_placed(1) [of t W "[]" 0 "[]"] assms by auto
  then show "field_at W t (fc_index c) = Some (fc_field c, fc_type c)" "length (fc_index c) = Suc (fc_depth c)"
    by (auto simp: placed_def t embedded_type_def split: if_splits)
qed

lemma collected_distinct: "distinct (map fc_index (collect_fields W t [] 0 []))"
  using collect_placed(1) [of t W "[]" 0 "[]"] by (cases t) auto

section \<open>The comparison\<close>

lemma compare_lists_order: "(compare_lists xs ys < 0) = (xs < ys) \<and> (compare_lists xs ys = 0) = (xs = ys)"
  by (induction xs ys rule: compare_lists.induct) auto

lemma compare_is_key_order:
  "(compare_field_candidates l r < 0) = (candidate_key l < candidate_key r)"
  "(compare_field_candidates l r = 0) = (candidate_key l = candidate_key r)"
  using compare_lists_order [of "sf_name (fc_field l)" "sf_name (fc_field r)"]
    compare_lists_order [of "fc_index l" "fc_index r"]
  by (auto simp: compare_field_candidates_def candidate_key_def Let_def less_prod_def)

section \<open>Which field wins a name\<close>

lemma foldl_least:
  fixes m :: nat defines "least \<equiv> \<lambda>cs m. foldl (\<lambda>least c. if fc_depth c < least then fc_depth c else least) m cs"
  shows "least cs m \<le> m \<and> (\<forall>c \<in> set cs. least cs m \<le> fc_depth c) \<and> (least cs m = m \<or> (\<exists>c \<in> set cs. fc_depth c = least cs m))"
proof (induction cs arbitrary: m)
  case (Cons c cs)
  have "least (c # cs) m = least cs (if fc_depth c < m then fc_depth c else m)" by (simp add: least_def)
  then show ?case using Cons.IH [of "if fc_depth c < m then fc_depth c else m"] by (auto split: if_splits)
qed (simp add: least_def)

lemma min_field_depth_least:
  assumes "cands \<noteq> []"
  shows "\<exists>c \<in> set cands. fc_depth c = min_field_depth cands" and "c \<in> set cands \<Longrightarrow> min_field_depth cands \<le> fc_depth c"
proof -
  obtain x xs where "cands = x # xs" using assms by (cases cands) auto
  then show "\<exists>c \<in> set cands. fc_depth c = min_field_depth cands" "c \<in> set cands \<Longrightarrow> min_field_depth cands \<le> fc_depth c"
    using foldl_least [where m = "fc_depth x" and cs = xs] by (auto simp: min_field_depth_def)
qed

text \<open>
  The field of a name is the shallowest, and where several are, the only one of them
  that a tag names.
\<close>

definition dominant :: "'w go_world_scheme \<Rightarrow> field_candidate list \<Rightarrow> field_candidate \<Rightarrow> bool" where
  "dominant W cs c \<longleftrightarrow> c \<in> set cs \<and> (\<forall>d \<in> set cs. candidate_name W d = candidate_name W c \<and> d \<noteq> c \<longrightarrow>
     fc_depth c < fc_depth d \<or> fc_depth c = fc_depth d \<and> fc_tagged c \<and> \<not> fc_tagged d)"

lemma best_fields_subset: "set (best_fields cands) \<subseteq> set cands"
  by (auto simp: best_fields_def Let_def)

lemma best_fields_nonempty:
  assumes "cands \<noteq> []" shows "best_fields cands \<noteq> []"
proof -
  have "filter (\<lambda>c. fc_depth c = min_field_depth cands) cands \<noteq> []"
    using min_field_depth_least(1) [OF assms] by (auto simp: filter_empty_conv)
  then show ?thesis by (auto simp: best_fields_def Let_def)
qed

lemma length_one_distinct:
  "distinct xs \<Longrightarrow> length (filter P xs) = 1 \<longleftrightarrow> (\<exists>x \<in> set xs. P x \<and> (\<forall>y \<in> set xs. P y \<longrightarrow> y = x))"
proof (induction xs)
  case (Cons x xs)
  then show ?case by (auto simp: filter_empty_conv)
qed simp

lemma singleton_list: "distinct xs \<Longrightarrow> xs = [c] \<longleftrightarrow> (\<forall>d. d \<in> set xs \<longleftrightarrow> d = c)"
proof (cases xs)
  case (Cons y ys)
  then show "distinct xs \<Longrightarrow> ?thesis" by (cases ys) (auto, metis)
qed auto

lemma best_fields_single:
  assumes "distinct cands" and c: "c \<in> set cands"
  shows "best_fields cands = [c] \<longleftrightarrow> (\<forall>d \<in> set cands. d \<noteq> c \<longrightarrow>
     fc_depth c < fc_depth d \<or> fc_depth c = fc_depth d \<and> fc_tagged c \<and> \<not> fc_tagged d)" (is "_ \<longleftrightarrow> ?wins")
proof -
  let ?m = "min_field_depth cands"
  have ne: "cands \<noteq> []" using c by auto
  have least: "?m \<le> fc_depth d" if "d \<in> set cands" for d using min_field_depth_least(2) [OF ne that] .
  obtain e where e: "e \<in> set cands" "fc_depth e = ?m" using min_field_depth_least(1) [OF ne] by blast
  have one: "length (filter fc_tagged (filter (\<lambda>c. fc_depth c = ?m) cands)) = 1
      \<longleftrightarrow> (\<exists>x \<in> set cands. (fc_depth x = ?m \<and> fc_tagged x) \<and> (\<forall>y \<in> set cands. fc_depth y = ?m \<and> fc_tagged y \<longrightarrow> y = x))"
    unfolding filter_filter by (rule length_one_distinct [OF assms(1)])
  have wins_least: "fc_depth c = ?m" if ?wins
    using bspec [OF that e(1)] e(2) least [OF c] by (cases "e = c") auto
  show ?thesis
  proof (cases "length (filter fc_tagged (filter (\<lambda>c. fc_depth c = ?m) cands)) = 1")
    case True
    then have b: "best_fields cands = filter fc_tagged (filter (\<lambda>c. fc_depth c = ?m) cands)"
      by (simp add: best_fields_def Let_def)
    obtain x where x: "x \<in> set cands" "fc_depth x = ?m" "fc_tagged x"
        "\<And>y. y \<in> set cands \<Longrightarrow> fc_depth y = ?m \<Longrightarrow> fc_tagged y \<Longrightarrow> y = x"
      using True one by blast
    have "d \<in> set (best_fields cands) \<longleftrightarrow> d = x" for d
      using x(1-3) x(4) [of d] unfolding b by auto
    moreover have "distinct (best_fields cands)" unfolding b using assms(1) by simp
    ultimately have "best_fields cands = [c] \<longleftrightarrow> c = x" by (simp add: singleton_list) metis
    also have "\<dots> \<longleftrightarrow> ?wins"
    proof
      assume "c = x"
      then show ?wins using x least by (metis le_less)
    next
      assume w: ?wins
      show "c = x" using bspec [OF w x(1)] x(2,3) wins_least [OF w] by auto
    qed
    finally show ?thesis .
  next
    case False
    then have b: "best_fields cands = filter (\<lambda>c. fc_depth c = ?m) cands"
      by (simp add: best_fields_def Let_def)
    have "best_fields cands = [c] \<longleftrightarrow> (\<forall>d \<in> set cands. fc_depth d = ?m \<longleftrightarrow> d = c)"
      unfolding b using assms c by (subst singleton_list) auto
    also have "\<dots> \<longleftrightarrow> ?wins"
    proof
      assume "\<forall>d \<in> set cands. fc_depth d = ?m \<longleftrightarrow> d = c"
      then show ?wins using c least by (metis le_less)
    next
      assume w: ?wins
      have "d = c" if "d \<in> set cands" "fc_depth d = ?m" for d
      proof (rule ccontr)
        assume "d \<noteq> c"
        then have "fc_tagged c" using w that wins_least [OF w] by auto
        moreover have "y = c" if "y \<in> set cands" "fc_depth y = ?m" "fc_tagged y" for y
          using bspec [OF w that(1)] that wins_least [OF w] by auto
        ultimately show False using False one c wins_least [OF w] by blast
      qed
      then show "\<forall>d \<in> set cands. fc_depth d = ?m \<longleftrightarrow> d = c" using wins_least [OF w] by auto
    qed
    finally show ?thesis .
  qed
qed

definition all_names :: "'w go_world_scheme \<Rightarrow> field_candidate list \<Rightarrow> bytes list \<Rightarrow> bool" where
  "all_names W cs names \<longleftrightarrow> distinct names \<and> set names = candidate_name W ` set cs"

lemma named_group_mem: "c \<in> set (named_group W cs name) \<longleftrightarrow> c \<in> set cs \<and> candidate_name W c = name"
  by (auto simp: named_group_def)

lemma best_named:
  "d \<in> set (best_fields (named_group W cs name)) \<Longrightarrow> d \<in> set cs \<and> candidate_name W d = name"
  using best_fields_subset named_group_mem by blast

text \<open>The best fields of a name that some field has: one that wins, or several.\<close>

lemma best_named_cases:
  assumes "distinct cs" and "c \<in> set cs"
  shows "best_fields (named_group W cs (candidate_name W c)) = [c] \<longleftrightarrow> dominant W cs c"
    and "best_fields (named_group W cs (candidate_name W c)) \<noteq> []"
proof -
  have g: "distinct (named_group W cs (candidate_name W c))" "c \<in> set (named_group W cs (candidate_name W c))"
    using assms by (simp_all add: named_group_def)
  show "best_fields (named_group W cs (candidate_name W c)) = [c] \<longleftrightarrow> dominant W cs c"
    using assms(2) by (auto simp: best_fields_single [OF g] dominant_def named_group_mem)
  show "best_fields (named_group W cs (candidate_name W c)) \<noteq> []"
    using g(2) by (intro best_fields_nonempty) auto
qed

lemma visible_in_order_results:
  assumes d: "distinct cs" and n: "all_names W cs names"
  shows "set (fst (visible_in_order W cs names)) = {c. dominant W cs c}"
proof -
  have "c \<in> set (fst (visible_in_order W cs names)) \<longleftrightarrow> dominant W cs c" for c
  proof
    assume "c \<in> set (fst (visible_in_order W cs names))"
    then obtain name where name: "name \<in> set names" "\<not> 1 < length (best_fields (named_group W cs name))"
        "c = hd (best_fields (named_group W cs name))"
      by (auto simp: visible_in_order_def Let_def)
    obtain e where e: "e \<in> set cs" "candidate_name W e = name" using name(1) n by (auto simp: all_names_def)
    then have "best_fields (named_group W cs name) = [c]"
      using name(2,3) best_named_cases(2) [OF d e(1), of W] by (cases "best_fields (named_group W cs name)") auto
    moreover from this have "c \<in> set cs" "candidate_name W c = name" using best_named [of c W cs name] by auto
    ultimately show "dominant W cs c" using best_named_cases(1) [OF d, of c W] by simp
  next
    assume w: "dominant W cs c"
    then have c: "c \<in> set cs" by (simp add: dominant_def)
    then have "best_fields (named_group W cs (candidate_name W c)) = [c]" using best_named_cases(1) [OF d] w by blast
    moreover have "candidate_name W c \<in> set names" using n c by (simp add: all_names_def)
    ultimately show "c \<in> set (fst (visible_in_order W cs names))"
      by (force simp: visible_in_order_def Let_def image_iff)
  qed
  then show ?thesis by auto
qed

lemma visible_in_order_conflicts:
  assumes d: "distinct cs" and n: "all_names W cs names"
  shows "set (snd (visible_in_order W cs names)) =
    {best_fields (named_group W cs (candidate_name W c)) | c. c \<in> set cs \<and> \<not> (\<exists>e. dominant W cs e \<and> candidate_name W e = candidate_name W c)}"
proof -
  have "1 < length (best_fields (named_group W cs (candidate_name W c)))
      \<longleftrightarrow> \<not> (\<exists>e. dominant W cs e \<and> candidate_name W e = candidate_name W c)" if c: "c \<in> set cs" for c
  proof -
    let ?best = "best_fields (named_group W cs (candidate_name W c))"
    have ne: "?best \<noteq> []" by (rule best_named_cases(2) [OF d c])
    have "1 < length ?best \<longleftrightarrow> \<not> (\<exists>e. ?best = [e])" using ne by (cases ?best) (auto simp: neq_Nil_conv)
    also have "(\<exists>e. ?best = [e]) \<longleftrightarrow> (\<exists>e. dominant W cs e \<and> candidate_name W e = candidate_name W c)"
    proof
      assume "\<exists>e. ?best = [e]"
      then obtain e where e: "?best = [e]" ..
      then have "e \<in> set cs" "candidate_name W e = candidate_name W c"
        using best_named [of e W cs "candidate_name W c"] by auto
      then show "\<exists>e. dominant W cs e \<and> candidate_name W e = candidate_name W c"
        using best_named_cases(1) [OF d, of e W] e by auto
    next
      assume "\<exists>e. dominant W cs e \<and> candidate_name W e = candidate_name W c"
      then obtain e where e: "dominant W cs e" "candidate_name W e = candidate_name W c" by blast
      then have "?best = [e]" using best_named_cases(1) [OF d, of e W] by (auto simp: dominant_def)
      then show "\<exists>e. ?best = [e]" ..
    qed
    finally show ?thesis .
  qed
  moreover have "set (snd (visible_in_order W cs names)) =
      {best_fields (named_group W cs (candidate_name W c)) | c. c \<in> set cs \<and> 1 < length (best_fields (named_group W cs (candidate_name W c)))}"
    using n by (auto simp: visible_in_order_def Let_def all_names_def)
  ultimately show ?thesis by blast
qed

lemma all_names_remdups: "all_names W cs (remdups (map (candidate_name W) cs))"
  by (simp add: all_names_def)

lemma distinct_collected: "distinct (collect_fields W t [] 0 [])"
  using collected_distinct [of W t] by (simp add: distinct_map)

lemma sort_key_unique: "mset xs = mset ys \<Longrightarrow> inj_on key (set xs) \<Longrightarrow> sort_key key xs = sort_key key ys"
  by (rule sort_key_inj_key_eq) auto

lemma candidate_key_inj: "distinct (map fc_index cs) \<Longrightarrow> inj_on candidate_key (set cs)"
  by (auto simp: distinct_map inj_on_def candidate_key_def)

text \<open>
  The order in which Go's map of names happens to be walked decides nothing: for
  every order of the names, the fields a struct shows and the conflicts it reports are
  the same lists in the same order, whatever structs it embeds.
\<close>

theorem visible_fields_any_order:
  assumes n: "all_names W (collect_fields W t [] 0 []) names"
  shows "visible_in_order W (collect_fields W t [] 0 []) names = visible_fields W t"
proof -
  let ?cs = "collect_fields W t [] 0 []" and ?ns = "remdups (map (candidate_name W) (collect_fields W t [] 0 []))"
  let ?best = "\<lambda>name. best_fields (named_group W ?cs name)"
  have inj: "inj_on candidate_key (set ?cs)" by (intro candidate_key_inj collected_distinct)
  have "mset names = mset ?ns"
    using n all_names_remdups [of W ?cs] by (auto simp: all_names_def set_eq_iff_mset_eq_distinct [symmetric])
  then have m: "mset (map ?best names) = mset (map ?best ?ns)" by simp
  have head: "hd (?best name) \<in> set (?best name)" if "name \<in> set names" for name
  proof -
    obtain c where "c \<in> set ?cs" "candidate_name W c = name" using n \<open>name \<in> set names\<close> by (auto simp: all_names_def)
    then show ?thesis using best_named_cases(2) [OF distinct_collected, of c W t W] by simp
  qed
  have in_cs: "hd (?best name) \<in> set ?cs \<and> candidate_name W (hd (?best name)) = name" if "name \<in> set names" for name
    using best_named [OF head [OF that]] .
  have "sort_key candidate_key (map hd (filter (\<lambda>best. \<not> 1 < length best) (map ?best names)))
      = sort_key candidate_key (map hd (filter (\<lambda>best. \<not> 1 < length best) (map ?best ?ns)))"
    using m in_cs by (intro sort_key_unique inj_on_subset [OF inj]) (auto simp: mset_filter)
  moreover have "sort_key (\<lambda>best. candidate_key (hd best)) (filter (\<lambda>best. 1 < length best) (map ?best names))
      = sort_key (\<lambda>best. candidate_key (hd best)) (filter (\<lambda>best. 1 < length best) (map ?best ?ns))"
  proof (rule sort_key_unique)
    show "inj_on (\<lambda>best. candidate_key (hd best)) (set (filter (\<lambda>best. 1 < length best) (map ?best names)))"
    proof (rule inj_onI)
      fix g h assume g: "g \<in> set (filter (\<lambda>best. 1 < length best) (map ?best names))"
        and h: "h \<in> set (filter (\<lambda>best. 1 < length best) (map ?best names))"
        and eq: "candidate_key (hd g) = candidate_key (hd h)"
      obtain a b where ab: "a \<in> set names" "g = ?best a" "b \<in> set names" "h = ?best b" using g h by auto
      then have "hd g = hd h" using inj_onD [OF inj eq] in_cs by blast
      then have "a = b" using in_cs [OF ab(1)] in_cs [OF ab(3)] ab by metis
      then show "g = h" using ab by simp
    qed
  qed (use m in \<open>simp add: mset_filter\<close>)
  ultimately show ?thesis by (simp add: visible_fields_def visible_in_order_def Let_def)
qed

theorem visible_fields_any_order_witness:
  "let f = (\<lambda>name tag. \<lparr>sf_name = name, sf_pkg_path = [], sf_anonymous = False, sf_tag = tag\<rparr>);
       W = \<lparr>type_table = [], number_type = ScalarType plain_info StringKind,
            raw_message_type = SliceType plain_info 0, read_only_text_types = [],
            letter_rune = (\<lambda>r. True), digit_rune_class = (\<lambda>r. False), size_of = (\<lambda>t. 0)\<rparr>;
       t = StructType plain_info [(f ''A'' [(''json'', ''b'')], ScalarType plain_info BoolKind),
                                  (f ''C'' [], ScalarType plain_info BoolKind)]
   in visible_in_order W (collect_fields W t [] 0 []) [''C'', ''b''] = visible_fields W t"
  unfolding Let_def
  by (rule visible_fields_any_order)
     (simp add: all_names_def hidden_field_def promotes_def json_field_name_def valid_json_tag_name_def
       cut_def runes_ascii is_ascii_def insert_commute)

text \<open>
  C13: A struct shows under each name the one field that wins it, the shallowest and
  where several are equally shallow the only one a tag names; a name no field wins is
  reported as one conflict of at least two fields, so every field's name is shown or
  reported and none is both.
\<close>

theorem visible_fields_win_names:
  "set (fst (visible_fields W t)) = {c. dominant W (collect_fields W t [] 0 []) c}
   \<and> distinct (map (candidate_name W) (fst (visible_fields W t)))
   \<and> (\<forall>g \<in> set (snd (visible_fields W t)). 1 < length g)
   \<and> (\<forall>c \<in> set (collect_fields W t [] 0 []).
        (candidate_name W c \<in> candidate_name W ` set (fst (visible_fields W t)))
        \<noteq> (\<exists>g \<in> set (snd (visible_fields W t)). candidate_name W c = candidate_name W (hd g)))"
proof -
  let ?cs = "collect_fields W t [] 0 []" and ?v = "visible_fields W t"
  let ?ns = "remdups (map (candidate_name W) (collect_fields W t [] 0 []))"
  let ?best = "\<lambda>name. best_fields (named_group W ?cs name)"
  have v: "?v = visible_in_order W ?cs ?ns" by (simp add: visible_fields_def Let_def)
  note results = visible_in_order_results [OF distinct_collected [of W t] all_names_remdups [of W], folded v]
  note conflicts = visible_in_order_conflicts [OF distinct_collected [of W t] all_names_remdups [of W], folded v]
  have name: "candidate_name W (hd (?best name)) = name" if "name \<in> set ?ns" for name
  proof -
    obtain c where "c \<in> set ?cs" "candidate_name W c = name" using \<open>name \<in> set ?ns\<close> by auto
    then have "?best name \<noteq> []" using best_named_cases(2) [OF distinct_collected, of c W t W] by simp
    then show ?thesis using best_named [of "hd (?best name)" W ?cs name] by simp
  qed
  have "distinct (map (candidate_name W) (fst ?v))"
  proof -
    let ?single = "filter (\<lambda>name. \<not> 1 < length (?best name)) ?ns"
    have "map (candidate_name W) (map hd (filter (\<lambda>best. \<not> 1 < length best) (map ?best ?ns)))
        = map (\<lambda>name. candidate_name W (hd (?best name))) ?single"
      unfolding filter_map map_map comp_def ..
    also have "\<dots> = ?single" by (rule map_idI) (use name in \<open>simp only: set_filter mem_Collect_eq\<close>)
    finally have "map (candidate_name W) (map hd (filter (\<lambda>best. \<not> 1 < length best) (map ?best ?ns))) = ?single" .
    then have single: "distinct (map (candidate_name W) (map hd (filter (\<lambda>best. \<not> 1 < length best) (map ?best ?ns))))"
      by (simp only: distinct_filter distinct_remdups)
    have "mset (fst ?v) = mset (map hd (filter (\<lambda>best. \<not> 1 < length best) (map ?best ?ns)))"
      by (simp add: v visible_in_order_def Let_def)
    then have "mset (map (candidate_name W) (fst ?v))
        = mset (map (candidate_name W) (map hd (filter (\<lambda>best. \<not> 1 < length best) (map ?best ?ns))))"
      unfolding mset_map by (rule arg_cong)
    from mset_eq_imp_distinct_iff [OF this] show ?thesis using single by blast
  qed
  moreover have "\<forall>g \<in> set (snd ?v). 1 < length g" by (auto simp: v visible_in_order_def Let_def)
  moreover have "(candidate_name W c \<in> candidate_name W ` set (fst ?v))
      \<noteq> (\<exists>g \<in> set (snd ?v). candidate_name W c = candidate_name W (hd g))" if c: "c \<in> set ?cs" for c
  proof -
    have "(\<exists>g \<in> set (snd ?v). candidate_name W c = candidate_name W (hd g))
        \<longleftrightarrow> \<not> (\<exists>e. dominant W ?cs e \<and> candidate_name W e = candidate_name W c)"
      unfolding conflicts using name c by auto
    then show ?thesis unfolding results by (auto simp: image_iff)
  qed
  ultimately show ?thesis using results by blast
qed

theorem visible_fields_win_names_witness:
  "let f = (\<lambda>name tag. \<lparr>sf_name = name, sf_pkg_path = [], sf_anonymous = False, sf_tag = tag\<rparr>);
       W = \<lparr>type_table = [], number_type = ScalarType plain_info StringKind,
            raw_message_type = SliceType plain_info 0, read_only_text_types = [],
            letter_rune = (\<lambda>r. True), digit_rune_class = (\<lambda>r. False), size_of = (\<lambda>t. 0)\<rparr>;
       t = StructType plain_info [(f ''A'' [(''json'', ''b'')], ScalarType plain_info BoolKind),
                                  (f ''C'' [], ScalarType plain_info BoolKind)]
   in (''b'' \<in> candidate_name W ` set (fst (visible_fields W t)))
    \<noteq> (\<exists>g \<in> set (snd (visible_fields W t)). ''b'' = candidate_name W (hd g))"
proof -
  let ?f = "\<lambda>name tag. \<lparr>sf_name = name, sf_pkg_path = [], sf_anonymous = False, sf_tag = tag\<rparr>"
  let ?W = "\<lparr>type_table = [], number_type = ScalarType plain_info StringKind,
            raw_message_type = SliceType plain_info 0, read_only_text_types = [],
            letter_rune = (\<lambda>r. True), digit_rune_class = (\<lambda>r. False), size_of = (\<lambda>t. 0)\<rparr>"
  let ?t = "StructType plain_info [(?f ''A'' [(''json'', ''b'')], ScalarType plain_info BoolKind),
                                  (?f ''C'' [], ScalarType plain_info BoolKind)]"
  let ?c = "\<lparr>fc_field = ?f ''A'' [(''json'', ''b'')], fc_type = ScalarType plain_info BoolKind, fc_index = [0],
      fc_depth = 0, fc_tagged = True\<rparr>"
  note names = json_field_name_def json_field_tagged_def valid_json_tag_name_def cut_def runes_ascii is_ascii_def
  have c: "?c \<in> set (collect_fields ?W ?t [] 0 [])" "candidate_name ?W ?c = ''b''"
    by (simp_all add: hidden_field_def promotes_def names)
  from visible_fields_win_names [of ?W ?t] c(1) have "(candidate_name ?W ?c \<in> candidate_name ?W ` set (fst (visible_fields ?W ?t)))
      \<noteq> (\<exists>g \<in> set (snd (visible_fields ?W ?t)). candidate_name ?W ?c = candidate_name ?W (hd g))" by blast
  then show ?thesis unfolding Let_def c(2) .
qed

section \<open>Struct metadata\<close>

record static_decision =
  sd_known :: bool
  sd_rule :: rule
  sd_omit :: bool

definition no_static_decision :: static_decision where
  "no_static_decision = \<lparr>sd_known = False, sd_rule = NilRule, sd_omit = False\<rparr>"

text \<open>The rule of a tag is \<open>None\<close> when the tag names none (\<open>tagKnown\<close> is false).\<close>

record field_metadata =
  fm_index :: "nat list"
  fm_json_name :: bytes
  fm_json_omit :: bool
  fm_mask_tag :: bytes
  fm_kind :: value_kind
  fm_tag_rule :: "rule option"
  fm_policy :: static_decision
  fm_flat_scalar :: bool

record conflict_metadata =
  cm_field :: bytes
  cm_conflicting :: "bytes list"

record struct_metadata =
  sm_fields :: "field_metadata list"
  sm_conflicts :: "conflict_metadata list"
  sm_flat_scalar :: bool
  sm_sorted :: "field_metadata list"

definition is_flat_scalar_field :: "field_candidate \<Rightarrow> bool" where
  "is_flat_scalar_field c \<longleftrightarrow> length (fc_index c) = 1 \<and> is_exported (fc_field c)
     \<and> \<not> (ti_text (info_of (fc_type c)) \<or> ti_pointer_text (info_of (fc_type c)))
     \<and> is_basic_scalar (fc_type c)"

definition is_flat_scalar_metadata :: "go_type \<Rightarrow> field_candidate list \<Rightarrow> field_candidate list list \<Rightarrow> bool" where
  "is_flat_scalar_metadata t candidates conflicts \<longleftrightarrow>
     is_struct t \<and> conflicts = [] \<and> candidates \<noteq> [] \<and> list_all is_flat_scalar_field candidates"

fun is_static_key_policy :: "policy \<Rightarrow> bool" where
  "is_static_key_policy (KeyPol _) = True"
| "is_static_key_policy (ChainPolicy ps) = list_all is_static_key_policy ps"
| "is_static_key_policy _ = False"

definition static_policy_decision :: "unicode_tables \<Rightarrow> policy \<Rightarrow> bytes \<Rightarrow> value_kind \<Rightarrow> static_decision" where
  "static_policy_decision u p key kind =
     (case decide u p (zero_field\<lparr>f_key := key, f_source := SourceStruct, f_kind := kind\<rparr>) of
        Returns d \<Rightarrow> \<lparr>sd_known = True, sd_rule = dec_rule d, sd_omit = dec_omit d\<rparr>
      | _ \<Rightarrow> no_static_decision)"

definition build_field_metadata ::
    "unicode_tables \<Rightarrow> 'w go_world_scheme \<Rightarrow> bytes \<Rightarrow> (bytes \<rightharpoonup> rule) \<Rightarrow> policy \<Rightarrow> field_candidate \<Rightarrow> field_metadata" where
  "build_field_metadata u W tagName tagRules p c =
     (case json_field_name W (fc_field c) of (name, omitted) \<Rightarrow>
        let tag = struct_mask_tag (fc_field c) tagName;
            tag = (if tag = [] \<and> ambiguous_json_name W (fc_field c) then ambiguous_json_tag else tag);
            kind = kind_of_type W (fc_type c) in
        \<lparr>fm_index = fc_index c, fm_json_name = name, fm_json_omit = omitted, fm_mask_tag = tag, fm_kind = kind,
         fm_tag_rule = (if tag \<noteq> [] \<and> tag \<noteq> ''omit'' then tagRules tag else None),
         fm_policy = (if tag = [] \<and> is_static_key_policy p then static_policy_decision u p name kind
           else no_static_decision),
         fm_flat_scalar = is_flat_scalar_field c\<rparr>)"

definition build_conflict_metadata :: "field_candidate list \<Rightarrow> conflict_metadata" where
  "build_conflict_metadata conflict =
     \<lparr>cm_field = sf_name (fc_field (hd conflict)), cm_conflicting = map (\<lambda>c. sf_name (fc_field c)) (tl conflict)\<rparr>"

definition build_struct_metadata ::
    "unicode_tables \<Rightarrow> 'w go_world_scheme \<Rightarrow> go_type \<Rightarrow> bytes \<Rightarrow> (bytes \<rightharpoonup> rule) \<Rightarrow> policy \<Rightarrow> struct_metadata" where
  "build_struct_metadata u W t tagName tagRules p =
     (case visible_fields W t of (candidates, conflicts) \<Rightarrow>
        let fields = map (build_field_metadata u W tagName tagRules p) candidates in
        \<lparr>sm_fields = fields, sm_conflicts = map build_conflict_metadata conflicts,
         sm_flat_scalar = is_flat_scalar_metadata t candidates conflicts,
         sm_sorted = sort_key fm_json_name fields\<rparr>)"

section \<open>Compiled decisions\<close>

text \<open>
  A key policy reads the key alone, and so does a chain of key policies: the decision
  compiled for a field is the one the policy would give it at any path.
\<close>

lemma key_policy_decide_key: "f_key f = f_key g \<Longrightarrow> key_policy_decide u p f = key_policy_decide u p g"
  by (simp only: key_policy_decide_def)

lemma static_decide_key:
  "is_static_key_policy p \<Longrightarrow> \<exists>d. \<forall>f. f_key f = key \<longrightarrow> decide u p f = Returns d"
  "list_all is_static_key_policy ps \<Longrightarrow> \<exists>d. \<forall>f. f_key f = key \<longrightarrow> decide_chain u ps f = Returns d"
proof (induction u p "zero_field\<lparr>f_key := key\<rparr>" and u ps "zero_field\<lparr>f_key := key\<rparr>" rule: decide_decide_chain.induct)
  case (4 u p)
  have "\<forall>f. f_key f = key \<longrightarrow> key_policy_decide u p f = key_policy_decide u p (zero_field\<lparr>f_key := key\<rparr>)"
    by (intro allI impI key_policy_decide_key) simp
  then show ?case unfolding decide.simps by blast
next
  case (9 u p ps)
  then obtain d where d: "\<forall>f. f_key f = key \<longrightarrow> decide u p f = Returns d" by (cases p) auto
  moreover have "\<not> is_nil_policy p" using "9.prems" by (cases p) auto
  ultimately show ?case using 9 by (cases "dec_omit d \<or> \<not> is_nil_rule (dec_rule d)") auto
qed auto

lemma static_policy_decision_known:
  assumes "is_static_key_policy p"
  shows "sd_known (static_policy_decision u p key kind)"
    and "f_key f = key \<Longrightarrow> call_policy u p f = Inr \<lparr>dec_rule = sd_rule (static_policy_decision u p key kind),
        dec_omit = sd_omit (static_policy_decision u p key kind)\<rparr>"
proof -
  obtain d where d: "\<forall>f. f_key f = key \<longrightarrow> decide u p f = Returns d" using static_decide_key(1) [OF assms] by blast
  show "sd_known (static_policy_decision u p key kind)" using d by (simp add: static_policy_decision_def)
  show "f_key f = key \<Longrightarrow> call_policy u p f = Inr \<lparr>dec_rule = sd_rule (static_policy_decision u p key kind),
        dec_omit = sd_omit (static_policy_decision u p key kind)\<rparr>"
    using d by (simp add: static_policy_decision_def call_policy_def)
qed

end
