(* ===== verification/GoValues.thy ===== *)
theory GoValues
  imports StructFields JsonTree
begin

text \<open>
  Go values as \<open>reflect.Value\<close> shows them and the helpers of \<open>walk.go\<close> that read them:
  data lies inline in arrays and structs, behind an address elsewhere.  The memory is
  read only: the walker never writes to its input.
\<close>

section \<open>Data and memory\<close>

text \<open>
  A nil pointer, slice or map has address 0.  A float is the bit
  pattern of its value as a \<open>float64\<close>; an interface holds a type that is no interface.
\<close>

datatype go_data =
    BoolData bool
  | IntData int
  | UintData nat
  | FloatData nat
  | ComplexData nat nat
  | StringData bytes
  | ArrayData "go_data list"
  | StructData "go_data list"
  | PointerData nat
  | SliceData nat nat nat
  | MapData nat
  | InterfaceData "(go_type \<times> go_data) option"
  | ReferenceData nat

text \<open>
  What is stored at an address, read at a type: Go's memory is typed, and a struct and
  its first field have the same address.  The entries of a map are in the order of one
  iteration.  No object lies at or above \<open>mem_top\<close>.
\<close>

record memory =
  mem_cell :: "nat \<Rightarrow> go_type \<Rightarrow> go_data"
  mem_entries :: "nat \<Rightarrow> go_type \<Rightarrow> (go_data \<times> go_data) list"
  mem_top :: nat

text \<open>
  The numbers of the types \<open>string\<close> and \<open>any\<close>, the layout of structs,
  \<open>strconv.FormatFloat(x, fmt, -1, bits)\<close>, and the \<open>MarshalText\<close> methods of the types, given the
  receiver and the memory it refers to.
\<close>

record go_env = go_world +
  string_ref :: type_id
  any_ref :: type_id
  field_offset :: "go_type \<Rightarrow> nat \<Rightarrow> nat"
  format_float :: "char \<Rightarrow> nat \<Rightarrow> nat \<Rightarrow> bytes"
  marshal_method :: "go_type \<Rightarrow> memory \<Rightarrow> go_data \<Rightarrow> bytes outcome"

definition string_type :: go_type where
  "string_type = ScalarType (plain_info\<lparr>ti_name := ''string''\<rparr>) StringKind"

text \<open>An environment for examples, over a table of types: every type is one byte wide.\<close>

definition plain_env :: "go_type list \<Rightarrow> go_env" where
  "plain_env ts = \<lparr>type_table = ts,
     number_type = ScalarType (plain_info\<lparr>ti_name := ''json.Number'', ti_methods := True\<rparr>) StringKind,
     raw_message_type = SliceType (plain_info\<lparr>ti_name := ''json.RawMessage'', ti_methods := True\<rparr>) 0,
     read_only_text_types = [], letter_rune = (\<lambda>r. 97 \<le> r), digit_rune_class = (\<lambda>r. 48 \<le> r \<and> r \<le> 57),
     size_of = (\<lambda>t. 1), string_ref = 1, any_ref = 2, field_offset = (\<lambda>t i. i),
     format_float = (\<lambda>c x n. if c = CHR ''e'' then ''0e+00'' else ''0''), marshal_method = (\<lambda>t M d. Panics)\<rparr>"

definition byte_env :: go_env where
  "byte_env = plain_env [ScalarType plain_info (UintKind 8), string_type, InterfaceType plain_info]"

definition byte_memory :: memory where
  "byte_memory = \<lparr>mem_cell = (\<lambda>a t. UintData a), mem_entries = (\<lambda>a t. []), mem_top = 100\<rparr>"

text \<open>The data of a type.\<close>

fun scalar_conforms :: "scalar_kind \<Rightarrow> go_data \<Rightarrow> bool" where
  "scalar_conforms BoolKind d = (case d of BoolData _ \<Rightarrow> True | _ \<Rightarrow> False)"
| "scalar_conforms (IntKind n) d = (case d of IntData i \<Rightarrow> - (2 ^ (n - 1)) \<le> i \<and> i < 2 ^ (n - 1) | _ \<Rightarrow> False)"
| "scalar_conforms (UintKind n) d = (case d of UintData i \<Rightarrow> i < 2 ^ n | _ \<Rightarrow> False)"
| "scalar_conforms UintptrKind d = (case d of UintData i \<Rightarrow> i < 2 ^ 64 | _ \<Rightarrow> False)"
| "scalar_conforms (FloatKind _) d = (case d of FloatData x \<Rightarrow> x < 2 ^ 64 | _ \<Rightarrow> False)"
| "scalar_conforms (ComplexKind _) d = (case d of ComplexData _ _ \<Rightarrow> True | _ \<Rightarrow> False)"
| "scalar_conforms StringKind d = (case d of StringData _ \<Rightarrow> True | _ \<Rightarrow> False)"

function (sequential) conforms :: "go_type \<Rightarrow> go_data \<Rightarrow> bool" where
  "conforms t (ArrayData ds) = (case t of ArrayType _ n e \<Rightarrow> length ds = n \<and> list_all (conforms e) ds | _ \<Rightarrow> False)"
| "conforms t (StructData ds) = (case t of
       StructType _ fs \<Rightarrow> length ds = length fs \<and> list_all (\<lambda>(ft, d). conforms (snd ft) d) (zip fs ds)
     | _ \<Rightarrow> False)"
| "conforms t (PointerData p) = is_pointer t"
| "conforms t (SliceData p n c) = (case t of SliceType _ _ \<Rightarrow> n \<le> c | _ \<Rightarrow> False)"
| "conforms t (MapData p) = (case t of MapType _ _ _ \<Rightarrow> True | _ \<Rightarrow> False)"
| "conforms t (InterfaceData x) = (is_interface t \<and> (case x of
       None \<Rightarrow> True | Some (u, d) \<Rightarrow> \<not> is_interface u \<and> conforms u d))"
| "conforms t (ReferenceData p) = (case t of ReferenceType _ _ \<Rightarrow> True | _ \<Rightarrow> False)"
| "conforms t d = (case t of ScalarType _ k \<Rightarrow> scalar_conforms k d | _ \<Rightarrow> False)"
  by pat_completeness auto
termination
  by (relation "measure (size \<circ> snd)")
     (auto simp: less_Suc_eq_le dest!: set_zip_rightD intro: size_list_estimation')

definition memory_ok :: "go_env \<Rightarrow> memory \<Rightarrow> bool" where
  "memory_ok W M \<longleftrightarrow> (\<forall>a t. conforms t (mem_cell M a t))
     \<and> (\<forall>a i k e. \<forall>(x, y) \<in> set (mem_entries M a (MapType i k e)). conforms (type_ref W k) x \<and> conforms (type_ref W e) y)"

section \<open>Reflected values\<close>

text \<open>
  A value with its type, its address when it is addressable, and whether it was reached
  through an unexported field, embedded or not (\<open>flagEmbedRO\<close> and \<open>flagStickyRO\<close>).
\<close>

record rvalue =
  rv_type :: go_type
  rv_data :: go_data
  rv_addr :: "nat option"
  rv_embed_ro :: bool
  rv_sticky_ro :: bool

definition value_of :: "go_type \<Rightarrow> go_data \<Rightarrow> rvalue" where
  "value_of t d = \<lparr>rv_type = t, rv_data = d, rv_addr = None, rv_embed_ro = False, rv_sticky_ro = False\<rparr>"

abbreviation read_only :: "rvalue \<Rightarrow> bool" where
  "read_only v \<equiv> rv_embed_ro v \<or> rv_sticky_ro v"

abbreviation can_interface :: "rvalue \<Rightarrow> bool" where
  "can_interface v \<equiv> \<not> read_only v"

text \<open>\<open>v.Elem()\<close> of a pointer that is not nil.\<close>

definition pointer_elem :: "go_env \<Rightarrow> memory \<Rightarrow> rvalue \<Rightarrow> type_id \<Rightarrow> nat \<Rightarrow> rvalue" where
  "pointer_elem W M v e p =
     \<lparr>rv_type = type_ref W e, rv_data = mem_cell M p (type_ref W e), rv_addr = Some p,
      rv_embed_ro = rv_embed_ro v, rv_sticky_ro = rv_sticky_ro v\<rparr>"

text \<open>\<open>v.Index(i)\<close> of a slice and of an array.\<close>

definition slice_index :: "go_env \<Rightarrow> memory \<Rightarrow> rvalue \<Rightarrow> type_id \<Rightarrow> nat \<Rightarrow> nat \<Rightarrow> rvalue" where
  "slice_index W M v e p i =
     (let t = type_ref W e; a = p + i * size_of W t in
      \<lparr>rv_type = t, rv_data = mem_cell M a t, rv_addr = Some a, rv_embed_ro = False, rv_sticky_ro = read_only v\<rparr>)"

definition array_index :: "go_env \<Rightarrow> rvalue \<Rightarrow> go_type \<Rightarrow> go_data list \<Rightarrow> nat \<Rightarrow> rvalue" where
  "array_index W v t ds i =
     \<lparr>rv_type = t, rv_data = ds ! i, rv_addr = map_option (\<lambda>a. a + i * size_of W t) (rv_addr v),
      rv_embed_ro = False, rv_sticky_ro = read_only v\<rparr>"

text \<open>\<open>v.Field(i)\<close>.\<close>

definition struct_field_value :: "go_env \<Rightarrow> rvalue \<Rightarrow> (struct_field \<times> go_type) list \<Rightarrow> go_data list \<Rightarrow> nat \<Rightarrow> rvalue" where
  "struct_field_value W v fs ds i =
     (case fs ! i of (f, t) \<Rightarrow>
      \<lparr>rv_type = t, rv_data = ds ! i, rv_addr = map_option (\<lambda>a. a + field_offset W (rv_type v) i) (rv_addr v),
       rv_embed_ro = (\<not> is_exported f \<and> sf_anonymous f),
       rv_sticky_ro = (rv_sticky_ro v \<or> \<not> is_exported f \<and> \<not> sf_anonymous f)\<rparr>)"

text \<open>A key or value of a map that is being ranged over.\<close>

definition entry_value :: "go_env \<Rightarrow> rvalue \<Rightarrow> type_id \<Rightarrow> go_data \<Rightarrow> rvalue" where
  "entry_value W v e d =
     \<lparr>rv_type = type_ref W e, rv_data = d, rv_addr = None, rv_embed_ro = False, rv_sticky_ro = read_only v\<rparr>"

definition rvalue_ok :: "go_env \<Rightarrow> rvalue \<Rightarrow> bool" where
  "rvalue_ok W v \<longleftrightarrow> conforms (rv_type v) (rv_data v)"

text \<open>
  The values the walker reaches: well typed, through no unexported field but embedded
  structs.
\<close>

definition reachable :: "go_env \<Rightarrow> rvalue \<Rightarrow> bool" where
  "reachable W v \<longleftrightarrow> rvalue_ok W v \<and> \<not> rv_sticky_ro v \<and> (rv_embed_ro v \<longrightarrow> is_struct (embedded_type W (rv_type v)))"

text \<open>\<open>unwrapInterfaces\<close>: \<open>None\<close> for a nil interface.\<close>

fun unwrap_data :: "go_type \<Rightarrow> go_data \<Rightarrow> (go_type \<times> go_data) option" where
  "unwrap_data t (InterfaceData x) = (case x of None \<Rightarrow> None | Some (t, d) \<Rightarrow> unwrap_data t d)"
| "unwrap_data t d = Some (t, d)"

definition unwrap_interfaces :: "rvalue \<Rightarrow> rvalue option" where
  "unwrap_interfaces v =
     (if is_interface (rv_type v) then map_option (\<lambda>(t, d).
        \<lparr>rv_type = t, rv_data = d, rv_addr = None, rv_embed_ro = False, rv_sticky_ro = read_only v\<rparr>)
        (unwrap_data (rv_type v) (rv_data v))
      else Some v)"

section \<open>Scalars\<close>

text \<open>
  \<open>scalarText\<close> and \<open>kindOfReflect\<close> of a value that is neither a pointer nor an interface:
  their callers pass only such values, on which the first step, \<open>unwrap\<close>, is the
  identity (\<open>unwrap_reached\<close> below).
\<close>

definition scalar_text :: "go_env \<Rightarrow> rvalue \<Rightarrow> bytes" where
  "scalar_text W v = (case (rv_type v, rv_data v) of
       (ScalarType _ StringKind, StringData s) \<Rightarrow> s
     | (ScalarType _ BoolKind, BoolData b) \<Rightarrow> (if b then ''true'' else ''false'')
     | (ScalarType _ (IntKind _), IntData i) \<Rightarrow> itoa i
     | (ScalarType _ (UintKind _), UintData i) \<Rightarrow> itoa (int i)
     | (ScalarType _ UintptrKind, UintData i) \<Rightarrow> itoa (int i)
     | (ScalarType _ (FloatKind n), FloatData x) \<Rightarrow> format_float W (CHR ''g'') x n
     | _ \<Rightarrow> [])"

definition kind_of_reflect :: "go_env \<Rightarrow> rvalue \<Rightarrow> value_kind" where
  "kind_of_reflect W v = (case rv_type v of
       ScalarType _ StringKind \<Rightarrow> (if rv_type v = number_type W then KindNumber else KindString)
     | ScalarType _ k \<Rightarrow> kind_of_scalar k
     | MapType _ _ _ \<Rightarrow> KindObject
     | StructType _ _ \<Rightarrow> KindObject
     | SliceType _ _ \<Rightarrow> KindArray
     | ArrayType _ _ _ \<Rightarrow> KindArray
     | _ \<Rightarrow> KindInvalid)"

text \<open>\<open>unwrap\<close>, which does not return (outer \<open>None\<close>) on a pointer that points to itself.\<close>

partial_function (option) unwrap_pointers :: "go_env \<Rightarrow> memory \<Rightarrow> rvalue \<Rightarrow> rvalue option option" where
  "unwrap_pointers W M v = (case (rv_type v, rv_data v) of
       (PointerType _ e, PointerData p) \<Rightarrow>
         if p = 0 then Some None else unwrap_pointers W M (pointer_elem W M v e p)
     | _ \<Rightarrow> Some (Some v))"

definition unwrap :: "go_env \<Rightarrow> memory \<Rightarrow> rvalue \<Rightarrow> rvalue option option" where
  "unwrap W M v = (case unwrap_interfaces v of None \<Rightarrow> Some None | Some v \<Rightarrow> unwrap_pointers W M v)"

lemma unwrap_reached:
  "\<not> is_pointer (rv_type v) \<Longrightarrow> \<not> is_interface (rv_type v) \<Longrightarrow> unwrap W M v = Some (Some v)"
  by (cases "rv_type v") (simp_all add: unwrap_def unwrap_interfaces_def unwrap_pointers.simps)

section \<open>What the walker returns\<close>

text \<open>
  The values the walker builds: nil, strings, concrete scalars it keeps, and maps and
  slices of type \<open>map[string]any\<close> and \<open>[]any\<close>.  The omitted value is \<open>None\<close>.
  \<open>ResultPanic\<close> stands where a call of \<open>reflect\<close> would panic.
\<close>

datatype go_result =
    ResultNil
  | ResultPanic
  | ResultString bytes
  | ResultScalar go_type go_data
  | ResultMap "(bytes \<times> go_result) list"
  | ResultSlice "go_result list"

definition put_result :: "bytes \<Rightarrow> go_result \<Rightarrow> (bytes \<times> go_result) list \<Rightarrow> (bytes \<times> go_result) list" where
  "put_result key r ms = filter (\<lambda>kv. fst kv \<noteq> key) ms @ [(key, r)]"

text \<open>
  \<open>v.Interface()\<close> of a scalar, which panics on a read-only value: a plain string is the
  string itself.
\<close>

definition interface_of :: "rvalue \<Rightarrow> go_result" where
  "interface_of v = (if read_only v then ResultPanic else case rv_data v of
       StringData s \<Rightarrow> if rv_type v = string_type then ResultString s else ResultScalar (rv_type v) (rv_data v)
     | _ \<Rightarrow> ResultScalar (rv_type v) (rv_data v))"

text \<open>\<open>safeScalar\<close>; the boxed texts are the texts.\<close>

definition safe_scalar :: "go_env \<Rightarrow> rvalue \<Rightarrow> bool \<Rightarrow> go_result \<Rightarrow> go_result" where
  "safe_scalar W v preserve fallback =
     (if rv_type v = number_type W then interface_of v
      else if preserve then interface_of v
      else if is_basic_scalar (rv_type v) then ResultString (scalar_text W v)
      else fallback)"

section \<open>Identities\<close>

datatype identity =
    PointerIdentity go_type nat
  | MapIdentity go_type nat
  | SliceIdentity go_type nat nat nat

definition value_identity :: "rvalue \<Rightarrow> identity option" where
  "value_identity v = (case rv_data v of
       PointerData p \<Rightarrow> if p = 0 then None else Some (PointerIdentity (rv_type v) p)
     | MapData p \<Rightarrow> if p = 0 then None else Some (MapIdentity (rv_type v) p)
     | SliceData p n c \<Rightarrow> if p = 0 then None else Some (SliceIdentity (rv_type v) p n c)
     | _ \<Rightarrow> None)"

section \<open>Fields by index\<close>

text \<open>
  One step of \<open>fieldByIndex\<close>.  Before a step the code follows pointers while the value is
  one; the indices it is given pass through a struct or a pointer to one, so it follows
  one at most (\<open>embedded_once\<close> below).
\<close>

definition follow_embedded :: "go_env \<Rightarrow> memory \<Rightarrow> rvalue \<Rightarrow> rvalue option" where
  "follow_embedded W M v = (case (rv_type v, rv_data v) of
       (PointerType _ e, PointerData p) \<Rightarrow> if p = 0 then None else Some (pointer_elem W M v e p)
     | _ \<Rightarrow> Some v)"

definition field_step :: "go_env \<Rightarrow> rvalue \<Rightarrow> nat \<Rightarrow> rvalue option" where
  "field_step W v part = (case (rv_type v, rv_data v) of
       (StructType _ fs, StructData ds) \<Rightarrow> if length fs \<le> part then None else Some (struct_field_value W v fs ds part)
     | _ \<Rightarrow> None)"

fun field_by_index :: "go_env \<Rightarrow> memory \<Rightarrow> rvalue \<Rightarrow> nat list \<Rightarrow> rvalue option" where
  "field_by_index W M v [] = Some v"
| "field_by_index W M v (part # index) = (case follow_embedded W M v of
       None \<Rightarrow> None
     | Some v \<Rightarrow> (case field_step W v part of None \<Rightarrow> None | Some v \<Rightarrow> field_by_index W M v index))"

lemma embedded_once:
  assumes "is_struct (embedded_type W (rv_type v))"
  shows "unwrap_pointers W M v = Some (follow_embedded W M v)"
proof (cases "(rv_type v, rv_data v)")
  case (Pair t d)
  show ?thesis
  proof (cases "\<exists>i e p. t = PointerType i e \<and> d = PointerData p \<and> p \<noteq> 0")
    case True
    then obtain i e p where v: "rv_type v = PointerType i e" "rv_data v = PointerData p" "p \<noteq> 0" using Pair by auto
    then have "is_struct (rv_type (pointer_elem W M v e p))" using assms by (simp add: embedded_type_def pointer_elem_def)
    then have "unwrap_pointers W M (pointer_elem W M v e p) = Some (Some (pointer_elem W M v e p))"
      by (subst unwrap_pointers.simps) (auto split: go_type.splits)
    then show ?thesis using v by (subst unwrap_pointers.simps) (simp add: follow_embedded_def)
  next
    case False
    then show ?thesis using Pair
      by (subst unwrap_pointers.simps) (auto simp: follow_embedded_def split: go_type.splits go_data.splits)
  qed
qed

lemma conforms_struct:
  "conforms (StructType i fs) d \<longleftrightarrow> (\<exists>ds. d = StructData ds \<and> length ds = length fs \<and> (\<forall>j < length fs. conforms (snd (fs ! j)) (ds ! j)))"
  by (cases d) (auto simp: list_all_length case_prod_unfold split: option.splits)

lemma conforms_pointer: "conforms (PointerType i e) d \<longleftrightarrow> (\<exists>p. d = PointerData p)"
  by (cases d) (auto split: option.splits)

lemma follow_embedded_ok:
  assumes "memory_ok W M" and "rvalue_ok W v" and "is_struct (embedded_type W (rv_type v))"
  shows "follow_embedded W M v = None \<and> rv_data v = PointerData 0
    \<or> (\<exists>x. follow_embedded W M v = Some x \<and> rvalue_ok W x \<and> rv_type x = embedded_type W (rv_type v)
        \<and> rv_sticky_ro x = rv_sticky_ro v \<and> rv_embed_ro x = rv_embed_ro v)"
proof (cases "is_pointer (rv_type v)")
  case True
  then obtain i e where t: "rv_type v = PointerType i e" by (cases "rv_type v") auto
  then obtain p where "rv_data v = PointerData p" using assms(2) conforms_pointer by (auto simp: rvalue_ok_def)
  then show ?thesis using t assms(1)
    by (auto simp: follow_embedded_def embedded_type_def pointer_elem_def rvalue_ok_def memory_ok_def)
next
  case False
  then show ?thesis using assms
    by (cases "rv_type v") (auto simp: follow_embedded_def embedded_type_def)
qed

lemma field_step_ok:
  assumes "rvalue_ok W v" and "rv_type v = StructType i fs" and "j < length fs"
  shows "\<exists>x. field_step W v j = Some x \<and> rvalue_ok W x \<and> rv_type x = snd (fs ! j)
    \<and> rv_sticky_ro x = (rv_sticky_ro v \<or> \<not> is_exported (fst (fs ! j)) \<and> \<not> sf_anonymous (fst (fs ! j)))
    \<and> rv_embed_ro x = (\<not> is_exported (fst (fs ! j)) \<and> sf_anonymous (fst (fs ! j)))"
  using assms by (auto simp: rvalue_ok_def conforms_struct field_step_def struct_field_value_def case_prod_unfold)

text \<open>
  A field that an index of the type leads to is found in every value of the type, with
  its type, unless an embedded pointer on the way is nil.
\<close>

lemma field_by_index_typed:
  assumes "memory_ok W M" and "reachable W v" and "field_at W (rv_type v) index = Some (f, t)"
  shows "case field_by_index W M v index of
     Some x \<Rightarrow> reachable W x \<and> rv_type x = t
   | None \<Rightarrow> \<exists>n < length index. \<exists>x. field_by_index W M v (take n index) = Some x \<and> rv_data x = PointerData 0"
  using assms(2,3)
proof (induction index arbitrary: v)
  case (Cons j index)
  from Cons.prems(2) obtain i fs where fs: "embedded_type W (rv_type v) = StructType i fs" "j < length fs"
      "\<not> hidden_field W (fst (fs ! j)) (snd (fs ! j))"
      "if index = [] then fs ! j = (f, t) else field_at W (snd (fs ! j)) index = Some (f, t)"
    by (auto split: go_type.splits if_splits)
  have ok: "rvalue_ok W v" "\<not> rv_sticky_ro v" using Cons.prems(1) by (simp_all add: reachable_def)
  from follow_embedded_ok [OF assms(1) ok(1)] fs(1) consider
      "follow_embedded W M v = None" "rv_data v = PointerData 0"
    | y where "follow_embedded W M v = Some y" "rvalue_ok W y" "rv_type y = StructType i fs" "rv_sticky_ro y = rv_sticky_ro v" by auto
  then show ?case
  proof cases
    case 1
    then show ?thesis by auto
  next
    case (2 y)
    obtain x where x: "field_step W y j = Some x" "reachable W x" "rv_type x = snd (fs ! j)"
      using field_step_ok [OF 2(2,3) fs(2)] 2(4) ok(2) fs(3) by (auto simp: reachable_def hidden_field_def)
    have step: "field_by_index W M v (j # ks) = field_by_index W M x ks" for ks using 2(1) x(1) by simp
    show ?thesis
    proof (cases "index = []")
      case True
      then show ?thesis using fs(4) x step by auto
    next
      case False
      then have IH: "case field_by_index W M x index of
          Some y \<Rightarrow> reachable W y \<and> rv_type y = t
        | None \<Rightarrow> \<exists>n < length index. \<exists>y. field_by_index W M x (take n index) = Some y \<and> rv_data y = PointerData 0"
        using Cons.IH [OF x(2)] fs(4) x(3) by simp
      have "\<exists>n < length (j # index). \<exists>y. field_by_index W M v (take n (j # index)) = Some y \<and> rv_data y = PointerData 0"
        if "n < length index" "field_by_index W M x (take n index) = Some y" "rv_data y = PointerData 0" for n y
        by (rule exI [of _ "Suc n"]) (use that step in simp)
      then show ?thesis using IH unfolding step by (auto split: option.splits)
    qed
  qed
qed simp

end
