(* ===== verification/TextIsolation.thy ===== *)
theory TextIsolation
  imports GoValues
begin

text \<open>
  Copies of \<open>MarshalText\<close> receivers (\<open>text_isolation.go\<close>): before user code runs on a value
  it is copied so that it shares no memory with the input.  A copy allocates at the top
  of the memory, where no object of the input lies.
\<close>

section \<open>The two passes\<close>

type_synonym slice_key = "go_type \<times> nat \<times> nat \<times> nat"

record scan_state =
  sc_nodes :: int
  sc_scanned :: "slice_key list"
  sc_ranges :: "(nat \<times> nat) list"

definition add_range :: "nat \<Rightarrow> nat \<Rightarrow> (nat \<times> nat) list \<Rightarrow> (nat \<times> nat) list" where
  "add_range start width ranges = (if 0 < width then ranges @ [(start, start + width)] else ranges)"

text \<open>
  The loop over the sorted ranges; \<open>end\<close> is the largest end so far.  Ranges with the same
  start overlap, so how the sort orders them does not matter.
\<close>

fun ranges_overlap :: "nat \<Rightarrow> (nat \<times> nat) list \<Rightarrow> bool" where
  "ranges_overlap e [] = False"
| "ranges_overlap e ((start, stop) # ranges) \<longleftrightarrow> start < e \<or> ranges_overlap (max e stop) ranges"

definition overlapping :: "(nat \<times> nat) list \<Rightarrow> bool" where
  "overlapping ranges = ranges_overlap 0 (sort_key fst ranges)"

text \<open>Scanning a slice that is not nil.\<close>

definition scan_slice ::
    "go_env \<Rightarrow> int \<Rightarrow> go_type \<Rightarrow> type_id \<Rightarrow> nat \<Rightarrow> nat \<Rightarrow> nat \<Rightarrow> int \<Rightarrow> scan_state \<Rightarrow> (error_code \<times> int) + scan_state" where
  "scan_slice W budget t e p n c depth st =
     (if (t, p, n, c) \<in> set (sc_scanned st) then Inr st
      else (let st = st\<lparr>sc_scanned := (t, p, n, c) # sc_scanned st\<rparr>;
                count = saturating_mul (int c) (count_inline_nodes (type_ref W e)) in
        if budget - sc_nodes st < count then Inl (CodeNodeLimit, depth)
        else (let st = st\<lparr>sc_nodes := sc_nodes st + count\<rparr>;
                  width = size_of W (type_ref W e) in
          Inr (if 0 < c then st\<lparr>sc_ranges := add_range p ((c - 1) * width + width) (sc_ranges st)\<rparr> else st))))"

fun scan_value :: "go_env \<Rightarrow> int \<Rightarrow> int \<Rightarrow> go_type \<Rightarrow> go_data \<Rightarrow> int \<Rightarrow> scan_state \<Rightarrow> (error_code \<times> int) + scan_state"
  and scan_elements :: "go_env \<Rightarrow> int \<Rightarrow> int \<Rightarrow> go_type \<Rightarrow> go_data list \<Rightarrow> int \<Rightarrow> scan_state \<Rightarrow> (error_code \<times> int) + scan_state"
  and scan_fields ::
    "go_env \<Rightarrow> int \<Rightarrow> int \<Rightarrow> (struct_field \<times> go_type) list \<Rightarrow> go_data list \<Rightarrow> int \<Rightarrow> scan_state \<Rightarrow> (error_code \<times> int) + scan_state" where
  "scan_value W budget limit t (SliceData p n c) depth st =
     (if \<not> holds_reference t then Inr st
      else if limit < depth then Inl (CodeDepthLimit, depth)
      else case t of
        SliceType _ e \<Rightarrow> if p = 0 then Inr st else scan_slice W budget t e p n c depth st
      | _ \<Rightarrow> Inr st)"
| "scan_value W budget limit t (ArrayData ds) depth st =
     (if \<not> holds_reference t then Inr st
      else if limit < depth then Inl (CodeDepthLimit, depth)
      else case t of ArrayType _ _ e \<Rightarrow> scan_elements W budget limit e ds (depth + 1) st | _ \<Rightarrow> Inr st)"
| "scan_value W budget limit t (StructData ds) depth st =
     (if \<not> holds_reference t then Inr st
      else if limit < depth then Inl (CodeDepthLimit, depth)
      else case t of StructType _ fs \<Rightarrow> scan_fields W budget limit fs ds (depth + 1) st | _ \<Rightarrow> Inr st)"
| "scan_value W budget limit t d depth st =
     (if \<not> holds_reference t then Inr st else if limit < depth then Inl (CodeDepthLimit, depth) else Inr st)"
| "scan_elements W budget limit e [] depth st = Inr st"
| "scan_elements W budget limit e (d # ds) depth st = (case scan_value W budget limit e d depth st of
       Inl failure \<Rightarrow> Inl failure
     | Inr st \<Rightarrow> scan_elements W budget limit e ds depth st)"
| "scan_fields W budget limit ((f, t) # fs) (d # ds) depth st =
     (if \<not> is_exported f then scan_fields W budget limit fs ds depth st
      else case scan_value W budget limit t d depth st of
        Inl failure \<Rightarrow> Inl failure
      | Inr st \<Rightarrow> scan_fields W budget limit fs ds depth st)"
| "scan_fields W budget limit _ _ depth st = Inr st"

text \<open>The memory while a receiver is rebuilt, and the slices copied so far.\<close>

record copy_state =
  cp_memory :: memory
  cp_copies :: "(slice_key \<times> nat) list"

text \<open>\<open>MakeSlice\<close> at the capacity and \<open>reflect.Copy\<close>: the storage is copied as it is.\<close>

definition copy_storage :: "nat \<Rightarrow> nat \<Rightarrow> memory \<Rightarrow> memory" where
  "copy_storage p width M =
     M\<lparr>mem_cell := (\<lambda>a. if mem_top M \<le> a \<and> a < mem_top M + max width 1 then mem_cell M (p + (a - mem_top M)) else mem_cell M a),
       mem_top := mem_top M + max width 1\<rparr>"

definition copy_slice ::
    "go_env \<Rightarrow> go_type \<Rightarrow> type_id \<Rightarrow> nat \<Rightarrow> nat \<Rightarrow> nat \<Rightarrow> copy_state \<Rightarrow> go_data \<times> copy_state" where
  "copy_slice W t e p n c st =
     (if p = 0 then (SliceData 0 0 0, st)
      else case map_of (cp_copies st) (t, p, n, c) of
        Some copied \<Rightarrow> (SliceData copied n c, st)
      | None \<Rightarrow> (SliceData (mem_top (cp_memory st)) n c,
          \<lparr>cp_memory = copy_storage p (c * size_of W (type_ref W e)) (cp_memory st),
           cp_copies = ((t, p, n, c), mem_top (cp_memory st)) # cp_copies st\<rparr>))"

fun copy_value :: "go_env \<Rightarrow> go_type \<Rightarrow> go_data \<Rightarrow> copy_state \<Rightarrow> go_data \<times> copy_state"
  and copy_elements :: "go_env \<Rightarrow> go_type \<Rightarrow> go_data list \<Rightarrow> copy_state \<Rightarrow> go_data list \<times> copy_state"
  and copy_fields :: "go_env \<Rightarrow> (struct_field \<times> go_type) list \<Rightarrow> go_data list \<Rightarrow> copy_state \<Rightarrow> go_data list \<times> copy_state" where
  "copy_value W t (SliceData p n c) st = (case t of
       SliceType _ e \<Rightarrow> copy_slice W t e p n c st | _ \<Rightarrow> (SliceData p n c, st))"
| "copy_value W t (ArrayData ds) st =
     (if \<not> holds_reference t then (ArrayData ds, st)
      else case t of
        ArrayType _ _ e \<Rightarrow> (case copy_elements W e ds st of (ds, st) \<Rightarrow> (ArrayData ds, st))
      | _ \<Rightarrow> (ArrayData ds, st))"
| "copy_value W t (StructData ds) st =
     (if \<not> holds_reference t then (StructData ds, st)
      else case t of
        StructType _ fs \<Rightarrow> (case copy_fields W fs ds st of (ds, st) \<Rightarrow> (StructData ds, st))
      | _ \<Rightarrow> (StructData ds, st))"
| "copy_value W t d st = (d, st)"
| "copy_elements W e [] st = ([], st)"
| "copy_elements W e (d # ds) st = (case copy_value W e d st of
       (d, st) \<Rightarrow> (case copy_elements W e ds st of (ds, st) \<Rightarrow> (d # ds, st)))"
| "copy_fields W ((f, t) # fs) (d # ds) st =
     (case (if is_exported f \<and> holds_reference t then copy_value W t d st else (d, st)) of
       (d, st) \<Rightarrow> (case copy_fields W fs ds st of (ds, st) \<Rightarrow> (d # ds, st)))"
| "copy_fields W _ ds st = (ds, st)"

section \<open>Isolated receivers\<close>

definition charge_copy :: "masker \<Rightarrow> int \<Rightarrow> int \<Rightarrow> int option" where
  "charge_copy m added nodes = (if max_nodes (m_cfg m) - nodes < added then None else Some (nodes + added))"

text \<open>
  The receiver with the memory it lives in, or the failure and its depth; and the nodes
  of the walk.
\<close>

definition isolated_receiver ::
    "go_env \<Rightarrow> masker \<Rightarrow> memory \<Rightarrow> rvalue \<Rightarrow> int \<Rightarrow> int \<Rightarrow> ((error_code \<times> int) + memory \<times> go_data) \<times> int" where
  "isolated_receiver W m M v depth nodes =
     (let t = rv_type v in
      if t \<in> set (read_only_text_types W) then (Inr (M, rv_data v), nodes)
      else case charge_copy m (count_inline_nodes t) nodes of
        None \<Rightarrow> (Inl (CodeNodeLimit, depth), nodes)
      | Some nodes \<Rightarrow>
          (let ranges = (case rv_addr v of None \<Rightarrow> [] | Some a \<Rightarrow> add_range a (size_of W t) []) in
           case scan_value W (max_nodes (m_cfg m) - nodes) (max_depth (m_cfg m)) t (rv_data v) depth
               \<lparr>sc_nodes = 0, sc_scanned = [], sc_ranges = ranges\<rparr> of
             Inl failure \<Rightarrow> (Inl failure, nodes)
           | Inr st \<Rightarrow>
               if overlapping (sc_ranges st) then (Inl (CodeUnsupportedType, depth), nodes + sc_nodes st)
               else (case copy_value W t (rv_data v) \<lparr>cp_memory = M, cp_copies = []\<rparr> of
                   (d, cp) \<Rightarrow> (Inr (cp_memory cp, d), nodes + sc_nodes st))))"

text \<open>Copies are charged, never refunded.\<close>

lemma scan_slice_nodes:
  "scan_slice W budget t e p n c depth st = Inr st' \<Longrightarrow> sc_nodes st \<le> sc_nodes st' \<and> (sc_nodes st \<le> budget \<longrightarrow> sc_nodes st' \<le> budget)"
  using saturating_mul_nonneg [OF _ count_inline_nodes_nonneg, of "int c" "type_ref W e"]
  by (auto simp: scan_slice_def Let_def split: if_splits)

lemma scan_nodes:
  "scan_value W budget limit t d depth st = Inr st' \<Longrightarrow> sc_nodes st \<le> sc_nodes st' \<and> (sc_nodes st \<le> budget \<longrightarrow> sc_nodes st' \<le> budget)"
  "scan_elements W budget limit e ds depth st = Inr st' \<Longrightarrow> sc_nodes st \<le> sc_nodes st' \<and> (sc_nodes st \<le> budget \<longrightarrow> sc_nodes st' \<le> budget)"
  "scan_fields W budget limit fs ds depth st = Inr st' \<Longrightarrow> sc_nodes st \<le> sc_nodes st' \<and> (sc_nodes st \<le> budget \<longrightarrow> sc_nodes st' \<le> budget)"
proof (induction W budget limit t d depth st and W budget limit e ds depth st and W budget limit fs ds depth st
    arbitrary: st' and st' and st' rule: scan_value_scan_elements_scan_fields.induct)
  case (1 W budget limit t p n c depth st)
  then show ?case using scan_slice_nodes by (auto split: if_splits go_type.splits)
qed (fastforce split: if_splits go_type.splits sum.splits)+

lemma isolated_receiver_nodes:
  assumes "isolated_receiver W m M v depth nodes = (r, nodes')"
  shows "nodes \<le> nodes' \<and> (nodes \<le> max_nodes (m_cfg m) \<longrightarrow> nodes' \<le> max_nodes (m_cfg m))"
  using assms count_inline_nodes_nonneg [of "rv_type v"]
  by (auto simp: isolated_receiver_def charge_copy_def Let_def split: if_splits option.splits sum.splits prod.splits
      dest!: scan_nodes(1))

section \<open>What a copy shares\<close>

text \<open>Every slice inside a value, with its element type, that is not nil.\<close>

function (sequential) all_slices :: "(type_id \<Rightarrow> nat \<Rightarrow> nat \<Rightarrow> nat \<Rightarrow> bool) \<Rightarrow> go_type \<Rightarrow> go_data \<Rightarrow> bool" where
  "all_slices P t (SliceData p n c) = (case t of SliceType _ e \<Rightarrow> p = 0 \<or> P e p n c | _ \<Rightarrow> True)"
| "all_slices P t (ArrayData ds) = (case t of ArrayType _ _ e \<Rightarrow> list_all (all_slices P e) ds | _ \<Rightarrow> True)"
| "all_slices P t (StructData ds) = (case t of
       StructType _ fs \<Rightarrow> list_all (\<lambda>(ft, d). all_slices P (snd ft) d) (zip fs ds) | _ \<Rightarrow> True)"
| "all_slices P t d = True"
  by pat_completeness auto
termination
  by (relation "measure (size \<circ> snd \<circ> snd)")
     (auto simp: less_Suc_eq_le dest!: set_zip_rightD intro: size_list_estimation')

text \<open>What a receiver says when it is read: its data, and the elements of its slices up to their capacity.\<close>

datatype go_view = PlainView go_data | NilView | SliceView nat "go_data list" | ListView "go_view list"

function (sequential) view_of :: "go_env \<Rightarrow> memory \<Rightarrow> go_type \<Rightarrow> go_data \<Rightarrow> go_view" where
  "view_of W M t (SliceData p n c) = (case t of
       SliceType _ e \<Rightarrow> if p = 0 then NilView
         else SliceView n (map (\<lambda>i. mem_cell M (p + i * size_of W (type_ref W e)) (type_ref W e)) [0..<c])
     | _ \<Rightarrow> PlainView (SliceData p n c))"
| "view_of W M t (ArrayData ds) = (case t of
       ArrayType _ _ e \<Rightarrow> ListView (map (view_of W M e) ds) | _ \<Rightarrow> PlainView (ArrayData ds))"
| "view_of W M t (StructData ds) = (case t of
       StructType _ fs \<Rightarrow> ListView (map (\<lambda>(ft, d). view_of W M (snd ft) d) (zip fs ds))
     | _ \<Rightarrow> PlainView (StructData ds))"
| "view_of W M t d = PlainView d"
  by pat_completeness auto
termination
  by (relation "measure (size \<circ> snd \<circ> snd \<circ> snd)")
     (auto simp: less_Suc_eq_le dest!: set_zip_rightD intro: size_list_estimation')

text \<open>A slice whose storage lies between two addresses.\<close>

definition lies_in :: "go_env \<Rightarrow> nat \<Rightarrow> nat \<Rightarrow> type_id \<Rightarrow> nat \<Rightarrow> nat \<Rightarrow> nat \<Rightarrow> bool" where
  "lies_in W low high e p n c \<longleftrightarrow> low \<le> p \<and> p + max (c * size_of W (type_ref W e)) 1 \<le> high"

definition grows :: "memory \<Rightarrow> memory \<Rightarrow> bool" where
  "grows M N \<longleftrightarrow> mem_top M \<le> mem_top N \<and> (\<forall>a < mem_top M. mem_cell N a = mem_cell M a)"

lemma grows_refl: "grows M M"
  by (simp add: grows_def)

lemma grows_trans: "grows M N \<Longrightarrow> grows N K \<Longrightarrow> grows M K"
  by (auto simp: grows_def)

lemma all_slices_mono:
  "all_slices P t d \<Longrightarrow> (\<And>e p n c. P e p n c \<Longrightarrow> Q e p n c) \<Longrightarrow> all_slices Q t d"
proof (induction P t d rule: all_slices.induct)
  case (3 P t ds)
  then show ?case by (fastforce simp: list_all_iff split: go_type.splits)
qed (auto simp: list_all_iff split: go_type.splits)

lemma element_inside: "i < c \<Longrightarrow> lies_in W low high e p n c \<Longrightarrow> p + i * size_of W (type_ref W e) < high"
proof -
  assume i: "i < c" and l: "lies_in W low high e p n c"
  show ?thesis
  proof (cases "size_of W (type_ref W e) = 0")
    case False
    then have "i * size_of W (type_ref W e) < c * size_of W (type_ref W e)"
      using i by (intro mult_strict_right_mono) auto
    then show ?thesis using l unfolding lies_in_def by linarith
  qed (use l in \<open>simp add: lies_in_def\<close>)
qed

text \<open>What is read of a value depends on the memory below the end of its slices only.\<close>

lemma view_of_grows:
  "all_slices (lies_in W low (mem_top M)) t d \<Longrightarrow> grows M N \<Longrightarrow> view_of W N t d = view_of W M t d"
proof (induction W M t d rule: view_of.induct)
  case (1 W M t p n c)
  show ?case
  proof (cases t)
    case (SliceType i e)
    have "mem_cell N (p + k * size_of W (type_ref W e)) = mem_cell M (p + k * size_of W (type_ref W e))"
      if "k < c" "p \<noteq> 0" for k
      using element_inside [OF that(1), of W low "mem_top M" e p n] "1.prems" that(2) by (simp add: SliceType grows_def)
    then show ?thesis by (simp add: SliceType)
  qed simp_all
next
  case (2 W M t ds)
  then show ?case by (cases t) (auto simp: list_all_iff)
next
  case (3 W M t ds)
  show ?case
  proof (cases t)
    case (StructType i fs)
    have "view_of W N (snd ft) d = view_of W M (snd ft) d" if "(ft, d) \<in> set (zip fs ds)" for ft d
      using "3.IH" [OF StructType that] "3.prems" that by (auto simp: StructType list_all_iff)
    then show ?thesis by (auto simp: StructType)
  qed simp_all
qed simp_all

text \<open>A type without references has no slices.\<close>

lemma no_reference_view:
  "\<not> holds_reference t \<Longrightarrow> conforms t d \<Longrightarrow> all_slices P t d \<and> view_of W N t d = view_of W M t d"
proof (induction t d rule: conforms.induct)
  case (1 t ds)
  then show ?case by (cases t) (auto simp: list_all_iff)
next
  case (2 t ds)
  show ?case
  proof (cases t)
    case (StructType i fs)
    have "all_slices P (snd ft) d \<and> view_of W N (snd ft) d = view_of W M (snd ft) d" if z: "(ft, d) \<in> set (zip fs ds)" for ft d
      using "2.IH" [OF StructType z] "2.prems" z set_zip_leftD [OF z] by (auto simp: StructType list_all_iff list_ex_iff)
    then show ?thesis by (auto simp: StructType list_all_iff)
  qed simp_all
next
  case (4 t p n c)
  then show ?case by (cases t) auto
qed simp_all

section \<open>The copy is isolated and exact\<close>

definition same_storage :: "memory \<Rightarrow> memory \<Rightarrow> nat \<Rightarrow> nat \<Rightarrow> nat \<Rightarrow> bool" where
  "same_storage M N p q width \<longleftrightarrow> (\<forall>a < max width 1. mem_cell N (q + a) = mem_cell M (p + a))"

definition copy_inv :: "go_env \<Rightarrow> memory \<Rightarrow> copy_state \<Rightarrow> bool" where
  "copy_inv W M st \<longleftrightarrow> 0 < mem_top M \<and> grows M (cp_memory st)
     \<and> (\<forall>t p n c q. ((t, p, n, c), q) \<in> set (cp_copies st) \<longrightarrow> (\<exists>i e. t = SliceType i e
          \<and> lies_in W (mem_top M) (mem_top (cp_memory st)) e q n c
          \<and> same_storage M (cp_memory st) p q (c * size_of W (type_ref W e))))"

definition copied :: "go_env \<Rightarrow> memory \<Rightarrow> copy_state \<Rightarrow> go_type \<Rightarrow> go_data \<Rightarrow> go_data \<Rightarrow> bool" where
  "copied W M st t d d' \<longleftrightarrow>
     all_slices (lies_in W (mem_top M) (mem_top (cp_memory st))) t d' \<and> view_of W (cp_memory st) t d' = view_of W M t d"

abbreviation copy_grows :: "copy_state \<Rightarrow> copy_state \<Rightarrow> bool" where
  "copy_grows st st' \<equiv> grows (cp_memory st) (cp_memory st')"

lemma lies_in_grows: "lies_in W low (mem_top M) e p n c \<Longrightarrow> grows M N \<Longrightarrow> lies_in W low (mem_top N) e p n c"
  by (simp add: lies_in_def grows_def)

lemma copied_grows: "copied W M st t d d' \<Longrightarrow> copy_grows st st' \<Longrightarrow> copied W M st' t d d'"
  unfolding copied_def using all_slices_mono lies_in_grows view_of_grows by metis

lemma same_storage_view:
  assumes "same_storage M N p q (c * size_of W (type_ref W e))" and "p \<noteq> 0" and "q \<noteq> 0"
  shows "view_of W N (SliceType i e) (SliceData q n c) = view_of W M (SliceType i e) (SliceData p n c)"
proof -
  let ?w = "size_of W (type_ref W e)"
  have "k * ?w < max (c * ?w) 1" if "k < c" for k
    using element_inside [OF that, of W 0 "max (c * ?w) 1" e 0 n] by (simp add: lies_in_def)
  then show ?thesis using assms by (simp add: same_storage_def)
qed

lemma copy_storage_grows: "grows M (copy_storage p width M)"
  by (simp add: grows_def copy_storage_def)

lemma copy_storage_same:
  assumes "grows M N" and "p + max width 1 \<le> mem_top M"
  shows "same_storage M (copy_storage p width N) p (mem_top N) width"
  using assms by (auto simp: same_storage_def copy_storage_def grows_def)

lemma same_storage_grows:
  "same_storage M N p q width \<Longrightarrow> grows N K \<Longrightarrow> q + max width 1 \<le> mem_top N \<Longrightarrow> same_storage M K p q width"
  by (auto simp: same_storage_def grows_def)

lemma copy_slice_ok:
  assumes inv: "copy_inv W M st" and "p = 0 \<or> lies_in W 0 (mem_top M) e p n c"
    and "copy_slice W (SliceType i e) e p n c st = (d', st')"
  shows "copy_inv W M st' \<and> copy_grows st st' \<and> copied W M st' (SliceType i e) (SliceData p n c) d'"
proof (cases "p = 0")
  case True
  then show ?thesis using assms by (auto simp: copy_slice_def copied_def grows_refl)
next
  case False
  let ?t = "SliceType i e" and ?w = "c * size_of W (type_ref W e)"
  have p: "p + max ?w 1 \<le> mem_top M" using assms(2) False by (simp add: lies_in_def)
  have top: "0 < mem_top M" "mem_top M \<le> mem_top (cp_memory st)" using inv by (auto simp: copy_inv_def grows_def)
  show ?thesis
  proof (cases "map_of (cp_copies st) (?t, p, n, c)")
    case (Some q)
    from map_of_SomeD [OF this] inv obtain j u where "?t = SliceType j u"
        "lies_in W (mem_top M) (mem_top (cp_memory st)) u q n c"
        "same_storage M (cp_memory st) p q (c * size_of W (type_ref W u))"
      unfolding copy_inv_def by blast
    then have q: "lies_in W (mem_top M) (mem_top (cp_memory st)) e q n c" "same_storage M (cp_memory st) p q ?w" by auto
    then have "q \<noteq> 0" using top by (simp add: lies_in_def)
    then show ?thesis using assms(3) Some False q inv same_storage_view [OF q(2) False]
      by (auto simp: copy_slice_def copied_def grows_refl)
  next
    case None
    let ?N = "copy_storage p ?w (cp_memory st)" and ?q = "mem_top (cp_memory st)"
    have st': "d' = SliceData ?q n c" "cp_memory st' = ?N" "cp_copies st' = ((?t, p, n, c), ?q) # cp_copies st"
      using assms(3) None False by (auto simp: copy_slice_def)
    have same: "same_storage M ?N p ?q ?w" using inv p by (intro copy_storage_same) (auto simp: copy_inv_def)
    have here: "lies_in W (mem_top M) (mem_top ?N) e ?q n c" using top by (simp add: lies_in_def copy_storage_def)
    have "copy_inv W M st'" unfolding copy_inv_def st'
    proof (intro conjI allI impI)
      show "grows M ?N" using inv copy_storage_grows grows_trans by (auto simp: copy_inv_def)
      fix t p' n' c' q assume "((t, p', n', c'), q) \<in> set (((?t, p, n, c), ?q) # cp_copies st)"
      then consider "t = ?t" "p' = p" "n' = n" "c' = c" "q = ?q" | "((t, p', n', c'), q) \<in> set (cp_copies st)" by auto
      then show "\<exists>i e. t = SliceType i e \<and> lies_in W (mem_top M) (mem_top ?N) e q n' c'
          \<and> same_storage M ?N p' q (c' * size_of W (type_ref W e))"
      proof cases
        case 1
        then show ?thesis using here same by blast
      next
        case 2
        then obtain j u where q: "t = SliceType j u" "lies_in W (mem_top M) (mem_top (cp_memory st)) u q n' c'"
            "same_storage M (cp_memory st) p' q (c' * size_of W (type_ref W u))"
          using inv unfolding copy_inv_def by blast
        then show ?thesis
          using lies_in_grows [OF q(2) copy_storage_grows] same_storage_grows [OF q(3) copy_storage_grows]
          by (auto simp: lies_in_def)
      qed
    qed (use top in simp)
    moreover have "copied W M st' ?t (SliceData p n c) d'"
      unfolding copied_def st'(1,2) using here same_storage_view [OF same False] top by simp
    ultimately show ?thesis using copy_storage_grows by (simp add: st'(2))
  qed
qed

text \<open>A receiver whose slices lie below the top of the memory.\<close>

abbreviation receiver_ok :: "go_env \<Rightarrow> memory \<Rightarrow> go_type \<Rightarrow> go_data \<Rightarrow> bool" where
  "receiver_ok W M t d \<equiv> conforms t d \<and> all_slices (lies_in W 0 (mem_top M)) t d"

lemma copied_plain: "\<not> holds_reference t \<Longrightarrow> conforms t d \<Longrightarrow> copied W M st t d d"
  using no_reference_view [of t d] by (simp add: copied_def)

definition copies_ok :: "go_env \<Rightarrow> memory \<Rightarrow> copy_state \<Rightarrow> copy_state \<Rightarrow> bool" where
  "copies_ok W M st st' \<longleftrightarrow> copy_inv W M st' \<and> copy_grows st st'"

lemma copies_ok_refl: "copy_inv W M st \<Longrightarrow> copies_ok W M st st"
  by (simp add: copies_ok_def grows_refl)

lemma copies_ok_trans: "copies_ok W M st st' \<Longrightarrow> copies_ok W M st' st'' \<Longrightarrow> copies_ok W M st st''"
  using grows_trans by (auto simp: copies_ok_def)

lemma copies_ok_inv: "copies_ok W M st st' \<Longrightarrow> copy_inv W M st'"
  by (simp add: copies_ok_def)

lemma copied_later: "copied W M st t d d' \<Longrightarrow> copies_ok W M st st' \<Longrightarrow> copied W M st' t d d'"
  using copied_grows by (simp add: copies_ok_def)

definition field_copyable :: "go_env \<Rightarrow> struct_field \<times> go_type \<Rightarrow> bool" where
  "field_copyable W ft \<longleftrightarrow> (if is_exported (fst ft) then copyable_type W (snd ft) else \<not> holds_reference (snd ft))"

lemma copy_ok:
  "copy_value W t d st = (d', st') \<Longrightarrow> copy_inv W M st \<Longrightarrow> copyable_type W t \<Longrightarrow> receiver_ok W M t d
     \<Longrightarrow> copies_ok W M st st' \<and> copied W M st' t d d'"
  "copy_elements W e ds st = (ds', st') \<Longrightarrow> copy_inv W M st \<Longrightarrow> copyable_type W e \<Longrightarrow> list_all (receiver_ok W M e) ds
     \<Longrightarrow> copies_ok W M st st' \<and> list_all2 (copied W M st' e) ds ds'"
  "copy_fields W fs ds st = (ds', st') \<Longrightarrow> copy_inv W M st \<Longrightarrow> list_all (field_copyable W) fs \<Longrightarrow> length fs = length ds
     \<Longrightarrow> list_all (\<lambda>(ft, d). receiver_ok W M (snd ft) d) (zip fs ds)
     \<Longrightarrow> copies_ok W M st st' \<and> length ds' = length ds
       \<and> list_all (\<lambda>(ft, d, d'). copied W M st' (snd ft) d d') (zip fs (zip ds ds'))"
proof (induction W t d st and W e ds st and W fs ds st arbitrary: d' st' and ds' st' and ds' st'
    rule: copy_value_copy_elements_copy_fields.induct)
  case (1 W t p n c st)
  then obtain i e where "t = SliceType i e" by (cases t) auto
  then show ?case using copy_slice_ok [of W M st p e n c i d' st'] 1 by (auto simp: copies_ok_def)
next
  case (2 W t ds st)
  show ?case
  proof (cases "holds_reference t")
    case True
    obtain i k e where t: "t = ArrayType i k e" using 2 by (cases t) auto
    obtain es st1 where e: "copy_elements W e ds st = (es, st1)" by (metis surj_pair)
    have "list_all (receiver_ok W M e) ds" using "2.prems"(4) by (auto simp: t list_all_iff)
    then have ok: "copies_ok W M st st1" "list_all2 (copied W M st1 e) ds es"
      using "2.IH" [OF _ t e] "2.prems" True by (auto simp: t)
    have r: "d' = ArrayData es" "st' = st1" using "2.prems"(1) True e by (auto simp: t)
    have "map (view_of W (cp_memory st1) e) es = map (view_of W M e) ds"
      using ok(2) by (auto simp: list_all2_conv_all_nth copied_def intro: nth_equalityI)
    then show ?thesis using ok unfolding r
      by (auto simp: t copied_def list_all_length list_all2_conv_all_nth)
  qed (use 2 copied_plain copies_ok_refl in auto)
next
  case (3 W t ds st)
  show ?case
  proof (cases "holds_reference t")
    case True
    obtain i fs where t: "t = StructType i fs" using 3 by (cases t) auto
    obtain es st1 where e: "copy_fields W fs ds st = (es, st1)" by (metis surj_pair)
    have len: "length ds = length fs" using "3.prems"(4) by (simp add: t)
    have pre: "list_all (field_copyable W) fs" "list_all (\<lambda>(ft, d). receiver_ok W M (snd ft) d) (zip fs ds)"
      using "3.prems"(3,4) by (auto simp: t list_all_iff field_copyable_def split: if_splits)
    then have ok: "copies_ok W M st st1" "length es = length ds"
        "list_all (\<lambda>(ft, d, d'). copied W M st1 (snd ft) d d') (zip fs (zip ds es))"
      using "3.IH" [OF _ t e] "3.prems"(2) True len by (auto simp: t)
    have r: "d' = StructData es" "st' = st1" using "3.prems"(1) True e by (auto simp: t)
    have c: "copied W M st1 (snd (fs ! j)) (ds ! j) (es ! j)" if "j < length fs" for j
      using ok(3) that len ok(2) by (simp add: list_all_length)
    have "map (\<lambda>(ft, d). view_of W (cp_memory st1) (snd ft) d) (zip fs es) = map (\<lambda>(ft, d). view_of W M (snd ft) d) (zip fs ds)"
      using c ok(2) len by (intro nth_equalityI) (auto simp: copied_def)
    then show ?thesis using ok(1,2) c len unfolding r
      by (auto simp: t copied_def list_all_length)
  qed (use 3 copied_plain copies_ok_refl in auto)
next
  case (6 W e d ds st)
  obtain d1 st1 where d1: "copy_value W e d st = (d1, st1)" by (metis surj_pair)
  obtain es st2 where es: "copy_elements W e ds st1 = (es, st2)" by (metis surj_pair)
  have r: "ds' = d1 # es" "st' = st2" using "6.prems"(1) by (simp_all add: d1 es)
  have ok1: "copies_ok W M st st1" "copied W M st1 e d d1" using "6.IH"(1) [OF d1] "6.prems" by auto
  have ok2: "copies_ok W M st1 st2" "list_all2 (copied W M st2 e) ds es"
    using "6.IH"(2) [OF d1 [symmetric] es copies_ok_inv [OF ok1(1)]] "6.prems" by auto
  show ?case using copies_ok_trans [OF ok1(1) ok2(1)] copied_later [OF ok1(2) ok2(1)] ok2(2) by (simp add: r)
next
  case (7 W f t fs d ds st)
  let ?here = "if is_exported f \<and> holds_reference t then copy_value W t d st else (d, st)"
  obtain d1 st1 where d1: "?here = (d1, st1)" by (metis surj_pair)
  obtain es st2 where es: "copy_fields W fs ds st1 = (es, st2)" by (metis surj_pair)
  have r: "ds' = d1 # es" "st' = st2" using "7.prems"(1) by (simp_all add: d1 es)
  have ok1: "copies_ok W M st st1 \<and> copied W M st1 t d d1"
  proof (cases "is_exported f \<and> holds_reference t")
    case True
    then show ?thesis using "7.IH"(1) [of d1 st1] "7.prems" d1 by (auto simp: field_copyable_def)
  next
    case False
    then have "\<not> holds_reference t" using "7.prems"(3) by (auto simp: field_copyable_def split: if_splits)
    then show ?thesis using False d1 "7.prems" copied_plain copies_ok_refl by (auto simp: field_copyable_def)
  qed
  have ok2: "copies_ok W M st1 st2 \<and> length es = length ds
      \<and> list_all (\<lambda>(ft, d, d'). copied W M st2 (snd ft) d d') (zip fs (zip ds es))"
    using "7.IH"(2) [OF d1 [symmetric] es] copies_ok_inv ok1 "7.prems" by auto
  show ?case using ok1 ok2 copies_ok_trans copied_later unfolding r by auto
qed (auto simp: copies_ok_refl copied_def list_all_iff)

lemma copyable_references:
  "copyable_type W t \<Longrightarrow> t' \<in> set (inline_types t) \<Longrightarrow> points_elsewhere t' \<Longrightarrow>
     \<exists>i e. t' = SliceType i e \<and> \<not> holds_reference (type_ref W e)"
proof (induction W t rule: copyable_type.induct)
  case (3 W i fs)
  from "3.prems" obtain ft where ft: "ft \<in> set fs" "t' \<in> set (inline_types (snd ft))"
    by (auto simp: points_elsewhere_def)
  show ?case
  proof (cases "is_exported (fst ft)")
    case True
    then show ?thesis using "3.IH" [OF ft(1) True _ ft(2) "3.prems"(3)] "3.prems"(1) ft(1) by (auto simp: list_all_iff)
  next
    case False
    then have "\<not> holds_reference (snd ft)" using "3.prems"(1) ft(1) by (auto simp: list_all_iff)
    then show ?thesis using ft(2) "3.prems"(3) by (auto simp: holds_reference_inline)
  qed
qed (auto simp: points_elsewhere_def)

text \<open>
  C10: Which receiver \<open>MarshalText\<close> runs on.  For the fixed types whose methods only read
  (\<open>time.Time\<close> and \<open>netip.Addr\<close>, \<open>AddrPort\<close> and \<open>Prefix\<close>) it is
  a shallow copy: the same memory, the same data, and no node is charged.  For every other
  type it is isolated, so the method never sees the input's storage: the copy reads the
  same, field by field and element by element up to every slice's capacity, the memory of
  the input is as it was, every slice of the copy lies in storage that was allocated for
  it, above everything the input can refer to, and it holds no other reference.
\<close>

theorem receiver_is_isolated:
  assumes "isolated_receiver W m M v depth nodes = (Inr (N, d), nodes')"
    and "isolatable_text_type W (rv_type v)"
    and "receiver_ok W M (rv_type v) (rv_data v)" and "0 < mem_top M"
  shows "if rv_type v \<in> set (read_only_text_types W) then N = M \<and> d = rv_data v \<and> nodes' = nodes
    else view_of W N (rv_type v) d = view_of W M (rv_type v) (rv_data v)
    \<and> (\<forall>a < mem_top M. mem_cell N a = mem_cell M a)
    \<and> all_slices (lies_in W (mem_top M) (mem_top N)) (rv_type v) d
    \<and> (\<forall>t \<in> set (inline_types (rv_type v)). points_elsewhere t \<longrightarrow>
         (\<exists>i e. t = SliceType i e \<and> \<not> holds_reference (type_ref W e)))"
proof (cases "rv_type v \<in> set (read_only_text_types W)")
  case True
  then show ?thesis using assms(1) by (simp add: isolated_receiver_def Let_def)
next
  case False
  let ?st = "\<lparr>cp_memory = M, cp_copies = []\<rparr>"
  have c: "copyable_type W (rv_type v)" using False assms(2) by (simp add: isolatable_text_type_def)
  obtain d' cp where copy: "copy_value W (rv_type v) (rv_data v) ?st = (d', cp)" by (metis surj_pair)
  have "copy_inv W M ?st" using assms(4) by (simp add: copy_inv_def grows_refl)
  from copy_ok(1) [OF copy this c assms(3)] have ok: "copy_inv W M cp" "copied W M cp (rv_type v) (rv_data v) d'"
    by (simp_all add: copies_ok_def)
  have "N = cp_memory cp" "d = d'"
    using assms(1) False copy by (auto simp: isolated_receiver_def Let_def split: option.splits sum.splits if_splits)
  then show ?thesis using False ok copyable_references [OF c] by (auto simp: copied_def copy_inv_def grows_def)
qed

theorem receiver_is_isolated_witness:
  "\<exists>N. isolated_receiver byte_env \<lparr>m_policy = NilPolicy, m_cfg = default_config\<rparr> byte_memory
       (value_of (SliceType plain_info 0) (SliceData 7 1 2)) 0 0 = (Inr (N, SliceData 100 1 2), 3)
    \<and> view_of byte_env N (SliceType plain_info 0) (SliceData 100 1 2)
       = view_of byte_env byte_memory (SliceType plain_info 0) (SliceData 7 1 2)
    \<and> all_slices (lies_in byte_env 100 (mem_top N)) (SliceType plain_info 0) (SliceData 100 1 2)"
proof -
  let ?v = "value_of (SliceType plain_info 0) (SliceData 7 1 2)"
  note defs = byte_env_def byte_memory_def plain_env_def value_of_def type_ref_def
  have r: "isolated_receiver byte_env \<lparr>m_policy = NilPolicy, m_cfg = default_config\<rparr> byte_memory ?v 0 0
      = (Inr (copy_storage 7 2 byte_memory, SliceData 100 1 2), 3)"
    by (simp add: defs isolated_receiver_def charge_copy_def default_config_def scan_slice_def saturating_mul_def
        max_inline_nodes_def add_range_def overlapping_def copy_slice_def)
  have other: "rv_type ?v \<notin> set (read_only_text_types byte_env)"
    by (simp add: defs)
  have "isolatable_text_type byte_env (rv_type ?v)"
      "receiver_ok byte_env byte_memory (rv_type ?v) (rv_data ?v)" "0 < mem_top byte_memory"
    by (simp_all add: defs isolatable_text_type_def lies_in_def)
  from receiver_is_isolated [OF r this] other show ?thesis
    unfolding r by (auto simp: byte_memory_def value_of_def)
qed

end
