(* ===== verification/Walk.thy ===== *)
theory Walk
  imports TextIsolation JsonWalk
begin

text \<open>
  The reflection walker (\<open>walk.go\<close>) and the operations on arbitrary values (\<open>masker.go\<close>).
  A value of Go is a reflected value over a read-only memory; \<open>None\<close> is the zero
  \<open>reflect.Value\<close> where a value is expected, and the omitted value where a result is.
\<close>

section \<open>The state of a walk\<close>

datatype path_segment = KeySegment bytes | IndexSegment nat

text \<open>
  \<open>ws_active\<close> is \<open>activeStack\<close>, the last identity first; the map \<open>active\<close> holds the same
  identities.  The nodes, failures and the stop flag are those of an inspection.
\<close>

record walk_state =
  ws_ins :: inspect_state
  ws_active :: "identity list"
  ws_root_path :: bytes
  ws_path :: "path_segment list"
  ws_indirections :: int
  ws_bytes :: int

definition marker_result :: "masker \<Rightarrow> go_result" where
  "marker_result m = ResultString (marker (m_cfg m))"

fun segment_text :: "path_segment \<Rightarrow> bytes" where
  "segment_text (KeySegment key) = ''['' @ key @ '']''"
| "segment_text (IndexSegment i) = ''['' @ itoa (int i) @ '']''"

definition walker_path :: "walk_state \<Rightarrow> bytes" where
  "walker_path st = (if ws_root_path st = [] then ''$'' else ws_root_path st) @ concat (map segment_text (ws_path st))"

definition locate_field :: "walk_state \<Rightarrow> field \<Rightarrow> field" where
  "locate_field st f = (if f_path f = [] then f\<lparr>f_path := walker_path st\<rparr> else f)"

definition push_segment :: "path_segment \<Rightarrow> walk_state \<Rightarrow> walk_state" where
  "push_segment s st = st\<lparr>ws_path := ws_path st @ [s]\<rparr>"

definition pop_path :: "walk_state \<Rightarrow> walk_state" where
  "pop_path st = st\<lparr>ws_path := butlast (ws_path st)\<rparr>"

abbreviation ws_stop :: "walk_state \<Rightarrow> bool" where
  "ws_stop st \<equiv> st_stop (ws_ins st)"

abbreviation ws_nodes :: "walk_state \<Rightarrow> int" where
  "ws_nodes st \<equiv> st_nodes (ws_ins st)"

abbreviation add_nodes :: "int \<Rightarrow> walk_state \<Rightarrow> walk_state" where
  "add_nodes n st \<equiv> st\<lparr>ws_ins := (ws_ins st)\<lparr>st_nodes := ws_nodes st + n\<rparr>\<rparr>"

definition walk_fail :: "golib \<Rightarrow> error_code \<Rightarrow> field \<Rightarrow> int \<Rightarrow> walk_state \<Rightarrow> walk_state" where
  "walk_fail L code f depth st = st\<lparr>ws_ins := fail_inspect L code (locate_field st f) depth (ws_ins st)\<rparr>"

definition walk_rule_fail :: "golib \<Rightarrow> error_code \<Rightarrow> field \<Rightarrow> rule \<Rightarrow> walk_state \<Rightarrow> walk_state" where
  "walk_rule_fail L code f r st =
     st\<lparr>ws_ins := (ws_ins st)\<lparr>st_errs := add_rule_error L code (locate_field st f) r (st_errs (ws_ins st))\<rparr>\<rparr>"

definition fail_conflict :: "golib \<Rightarrow> field \<Rightarrow> bytes \<Rightarrow> walk_state \<Rightarrow> walk_state" where
  "fail_conflict L f conflicting st =
     (if max_mask_errors \<le> length (st_errs (ws_ins st)) then st
      else (let f = locate_field st f;
                e = (new_mask_error (tables L) CodeFieldConflict ''mask'' (f_path f))
                  \<lparr>e_field := safe_diagnostic (tables L) (f_key f), e_conflicting := safe_diagnostic (tables L) conflicting\<rparr> in
        st\<lparr>ws_ins := (ws_ins st)\<lparr>st_errs := add_mask_error (st_errs (ws_ins st)) e\<rparr>\<rparr>))"

definition inspect_at :: "golib \<Rightarrow> masker \<Rightarrow> bytes \<Rightarrow> field \<Rightarrow> int \<Rightarrow> walk_state \<Rightarrow> (bytes \<times> bool) \<times> walk_state" where
  "inspect_at L m s f depth st = (case inspect_string L m depth s (locate_field st f) (ws_ins st) of
       (r, ins) \<Rightarrow> (r, st\<lparr>ws_ins := ins\<rparr>))"

definition charge_bytes :: "masker \<Rightarrow> nat \<Rightarrow> walk_state \<Rightarrow> walk_state option" where
  "charge_bytes m n st =
     (if max_input_bytes (m_cfg m) - ws_bytes st < int n then None else Some (st\<lparr>ws_bytes := ws_bytes st + int n\<rparr>))"

section \<open>Cycles\<close>

text \<open>\<open>track\<close>; \<open>None\<close> at a cycle, which is recorded.\<close>

definition track :: "golib \<Rightarrow> rvalue \<Rightarrow> field \<Rightarrow> int \<Rightarrow> walk_state \<Rightarrow> bool \<times> walk_state" where
  "track L v f depth st = (case value_identity v of
       None \<Rightarrow> (True, st)
     | Some x \<Rightarrow>
         if x \<in> set (ws_active st) then (False, walk_fail L CodeCycle f depth st)
         else (True, st\<lparr>ws_active := x # ws_active st\<rparr>))"

definition release_tracked :: "nat \<Rightarrow> walk_state \<Rightarrow> walk_state" where
  "release_tracked start st = st\<lparr>ws_active := drop (length (ws_active st) - start) (ws_active st)\<rparr>"

definition dereference :: "golib \<Rightarrow> masker \<Rightarrow> field \<Rightarrow> int \<Rightarrow> walk_state \<Rightarrow> bool \<times> walk_state" where
  "dereference L m f depth st =
     (let st = st\<lparr>ws_indirections := ws_indirections st + 1\<rparr> in
      if ws_indirections st \<le> max_nodes (m_cfg m) then (True, st)
      else (False, walk_fail L CodeNodeLimit f depth st))"

lemma track_indirections: "track L v f depth st = (b, st') \<Longrightarrow> ws_indirections st' = ws_indirections st"
  by (auto simp: track_def walk_fail_def split: option.splits if_splits)

lemma dereference_more:
  "dereference L m f depth st = (True, st') \<Longrightarrow> ws_indirections st < max_nodes (m_cfg m) \<and> ws_indirections st' = ws_indirections st + 1"
  by (auto simp: dereference_def Let_def split: if_splits)

text \<open>The loop over pointers: a value, nil, or a failure that was recorded.\<close>

datatype chased = Reached rvalue | ReachedNil | Blocked

function chase :: "golib \<Rightarrow> go_env \<Rightarrow> masker \<Rightarrow> memory \<Rightarrow> rvalue \<Rightarrow> field \<Rightarrow> int \<Rightarrow> walk_state \<Rightarrow> chased \<times> walk_state" where
  "chase L W m M v f depth st = (case (rv_type v, rv_data v) of
       (PointerType _ e, PointerData p) \<Rightarrow>
         if p = 0 then (ReachedNil, st)
         else (case track L v f depth st of
             (False, st) \<Rightarrow> (Blocked, st)
           | (True, st) \<Rightarrow> (case dereference L m f depth st of
               (False, st) \<Rightarrow> (Blocked, st)
             | (True, st) \<Rightarrow> (case unwrap_interfaces (pointer_elem W M v e p) of
                 None \<Rightarrow> (ReachedNil, st)
               | Some v \<Rightarrow> chase L W m M v f depth st)))
     | _ \<Rightarrow> (Reached v, st))"
  by pat_completeness auto

termination
  by (relation "measure (\<lambda>(L, W, m, M, v, f, depth, st). nat (max_nodes (m_cfg m) - ws_indirections st))")
     (auto dest!: track_indirections [OF sym] dereference_more [OF sym])

declare chase.simps [simp del]

section \<open>Text\<close>

definition byte_slice_value :: "go_env \<Rightarrow> rvalue \<Rightarrow> bool" where
  "byte_slice_value W v \<longleftrightarrow> (case (rv_type v, rv_data v) of
       (SliceType _ e, SliceData p _ _) \<Rightarrow> p \<noteq> 0 \<and> (case type_ref W e of
           ScalarType i (UintKind n) \<Rightarrow> n = 8 \<and> \<not> ti_text i \<and> \<not> ti_pointer_text i
         | _ \<Rightarrow> False)
     | _ \<Rightarrow> False)"

definition implements_text_marshaler :: "go_env \<Rightarrow> rvalue \<Rightarrow> bool" where
  "implements_text_marshaler W v \<longleftrightarrow>
     (if \<not> ti_methods (info_of (rv_type v)) \<and> rv_addr v = None then False
      else if \<not> can_interface v then False
      else (ti_text (info_of (rv_type v)) \<or> rv_addr v \<noteq> None \<and> ti_pointer_text (info_of (rv_type v)))
        \<and> isolatable_text_type W (rv_type v))"

definition textual_value :: "go_env \<Rightarrow> rvalue \<Rightarrow> bool" where
  "textual_value W v \<longleftrightarrow> implements_text_marshaler W v \<or> byte_slice_value W v"

text \<open>
  The content of a slice of bytes, and \<open>value.Bytes()\<close>: \<open>None\<close> where it panics, on a value
  that is no slice of bytes.
\<close>

definition byte_of_data :: "go_data \<Rightarrow> char" where
  "byte_of_data d = (case d of UintData n \<Rightarrow> chr n | _ \<Rightarrow> chr 0)"

definition slice_bytes :: "go_env \<Rightarrow> memory \<Rightarrow> rvalue \<Rightarrow> bytes" where
  "slice_bytes W M v = (case (rv_type v, rv_data v) of
       (SliceType _ e, SliceData p n _) \<Rightarrow>
         map (\<lambda>i. byte_of_data (rv_data (slice_index W M v e p i))) [0..<n]
     | _ \<Rightarrow> [])"

definition value_bytes :: "go_env \<Rightarrow> memory \<Rightarrow> rvalue \<Rightarrow> bytes option" where
  "value_bytes W M v = (case (rv_type v, rv_data v) of
       (SliceType _ e, SliceData p n _) \<Rightarrow>
         (case type_ref W e of
            ScalarType _ (UintKind bits) \<Rightarrow> if bits = 8 then Some (slice_bytes W M v) else None
          | _ \<Rightarrow> None)
     | _ \<Rightarrow> None)"

definition inspectable_scalar :: "go_env \<Rightarrow> masker \<Rightarrow> rvalue \<Rightarrow> bytes option" where
  "inspectable_scalar W m v = (case (rv_type v, rv_data v) of
       (ScalarType _ StringKind, StringData s) \<Rightarrow>
         if rv_type v = number_type W then None else if inspectable m s then Some s else None
     | _ \<Rightarrow> None)"

definition sensitive_bytes :: "golib \<Rightarrow> masker \<Rightarrow> bytes \<Rightarrow> field \<Rightarrow> int \<Rightarrow> walk_state \<Rightarrow> bool \<times> walk_state" where
  "sensitive_bytes L m raw f depth st =
     (if \<not> embedded (m_cfg m) \<and> \<not> text_detectors (m_cfg m) \<or> \<not> valid_utf8 raw then (False, st)
      else if \<not> inspectable m raw then (False, st)
      else (case inspect_at L m raw f depth st of ((_, changed), st) \<Rightarrow> (changed, st)))"

text \<open>Calling \<open>MarshalText\<close> on a receiver: the text or the category of the failure.\<close>

definition marshal_text :: "go_env \<Rightarrow> go_type \<Rightarrow> memory \<Rightarrow> go_data \<Rightarrow> error_code + bytes" where
  "marshal_text W t M d = (case contain_call (marshal_method W t M d) of
       Inl e \<Rightarrow> Inl (callback_code CodeUnsupportedType e)
     | Inr encoded \<Rightarrow> if \<not> valid_utf8 encoded then Inl CodeInvalidUTF8 else Inr encoded)"

text \<open>Standard base64 with padding.\<close>

definition base64_char :: "nat \<Rightarrow> char" where
  "base64_char n = ''ABCDEFGHIJKLMNOPQRSTUVWXYZabcdefghijklmnopqrstuvwxyz0123456789+/'' ! n"

fun base64_encode :: "bytes \<Rightarrow> bytes" where
  "base64_encode (a # b # c # rest) =
     (let n = byte a * 65536 + byte b * 256 + byte c in
      base64_char (n div 262144) # base64_char (n div 4096 mod 64) # base64_char (n div 64 mod 64)
        # base64_char (n mod 64) # base64_encode rest)"
| "base64_encode [a, b] =
     (let n = byte a * 256 + byte b in
      [base64_char (n div 1024), base64_char (n div 16 mod 64), base64_char (n mod 16 * 4), CHR ''=''])"
| "base64_encode [a] = [base64_char (byte a div 4), base64_char (byte a mod 4 * 16), CHR ''='', CHR ''='']"
| "base64_encode [] = []"

text \<open>\<open>renderText\<close>: the text, a failure that was recorded, or a panic of \<open>Bytes\<close>.\<close>

datatype rendered = Rendered bytes | RenderFailed | RenderPanic

definition render_text ::
    "golib \<Rightarrow> go_env \<Rightarrow> masker \<Rightarrow> memory \<Rightarrow> rvalue \<Rightarrow> field \<Rightarrow> int \<Rightarrow> walk_state \<Rightarrow> rendered \<times> walk_state" where
  "render_text L W m M v f depth st =
     (if \<not> implements_text_marshaler W v then
        (case value_bytes W M v of
           None \<Rightarrow> (RenderPanic, st)
         | Some raw \<Rightarrow> (case charge_bytes m (length raw) st of
             None \<Rightarrow> (RenderFailed, walk_fail L CodeInputLimit f depth st)
           | Some st \<Rightarrow> (case sensitive_bytes L m raw f depth st of
               (True, st) \<Rightarrow> (Rendered (marker (m_cfg m)), st)
             | (False, st) \<Rightarrow> (Rendered (base64_encode raw), st))))
      else (case isolated_receiver W m M v depth (ws_nodes st) of
          (r, nodes) \<Rightarrow>
            (let st = st\<lparr>ws_ins := (ws_ins st)\<lparr>st_nodes := nodes\<rparr>\<rparr> in
             case r of
               Inl (code, failDepth) \<Rightarrow> (RenderFailed, walk_fail L code f failDepth st)
             | Inr (N, d) \<Rightarrow> (case marshal_text W (rv_type v) N d of
                   Inl code \<Rightarrow> (RenderFailed, walk_fail L code f depth st)
                 | Inr encoded \<Rightarrow> (Rendered encoded, st)))))"

section \<open>Decisions\<close>

text \<open>Rules that redact fully and never look at the value.\<close>

definition redacts_fully :: "rule \<Rightarrow> bool" where
  "redacts_fully r \<longleftrightarrow> r = Builtin FullRule \<or> r = Builtin PasswordRule \<or> r = Builtin TokenRule"

definition apply_text_rule :: "golib \<Rightarrow> masker \<Rightarrow> rule \<Rightarrow> bytes \<Rightarrow> field \<Rightarrow> walk_state \<Rightarrow> go_result \<times> walk_state" where
  "apply_text_rule L m r txt f st =
     (case apply_rule (tables L) r \<lparr>ri_value = txt, ri_kind = f_kind f, ri_redaction = marker (m_cfg m)\<rparr> of
        Inl e \<Rightarrow> (marker_result m, walk_rule_fail L (callback_code CodeRuleFailure e) f r st)
      | Inr result \<Rightarrow> (ResultString result, st))"

text \<open>\<open>apply\<close>.\<close>

definition apply_value_rule ::
    "golib \<Rightarrow> go_env \<Rightarrow> masker \<Rightarrow> memory \<Rightarrow> rule \<Rightarrow> rvalue \<Rightarrow> field \<Rightarrow> int \<Rightarrow> walk_state \<Rightarrow> go_result \<times> walk_state" where
  "apply_value_rule L W m M r v f depth st =
     (if redacts_fully r then (marker_result m, st)
      else if textual_value W v then
        (case render_text L W m M v f depth st of
           (RenderFailed, st) \<Rightarrow> (marker_result m, st)
         | (RenderPanic, st) \<Rightarrow> (ResultPanic, st)
         | (Rendered txt, st) \<Rightarrow> apply_text_rule L m r txt f st)
      else apply_text_rule L m r (scalar_text W v) f st)"

text \<open>\<open>applyFieldDecision\<close>: \<open>None\<close> when no one decided.\<close>

definition decide_reflected ::
    "golib \<Rightarrow> go_env \<Rightarrow> masker \<Rightarrow> memory \<Rightarrow> rvalue \<Rightarrow> field \<Rightarrow> bytes \<Rightarrow> int \<Rightarrow> walk_state
      \<Rightarrow> go_result option option \<times> walk_state" where
  "decide_reflected L W m M v f tag depth st =
     (let decided = (\<lambda>(r, st). (Some (Some r), st)) in
      if tag \<noteq> [] then
        (if tag = ''omit'' then (Some None, st)
         else case tag_rules (m_cfg m) tag of
           None \<Rightarrow> (Some (Some (marker_result m)), walk_fail L CodeInvalidConfig f 0 st)
         | Some r \<Rightarrow> decided (apply_value_rule L W m M r v f depth st))
      else case call_policy (tables L) (m_policy m) f of
        Inl e \<Rightarrow> (Some (Some (marker_result m)), walk_fail L (callback_code CodePolicyFailure e) f 0 st)
      | Inr d \<Rightarrow>
          if dec_omit d then (Some None, st)
          else if \<not> is_nil_rule (dec_rule d) then
            decided (apply_value_rule L W m M
              (if f_source f = SourceHeader then Builtin FullRule else dec_rule d) v f depth st)
          else (None, st))"

text \<open>The second half of \<open>nilValue\<close>, on the rule a tag or the policy gave.\<close>

definition nil_with_rule :: "golib \<Rightarrow> masker \<Rightarrow> rule \<Rightarrow> field \<Rightarrow> walk_state \<Rightarrow> go_result \<times> walk_state" where
  "nil_with_rule L m r f st =
     (if is_nil_rule r then (ResultNil, st)
      else (let r = (if f_source f = SourceHeader then Builtin FullRule else r) in
        if redacts_fully r then (marker_result m, st)
        else apply_text_rule L m r [] f st))"

definition nil_value :: "golib \<Rightarrow> masker \<Rightarrow> field \<Rightarrow> bytes \<Rightarrow> walk_state \<Rightarrow> go_result option \<times> walk_state" where
  "nil_value L m f tag st =
     (let f = f\<lparr>f_kind := KindNil\<rparr>; decided = (\<lambda>(r, st). (Some r, st)) in
      if tag \<noteq> [] then
        (if tag = ''omit'' then (None, st)
         else case tag_rules (m_cfg m) tag of
           None \<Rightarrow> (Some (marker_result m), walk_fail L CodeInvalidConfig f 0 st)
         | Some r \<Rightarrow> decided (nil_with_rule L m r f st))
      else case call_policy (tables L) (m_policy m) f of
        Inl e \<Rightarrow> (Some (marker_result m), walk_fail L (callback_code CodePolicyFailure e) f 0 st)
      | Inr d \<Rightarrow>
          if dec_omit d then (None, st)
          else decided (nil_with_rule L m (dec_rule d) f st))"

section \<open>Raw messages\<close>

text \<open>
  What decoding a document into an \<open>any\<close> allocates: objects are maps, arrays are slices,
  and the document's numbers are \<open>json.Number\<close>s.  \<open>null\<close> is a nil interface.  A slice is
  given no spare capacity, which the decoder may give it: nothing the walker returns
  depends on it.
\<close>

abbreviation string_map_type :: "go_env \<Rightarrow> go_type" where
  "string_map_type W \<equiv> MapType plain_info (string_ref W) (any_ref W)"

abbreviation any_slice_type :: "go_env \<Rightarrow> go_type" where
  "any_slice_type W \<equiv> SliceType plain_info (any_ref W)"

definition bool_type :: go_type where
  "bool_type = ScalarType (plain_info\<lparr>ti_name := ''bool''\<rparr>) BoolKind"

definition store_map :: "go_env \<Rightarrow> (bytes \<times> go_data) list \<Rightarrow> memory \<Rightarrow> memory" where
  "store_map W entries M =
     M\<lparr>mem_entries := (\<lambda>a t. if a = mem_top M \<and> t = string_map_type W
          then map (\<lambda>(k, d). (StringData k, d)) entries else mem_entries M a t),
       mem_top := mem_top M + 1\<rparr>"

definition store_slice :: "go_env \<Rightarrow> go_data list \<Rightarrow> memory \<Rightarrow> memory" where
  "store_slice W ds M =
     (let any = type_ref W (any_ref W); width = size_of W any in
      M\<lparr>mem_cell := (\<lambda>a t. if mem_top M \<le> a \<and> a < mem_top M + length ds * width \<and> t = any
             then ds ! ((a - mem_top M) div width) else mem_cell M a t),
        mem_top := mem_top M + max (length ds * width) 1\<rparr>)"

fun decoded_value :: "go_env \<Rightarrow> json_tree \<Rightarrow> memory \<Rightarrow> (go_type \<times> go_data) option \<times> memory"
  and decoded_members :: "go_env \<Rightarrow> (bytes \<times> json_tree) list \<Rightarrow> memory \<Rightarrow> (bytes \<times> go_data) list \<times> memory"
  and decoded_elements :: "go_env \<Rightarrow> json_tree list \<Rightarrow> memory \<Rightarrow> go_data list \<times> memory" where
  "decoded_value W JsonNull M = (None, M)"
| "decoded_value W (JsonBool b) M = (Some (bool_type, BoolData b), M)"
| "decoded_value W (JsonString s) M = (Some (string_type, StringData s), M)"
| "decoded_value W (JsonNumber n) M = (Some (number_type W, StringData n), M)"
| "decoded_value W (JsonObject ms) M = (case decoded_members W ms M of
       (entries, M) \<Rightarrow> (Some (string_map_type W, MapData (mem_top M)), store_map W entries M))"
| "decoded_value W (JsonArray vs) M = (case decoded_elements W vs M of
       (ds, M) \<Rightarrow> (Some (any_slice_type W, SliceData (mem_top M) (length ds) (length ds)), store_slice W ds M))"
| "decoded_members W [] M = ([], M)"
| "decoded_members W ((key, v) # ms) M = (case decoded_value W v M of
       (x, M) \<Rightarrow> (case decoded_members W ms M of (entries, M) \<Rightarrow> ((key, InterfaceData x) # entries, M)))"
| "decoded_elements W [] M = ([], M)"
| "decoded_elements W (v # vs) M = (case decoded_value W v M of
       (x, M) \<Rightarrow> (case decoded_elements W vs M of (ds, M) \<Rightarrow> (InterfaceData x # ds, M)))"

text \<open>
  \<open>decodeRawMessage\<close>: \<open>None\<close> on a failure, else the decoded value and the memory that
  holds it.  \<open>json.RawMessage\<close> is a slice of bytes by its declaration, so \<open>Bytes\<close> cannot
  panic on one.
\<close>

definition decode_raw_message ::
    "golib \<Rightarrow> go_env \<Rightarrow> masker \<Rightarrow> memory \<Rightarrow> rvalue \<Rightarrow> field \<Rightarrow> int \<Rightarrow> walk_state
      \<Rightarrow> (rvalue option \<times> memory) option \<times> walk_state" where
  "decode_raw_message L W m M v f depth st =
     (if (case rv_data v of SliceData p _ _ \<Rightarrow> p = 0 | _ \<Rightarrow> False) then (Some (None, M), st)
      else (let data = slice_bytes W M v in
        case charge_bytes m (length data) st of
          None \<Rightarrow> (None, walk_fail L CodeInputLimit f depth st)
        | Some st \<Rightarrow>
            if \<not> valid_utf8 data then (None, walk_fail L CodeInvalidUTF8 f depth st)
            else case decode_json data 0 of
              None \<Rightarrow> (None, walk_fail L CodeInvalidJSON f depth st)
            | Some (decoded, next) \<Rightarrow>
                if skip_json_space data next \<noteq> length data then (None, walk_fail L CodeInvalidJSON f depth st)
                else (case decoded_value W decoded M of
                    (x, N) \<Rightarrow> (Some (map_option (\<lambda>(t, d). value_of t d) x, N), st))))"

section \<open>Entering a value\<close>

type_synonym go_walker =
  "memory \<Rightarrow> rvalue option \<Rightarrow> field \<Rightarrow> int \<Rightarrow> bytes \<Rightarrow> walk_state \<Rightarrow> go_result option \<times> walk_state"

record walk_node =
  wn_value :: rvalue
  wn_field :: field
  wn_textual :: bool
  wn_start :: nat

text \<open>The part of \<open>enter\<close> after the value was unwrapped, for a value that is no raw message.\<close>

definition enter_reached ::
    "golib \<Rightarrow> go_env \<Rightarrow> masker \<Rightarrow> memory \<Rightarrow> nat \<Rightarrow> rvalue \<Rightarrow> field \<Rightarrow> int \<Rightarrow> bytes \<Rightarrow> walk_state
      \<Rightarrow> (go_result option + walk_node) \<times> walk_state" where
  "enter_reached L W m M start v f depth tag st =
     (let textual = textual_value W v;
          f = (if textual then f\<lparr>f_kind := KindString\<rparr> else f);
          shared = (case rv_type v of MapType _ _ _ \<Rightarrow> True | SliceType _ _ \<Rightarrow> True | _ \<Rightarrow> False) in
      case (if \<not> textual \<and> shared then track L v f depth st else (True, st)) of
        (False, st) \<Rightarrow> (Inl (Some (marker_result m)), release_tracked start st)
      | (True, st) \<Rightarrow>
          (let f = (if f_kind f = KindInvalid then f\<lparr>f_kind := kind_of_reflect W v\<rparr> else f) in
           if \<not> textual \<and> (case (rv_type v, rv_data v) of
               (ScalarType _ StringKind, StringData s) \<Rightarrow> \<not> valid_utf8 s | _ \<Rightarrow> False)
           then (Inl (Some (marker_result m)), release_tracked start (walk_fail L CodeInvalidUTF8 f depth st))
           else (case decide_reflected L W m M v f tag depth st of
               (Some result, st) \<Rightarrow> (Inl result, release_tracked start st)
             | (None, st) \<Rightarrow>
                 (Inr \<lparr>wn_value = v, wn_field = f, wn_textual = textual, wn_start = start\<rparr>, st))))"

text \<open>\<open>enter\<close>; \<open>walk\<close> walks a document that was decoded.  \<open>Inl\<close> is a final result.\<close>

definition enter_value ::
    "golib \<Rightarrow> go_env \<Rightarrow> masker \<Rightarrow> go_walker \<Rightarrow> memory \<Rightarrow> rvalue option \<Rightarrow> field \<Rightarrow> int \<Rightarrow> bytes \<Rightarrow> walk_state
      \<Rightarrow> (go_result option + walk_node) \<times> walk_state" where
  "enter_value L W m walk M v f depth tag st =
     (let failed = (\<lambda>st. (Inl (Some (marker_result m)), st)); final = (\<lambda>(r, st). (Inl r, st)) in
      if ws_stop st then failed st
      else if \<not> valid_utf8 (f_key f) then failed (walk_fail L CodeInvalidUTF8 f depth st)
      else if max_depth (m_cfg m) < depth then failed (walk_fail L CodeDepthLimit f depth st)
      else (let st = add_nodes 1 st in
        if max_nodes (m_cfg m) < ws_nodes st then failed (walk_fail L CodeNodeLimit f depth st)
        else case Option.bind v unwrap_interfaces of
          None \<Rightarrow> final (nil_value L m f tag st)
        | Some v \<Rightarrow>
            (let start = length (ws_active st) in
             case chase L W m M v f depth st of
               (ReachedNil, st) \<Rightarrow> final (nil_value L m f tag (release_tracked start st))
             | (Blocked, st) \<Rightarrow> failed (release_tracked start st)
             | (Reached v, st) \<Rightarrow>
                 if rv_type v = raw_message_type W then
                   (case decode_raw_message L W m M v f depth (release_tracked start st) of
                      (None, st) \<Rightarrow> failed st
                    | (Some (decoded, N), st) \<Rightarrow>
                        final (walk N decoded (if f_source f \<noteq> SourceHeader then f\<lparr>f_source := SourceJSON\<rparr> else f)
                          depth tag (add_nodes (- 1) st)))
                 else enter_reached L W m M start v f depth tag st)))"

section \<open>Containers\<close>

definition child_path :: "masker \<Rightarrow> bytes \<Rightarrow> bytes" where
  "child_path m path = (if need_paths (m_cfg m) then path else [])"

text \<open>A child walked one segment further down.\<close>

definition walk_child ::
    "path_segment \<Rightarrow> (walk_state \<Rightarrow> go_result option \<times> walk_state) \<Rightarrow> walk_state \<Rightarrow> go_result option \<times> walk_state" where
  "walk_child seg walk st = (case walk (push_segment seg st) of (r, st) \<Rightarrow> (r, pop_path st))"

definition put_optional :: "bytes \<Rightarrow> go_result option \<Rightarrow> (bytes \<times> go_result) list \<Rightarrow> (bytes \<times> go_result) list" where
  "put_optional key r result = (case r of None \<Rightarrow> result | Some r \<Rightarrow> put_result key r result)"

definition entry_key :: "go_data \<Rightarrow> bytes" where
  "entry_key k = (case k of StringData s \<Rightarrow> s | _ \<Rightarrow> [])"

definition map_child_field :: "masker \<Rightarrow> field \<Rightarrow> bytes \<Rightarrow> field" where
  "map_child_field m f key =
     \<lparr>f_key = key, f_path = child_path m (path_for (f_path f) key),
      f_source = (if f_source f = SourceUnknown then SourceMap else f_source f), f_kind = KindInvalid\<rparr>"

definition array_child_field :: "masker \<Rightarrow> field \<Rightarrow> nat \<Rightarrow> field" where
  "array_child_field m f i =
     \<lparr>f_key = [], f_path = child_path m (path_for_index (f_path f) i), f_source = f_source f, f_kind = KindInvalid\<rparr>"

fun map_entries ::
    "golib \<Rightarrow> go_env \<Rightarrow> masker \<Rightarrow> go_walker \<Rightarrow> memory \<Rightarrow> rvalue \<Rightarrow> type_id \<Rightarrow> field \<Rightarrow> int
      \<Rightarrow> (go_data \<times> go_data) list \<Rightarrow> (bytes \<times> go_result) list \<Rightarrow> walk_state \<Rightarrow> (bytes \<times> go_result) list \<times> walk_state" where
  "map_entries L W m walk M v e f depth [] result st = (result, st)"
| "map_entries L W m walk M v e f depth ((k, d) # entries) result st =
     (if ws_stop st then (result, st)
      else (case walk_child (KeySegment (entry_key k))
          (walk M (Some (entry_value W v e d)) (map_child_field m f (entry_key k)) (depth + 1) []) st of
        (r, st) \<Rightarrow>
          if ws_stop st then (result, st)
          else map_entries L W m walk M v e f depth entries (put_optional (entry_key k) r result) st))"

definition map_value ::
    "golib \<Rightarrow> go_env \<Rightarrow> masker \<Rightarrow> go_walker \<Rightarrow> memory \<Rightarrow> rvalue \<Rightarrow> field \<Rightarrow> int \<Rightarrow> walk_state \<Rightarrow> go_result \<times> walk_state" where
  "map_value L W m walk M v f depth st = (case (rv_type v, rv_data v) of
       (MapType i k e, MapData p) \<Rightarrow>
         (case type_ref W k of
            ScalarType _ StringKind \<Rightarrow>
              (case map_entries L W m walk M v e f depth (if p = 0 then [] else mem_entries M p (rv_type v)) [] st of
                 (result, st) \<Rightarrow> (ResultMap result, st))
          | _ \<Rightarrow> (marker_result m, walk_fail L CodeUnsupportedKey f depth st))
     | _ \<Rightarrow> (ResultPanic, st))"

text \<open>The loop over the elements of a slice or array, given as values.\<close>

fun array_elements ::
    "masker \<Rightarrow> go_walker \<Rightarrow> memory \<Rightarrow> field \<Rightarrow> int \<Rightarrow> nat \<Rightarrow> rvalue list \<Rightarrow> go_result list \<Rightarrow> walk_state
      \<Rightarrow> go_result list \<times> walk_state" where
  "array_elements m walk M f depth i [] result st = (result, st)"
| "array_elements m walk M f depth i (v # vs) result st =
     (if ws_stop st then (result, st)
      else (case walk_child (IndexSegment i) (walk M (Some v) (array_child_field m f i) (depth + 1) []) st of
        (r, st) \<Rightarrow>
          if ws_stop st then (result, st)
          else array_elements m walk M f depth (Suc i) vs
            (result @ [case r of None \<Rightarrow> ResultNil | Some r \<Rightarrow> r]) st))"

text \<open>What \<open>Len\<close> and \<open>Index\<close> give; \<open>None\<close> where they panic, on a value of another kind.\<close>

definition element_values :: "go_env \<Rightarrow> memory \<Rightarrow> rvalue \<Rightarrow> rvalue list option" where
  "element_values W M v = (case (rv_type v, rv_data v) of
       (SliceType _ e, SliceData p n _) \<Rightarrow> Some (map (slice_index W M v e p) [0..<n])
     | (ArrayType _ _ t, ArrayData ds) \<Rightarrow> Some (map (array_index W v t ds) [0..<length ds])
     | _ \<Rightarrow> None)"

definition array_value ::
    "golib \<Rightarrow> go_env \<Rightarrow> masker \<Rightarrow> go_walker \<Rightarrow> memory \<Rightarrow> rvalue \<Rightarrow> field \<Rightarrow> int \<Rightarrow> walk_state \<Rightarrow> go_result \<times> walk_state" where
  "array_value L W m walk M v f depth st =
     (case element_values W M v of
        None \<Rightarrow> (ResultPanic, st)
      | Some vs \<Rightarrow> (case array_elements m walk M f depth 0 vs [] st of
          (result, st) \<Rightarrow> (ResultSlice result, st)))"

section \<open>Structs\<close>

text \<open>\<open>applyCompiledFieldDecision\<close>.\<close>

definition compiled_decision ::
    "golib \<Rightarrow> go_env \<Rightarrow> masker \<Rightarrow> memory \<Rightarrow> rvalue \<Rightarrow> field \<Rightarrow> field_metadata \<Rightarrow> int \<Rightarrow> walk_state
      \<Rightarrow> go_result option option \<times> walk_state" where
  "compiled_decision L W m M v f fm depth st =
     (let decided = (\<lambda>(r, st). (Some (Some r), st)) in
      if fm_mask_tag fm \<noteq> [] then
        (if fm_mask_tag fm = ''omit'' then (Some None, st)
         else case fm_tag_rule fm of
           None \<Rightarrow> (Some (Some (marker_result m)), walk_fail L CodeInvalidConfig f 0 st)
         | Some r \<Rightarrow> decided (apply_value_rule L W m M r v f depth st))
      else if sd_known (fm_policy fm) then
        (if sd_omit (fm_policy fm) then (Some None, st)
         else if \<not> is_nil_rule (sd_rule (fm_policy fm)) then
           decided (apply_value_rule L W m M (sd_rule (fm_policy fm)) v f depth st)
         else (None, st))
      else decide_reflected L W m M v f [] depth st)"

text \<open>What \<open>dispatch\<close> and the flat path return for a scalar that no one decided.\<close>

definition undecided_scalar ::
    "golib \<Rightarrow> go_env \<Rightarrow> masker \<Rightarrow> rvalue \<Rightarrow> field \<Rightarrow> int \<Rightarrow> walk_state \<Rightarrow> go_result \<times> walk_state" where
  "undecided_scalar L W m v f depth st =
     (let safe = safe_scalar W v (preserve_safe (m_cfg m)) (marker_result m) in
      case inspectable_scalar W m v of
        None \<Rightarrow> (safe, st)
      | Some s \<Rightarrow> (case inspect_at L m s f depth st of
            ((masked, changed), st) \<Rightarrow> (if changed then ResultString masked else safe, st)))"

definition walk_flat_scalar ::
    "golib \<Rightarrow> go_env \<Rightarrow> masker \<Rightarrow> memory \<Rightarrow> rvalue \<Rightarrow> field \<Rightarrow> int \<Rightarrow> field_metadata \<Rightarrow> walk_state
      \<Rightarrow> go_result option \<times> walk_state" where
  "walk_flat_scalar L W m M v f depth fm st =
     (if max_depth (m_cfg m) < depth then (Some (marker_result m), walk_fail L CodeDepthLimit f depth st)
      else (let st = add_nodes 1 st in
        if max_nodes (m_cfg m) < ws_nodes st then (Some (marker_result m), walk_fail L CodeNodeLimit f depth st)
        else if (case (rv_type v, rv_data v) of (ScalarType _ StringKind, StringData s) \<Rightarrow> \<not> valid_utf8 s | _ \<Rightarrow> False)
        then (Some (marker_result m), walk_fail L CodeInvalidUTF8 f depth st)
        else case compiled_decision L W m M v f fm depth st of
          (Some result, st) \<Rightarrow> (result, st)
        | (None, st) \<Rightarrow> (case undecided_scalar L W m v f depth st of (r, st) \<Rightarrow> (Some r, st))))"

definition struct_child_field :: "masker \<Rightarrow> field \<Rightarrow> field_metadata \<Rightarrow> value_kind \<Rightarrow> field" where
  "struct_child_field m f fm kind =
     \<lparr>f_key = fm_json_name fm, f_path = child_path m (path_for (f_path f) (fm_json_name fm)),
      f_source = SourceStruct, f_kind = kind\<rparr>"

text \<open>The loop of \<open>flatScalarStructValue\<close>; \<open>Field\<close> panics on an index that is none of the struct's.\<close>

fun flat_fields ::
    "golib \<Rightarrow> go_env \<Rightarrow> masker \<Rightarrow> memory \<Rightarrow> rvalue \<Rightarrow> field \<Rightarrow> int \<Rightarrow> field_metadata list
      \<Rightarrow> (bytes \<times> go_result) list \<Rightarrow> walk_state \<Rightarrow> (bytes \<times> go_result) list \<times> walk_state" where
  "flat_fields L W m M v f depth [] result st = (result, st)"
| "flat_fields L W m M v f depth (fm # fms) result st =
     (if ws_stop st then (result, st)
      else if fm_json_omit fm \<or> fm_mask_tag fm = ''omit'' then flat_fields L W m M v f depth fms result st
      else case field_step W v (hd (fm_index fm)) of
        None \<Rightarrow> (put_result (fm_json_name fm) ResultPanic result, st)
      | Some x \<Rightarrow>
          (case walk_child (KeySegment (fm_json_name fm))
              (walk_flat_scalar L W m M x (struct_child_field m f fm (fm_kind fm)) (depth + 1) fm) st of
            (r, st) \<Rightarrow>
              if ws_stop st then (result, st)
              else flat_fields L W m M v f depth fms (put_optional (fm_json_name fm) r result) st))"

definition report_conflict ::
    "golib \<Rightarrow> masker \<Rightarrow> field \<Rightarrow> conflict_metadata \<Rightarrow> bytes \<Rightarrow> walk_state \<Rightarrow> walk_state" where
  "report_conflict L m f c conflicting st =
     pop_path (fail_conflict L
       \<lparr>f_key = cm_field c, f_path = child_path m (path_for (f_path f) (cm_field c)),
        f_source = SourceStruct, f_kind = KindInvalid\<rparr>
       conflicting (push_segment (KeySegment (cm_field c)) st))"

definition report_conflicts :: "golib \<Rightarrow> masker \<Rightarrow> field \<Rightarrow> conflict_metadata list \<Rightarrow> walk_state \<Rightarrow> walk_state" where
  "report_conflicts L m f cs st =
     fold (\<lambda>c. fold (\<lambda>conflicting. report_conflict L m f c conflicting) (cm_conflicting c)) cs st"

text \<open>The loop of \<open>structValue\<close> over the fields of a struct that is not flat.\<close>

fun struct_fields ::
    "golib \<Rightarrow> go_env \<Rightarrow> masker \<Rightarrow> go_walker \<Rightarrow> memory \<Rightarrow> rvalue \<Rightarrow> field \<Rightarrow> int \<Rightarrow> field_metadata list
      \<Rightarrow> (bytes \<times> go_result) list \<Rightarrow> walk_state \<Rightarrow> (bytes \<times> go_result) list \<times> walk_state" where
  "struct_fields L W m walk M v f depth [] result st = (result, st)"
| "struct_fields L W m walk M v f depth (fm # fms) result st =
     (if ws_stop st then (result, st)
      else case field_by_index W M v (fm_index fm) of
        None \<Rightarrow> struct_fields L W m walk M v f depth fms result st
      | Some x \<Rightarrow>
          if fm_json_omit fm \<or> fm_mask_tag fm = ''omit'' then struct_fields L W m walk M v f depth fms result st
          else (case walk_child (KeySegment (fm_json_name fm))
              (if fm_flat_scalar fm
               then walk_flat_scalar L W m M x (struct_child_field m f fm (fm_kind fm)) (depth + 1) fm
               else walk M (Some x) (struct_child_field m f fm KindInvalid) (depth + 1) (fm_mask_tag fm)) st of
            (r, st) \<Rightarrow> struct_fields L W m walk M v f depth fms (put_optional (fm_json_name fm) r result) st))"

definition struct_value ::
    "golib \<Rightarrow> go_env \<Rightarrow> masker \<Rightarrow> go_walker \<Rightarrow> memory \<Rightarrow> rvalue \<Rightarrow> field \<Rightarrow> int \<Rightarrow> walk_state \<Rightarrow> go_result \<times> walk_state" where
  "struct_value L W m walk M v f depth st =
     (let sm = build_struct_metadata (tables L) W (rv_type v) (struct_tag (m_cfg m)) (tag_rules (m_cfg m)) (m_policy m) in
      case (if sm_flat_scalar sm then flat_fields L W m M v f depth (sm_fields sm) [] st
            else struct_fields L W m walk M v f depth (sm_fields sm) []
              (report_conflicts L m f (sm_conflicts sm) st)) of
        (result, st) \<Rightarrow> (ResultMap result, st))"

section \<open>The walk\<close>

definition dispatch ::
    "golib \<Rightarrow> go_env \<Rightarrow> masker \<Rightarrow> go_walker \<Rightarrow> memory \<Rightarrow> walk_node \<Rightarrow> int \<Rightarrow> walk_state \<Rightarrow> go_result \<times> walk_state" where
  "dispatch L W m walk M node depth st =
     (let v = wn_value node; f = wn_field node in
      if wn_textual node then
        (case render_text L W m M v f depth st of
           (RenderFailed, st) \<Rightarrow> (marker_result m, st)
         | (RenderPanic, st) \<Rightarrow> (ResultPanic, st)
         | (Rendered txt, st) \<Rightarrow>
             if implements_text_marshaler W v \<and> inspectable m txt then
               (case inspect_at L m txt f depth st of
                  ((masked, changed), st) \<Rightarrow> (ResultString (if changed then masked else txt), st))
             else (ResultString txt, st))
      else if is_basic_scalar (rv_type v) then undecided_scalar L W m v f depth st
      else case rv_type v of
        MapType _ _ _ \<Rightarrow> map_value L W m walk M v f depth st
      | SliceType _ _ \<Rightarrow> array_value L W m walk M v f depth st
      | ArrayType _ _ _ \<Rightarrow> array_value L W m walk M v f depth st
      | StructType _ _ \<Rightarrow> struct_value L W m walk M v f depth st
      | _ \<Rightarrow> (marker_result m, walk_fail L CodeUnsupportedType f depth st))"

definition walk_at :: "golib \<Rightarrow> go_env \<Rightarrow> masker \<Rightarrow> go_walker \<Rightarrow> go_walker" where
  "walk_at L W m walk M v f depth tag st =
     (case enter_value L W m walk M v f depth tag st of
        (Inl result, st) \<Rightarrow> (result, st)
      | (Inr node, st) \<Rightarrow> (case dispatch L W m walk M node depth st of
          (r, st) \<Rightarrow> (Some r, release_tracked (wn_start node) st)))"

text \<open>
  A level is used up by every step into a child, which is one deeper, and by a raw
  message, whose decoded value is none; the depth limit bounds both.
\<close>

fun walk_fuel :: "golib \<Rightarrow> go_env \<Rightarrow> masker \<Rightarrow> nat \<Rightarrow> go_walker" where
  "walk_fuel L W m 0 M v f depth tag st = (Some (marker_result m), st)"
| "walk_fuel L W m (Suc n) M v f depth tag st = walk_at L W m (walk_fuel L W m n) M v f depth tag st"

definition walk_levels :: "masker \<Rightarrow> int \<Rightarrow> nat" where
  "walk_levels m depth = 2 * nat (max_depth (m_cfg m) + 1 - depth) + 2"

definition walk_value :: "golib \<Rightarrow> go_env \<Rightarrow> masker \<Rightarrow> go_walker" where
  "walk_value L W m M v f depth tag st = walk_fuel L W m (walk_levels m depth) M v f depth tag st"

section \<open>Operations\<close>

definition mask_root ::
    "golib \<Rightarrow> go_env \<Rightarrow> masker \<Rightarrow> memory \<Rightarrow> rvalue option \<Rightarrow> field \<Rightarrow> go_result \<times> go_error option" where
  "mask_root L W m M v root =
     (case walk_value L W m M v root 0 []
        \<lparr>ws_ins = \<lparr>st_nodes = 0, st_errs = [], st_stop = False\<rparr>, ws_active = [], ws_root_path = f_path root,
         ws_path = [], ws_indirections = 0, ws_bytes = 0\<rparr> of
        (r, st) \<Rightarrow> ((case r of None \<Rightarrow> ResultNil | Some r \<Rightarrow> r), aggregate_errors (st_errs (ws_ins st))))"

text \<open>
  \<open>maskScalarField\<close>: \<open>None\<close> when the value is left to the walker, else the result, which
  is \<open>None\<close> when omitted, and the error.
\<close>

definition mask_scalar_field ::
    "golib \<Rightarrow> go_env \<Rightarrow> masker \<Rightarrow> field \<Rightarrow> rvalue option \<Rightarrow> (go_result option \<times> go_error option) option" where
  "mask_scalar_field L W m f v =
     (let failed = (\<lambda>e. Some (Some (marker_result m), Some e));
          bad_text = MaskError (new_mask_error (tables L) CodeInvalidUTF8 ''mask'' (f_path f)) in
      if \<not> valid_utf8 (f_key f) then failed bad_text
      else case v of
        None \<Rightarrow> None
      | Some v \<Rightarrow>
          if textual_value W v then None
          else if \<not> is_basic_scalar (rv_type v) then None
          else (let f = (if f_kind f = KindInvalid then f\<lparr>f_kind := kind_of_reflect W v\<rparr> else f) in
            if (case (rv_type v, rv_data v) of (ScalarType _ StringKind, StringData s) \<Rightarrow> \<not> valid_utf8 s | _ \<Rightarrow> False)
            then failed bad_text
            else case call_policy (tables L) (m_policy m) f of
              Inl e \<Rightarrow> failed (MaskErrors [new_field_error (tables L) (callback_code CodePolicyFailure e) f 0])
            | Inr d \<Rightarrow>
                if dec_omit d then Some (None, None)
                else if is_nil_rule (dec_rule d) then
                  (let safe = Some (Some (safe_scalar W v (preserve_safe (m_cfg m)) (marker_result m)), None) in
                   case inspectable_scalar W m v of
                     None \<Rightarrow> safe
                   | Some s \<Rightarrow>
                       (case inspect_string L m 0 s f \<lparr>st_nodes = 1, st_errs = [], st_stop = False\<rparr> of
                          ((masked, changed), st) \<Rightarrow>
                            if \<not> changed then safe
                            else if st_errs st \<noteq> [] then failed (MaskErrors (st_errs st))
                            else Some (Some (ResultString masked), None)))
                else (let r = (if f_source f = SourceHeader then Builtin FullRule else dec_rule d) in
                  case apply_rule (tables L) r
                      \<lparr>ri_value = scalar_text W v, ri_kind = f_kind f, ri_redaction = marker (m_cfg m)\<rparr> of
                    Inl e \<Rightarrow> failed (MaskErrors [rule_field_error (tables L) (callback_code CodeRuleFailure e) f r])
                  | Inr result \<Rightarrow> Some (Some (ResultString result), None))))"

text \<open>
  The operations; a nil masker is \<open>None\<close>.  User code is contained where it is called, so
  the deferred recovery has nothing left to catch.
\<close>

definition mask_any ::
    "golib \<Rightarrow> go_env \<Rightarrow> masker option \<Rightarrow> memory \<Rightarrow> rvalue option \<Rightarrow> go_result \<times> go_error option" where
  "mask_any L W m M v = (case m of
       None \<Rightarrow> (ResultString default_redaction_marker, Some (Wrapped CodeInvalidConfig))
     | Some m \<Rightarrow>
         (case mask_root L W m M v \<lparr>f_key = [], f_path = ''$'', f_source = SourceAny, f_kind = KindInvalid\<rparr> of
            (_, Some e) \<Rightarrow> (marker_result m, Some e)
          | (r, None) \<Rightarrow> (r, None)))"

definition mask_field ::
    "golib \<Rightarrow> go_env \<Rightarrow> masker option \<Rightarrow> field \<Rightarrow> memory \<Rightarrow> rvalue option \<Rightarrow> go_result \<times> go_error option" where
  "mask_field L W m f M v = (case m of
       None \<Rightarrow> (ResultString default_redaction_marker, Some (Wrapped CodeInvalidConfig))
     | Some m \<Rightarrow>
         (let f = (if f_path f = [] then f\<lparr>f_path := ''$['' @ f_key f @ '']''\<rparr> else f) in
          case mask_scalar_field L W m f v of
            Some (_, Some e) \<Rightarrow> (marker_result m, Some e)
          | Some (scalar, None) \<Rightarrow> ((case scalar of None \<Rightarrow> ResultNil | Some r \<Rightarrow> r), None)
          | None \<Rightarrow> (case mask_root L W m M v f of
                (_, Some e) \<Rightarrow> (marker_result m, Some e)
              | (r, None) \<Rightarrow> (r, None))))"

definition mask_value ::
    "golib \<Rightarrow> go_env \<Rightarrow> masker option \<Rightarrow> bytes \<Rightarrow> memory \<Rightarrow> rvalue option \<Rightarrow> go_result \<times> go_error option" where
  "mask_value L W m key M v =
     mask_field L W m \<lparr>f_key = key, f_path = ''$['' @ key @ '']'', f_source = SourceMap, f_kind = KindInvalid\<rparr> M v"

end
