(* ===== verification/WalkSound.thy ===== *)
theory WalkSound
  imports Walk
begin

text \<open>
  What the reflection walker guarantees: it ends on every memory, cyclic ones included,
  its bookkeeping is restored when it returns, and no failure is lost.
\<close>

section \<open>Enough levels\<close>

text \<open>
  What is known of the types of the environment: \<open>json.Number\<close> is a defined string type
  other than \<open>string\<close> and \<open>json.RawMessage\<close> a defined type of byte slices, and \<open>any\<close> and \<open>string\<close> are in the table.
\<close>

definition env_ok :: "go_env \<Rightarrow> bool" where
  "env_ok W \<longleftrightarrow> (\<exists>i. number_type W = ScalarType i StringKind \<and> ti_name i \<noteq> [])
     \<and> number_type W \<noteq> string_type
     \<and> (\<exists>i e j. raw_message_type W = SliceType i e \<and> ti_name i \<noteq> [] \<and> type_ref W e = ScalarType j (UintKind 8))
     \<and> type_ref W (string_ref W) = string_type \<and> type_ref W (any_ref W) = InterfaceType plain_info"

text \<open>A value that is neither wrapped nor a raw message, as a decoded document is.\<close>

definition unwrapped :: "go_env \<Rightarrow> rvalue option \<Rightarrow> bool" where
  "unwrapped W v \<longleftrightarrow> (case v of None \<Rightarrow> True
     | Some v \<Rightarrow> \<not> is_interface (rv_type v) \<and> \<not> is_pointer (rv_type v) \<and> rv_type v \<noteq> raw_message_type W)"

lemma decode_raw_cases:
  assumes "decode_raw_message L W m M v f depth st = (Some (x, N), st')"
  shows "x = None \<and> N = M \<and> st' = st
    \<or> (\<exists>j y. decoded_value W j M = (y, N) \<and> x = map_option (\<lambda>(t, d). value_of t d) y
        \<and> charge_bytes m (length (slice_bytes W M v)) st = Some st')"
  using assms by (auto simp: decode_raw_message_def Let_def split: if_splits option.splits prod.splits)

lemma decoded_unwrapped:
  assumes "env_ok W" and "decode_raw_message L W m M v f depth st = (Some (x, N), st')"
  shows "unwrapped W x"
proof -
  have u: "unwrapped W (map_option (\<lambda>(t, d). value_of t d) (fst (decoded_value W j M)))" for j
    using assms(1) by (cases j) (auto simp: unwrapped_def value_of_def env_ok_def bool_type_def string_type_def
        plain_info_def split: prod.splits)
  from decode_raw_cases [OF assms(2)] show ?thesis
  proof (elim disjE exE conjE)
    fix j y assume "decoded_value W j M = (y, N)" "x = map_option (\<lambda>(t, d). value_of t d) y"
    then show ?thesis using u [of j] by simp
  qed (simp add: unwrapped_def)
qed

lemma chase_unwrapped:
  "\<not> is_pointer (rv_type v) \<Longrightarrow> chase L W m M v f depth st = (Reached v, st)"
  by (subst chase.simps) (cases "rv_type v"; simp)

lemma enter_value_cong:
  assumes "env_ok W"
    and "\<And>N x g u. \<not> unwrapped W v \<Longrightarrow> unwrapped W x \<Longrightarrow> walk N x g depth tag u = walk' N x g depth tag u"
  shows "enter_value L W m walk M v f depth tag st = enter_value L W m walk' M v f depth tag st"
proof (cases "unwrapped W v")
  case True
  then show ?thesis
    by (cases v) (auto simp: enter_value_def Let_def unwrapped_def unwrap_interfaces_def chase_unwrapped)
next
  case False
  then show ?thesis using assms(2) [OF False] decoded_unwrapped [OF assms(1)]
    unfolding enter_value_def Let_def
    by (auto split: option.splits prod.splits chased.splits)
qed

lemma enter_value_deep:
  "max_depth (m_cfg m) < depth \<Longrightarrow> \<exists>r st'. enter_value L W m walk M v f depth tag st = (Inl r, st')
     \<and> enter_value L W m walk' M v f depth tag st = (Inl r, st')"
  by (auto simp: enter_value_def Let_def)

lemma map_entries_cong:
  assumes "\<And>N x g t u. walk N x g (depth + 1) t u = walk' N x g (depth + 1) t u"
  shows "map_entries L W m walk M v e f depth entries result st = map_entries L W m walk' M v e f depth entries result st"
proof (induction entries arbitrary: result st)
  case (Cons kd entries)
  obtain k d where "kd = (k, d)" by (cases kd)
  then show ?case by (simp add: Cons.IH assms walk_child_def Let_def split: prod.split)
qed simp

lemma array_elements_cong:
  assumes "\<And>N x g t u. walk N x g (depth + 1) t u = walk' N x g (depth + 1) t u"
  shows "array_elements m walk M f depth i vs result st = array_elements m walk' M f depth i vs result st"
proof (induction vs arbitrary: i result st)
  case (Cons v vs)
  show ?case by (simp add: Cons.IH assms walk_child_def Let_def split: prod.split)
qed simp

lemma struct_fields_cong:
  assumes "\<And>N x g t u. walk N x g (depth + 1) t u = walk' N x g (depth + 1) t u"
  shows "struct_fields L W m walk M v f depth fms result st = struct_fields L W m walk' M v f depth fms result st"
proof (induction fms arbitrary: result st)
  case (Cons fm fms)
  show ?case by (simp add: Cons.IH assms walk_child_def Let_def split: prod.split option.split)
qed simp

lemma dispatch_cong:
  assumes "\<And>N x g t u. walk N x g (depth + 1) t u = walk' N x g (depth + 1) t u"
  shows "dispatch L W m walk M node depth st = dispatch L W m walk' M node depth st"
  unfolding dispatch_def map_value_def array_value_def struct_value_def
    map_entries_cong [where walk = walk and walk' = walk', OF assms]
    array_elements_cong [where walk = walk and walk' = walk', OF assms]
    struct_fields_cong [where walk = walk and walk' = walk', OF assms] ..

lemma walk_at_cong:
  assumes "env_ok W"
    and "\<And>N x g u. depth \<le> max_depth (m_cfg m) \<Longrightarrow> \<not> unwrapped W v \<Longrightarrow> unwrapped W x
      \<Longrightarrow> walk N x g depth tag u = walk' N x g depth tag u"
    and "\<And>N x g t u. depth \<le> max_depth (m_cfg m) \<Longrightarrow> walk N x g (depth + 1) t u = walk' N x g (depth + 1) t u"
  shows "walk_at L W m walk M v f depth tag st = walk_at L W m walk' M v f depth tag st"
proof (cases "depth \<le> max_depth (m_cfg m)")
  case True
  have "enter_value L W m walk M v f depth tag st = enter_value L W m walk' M v f depth tag st"
    by (rule enter_value_cong [OF assms(1)]) (use assms(2) True in blast)
  moreover have "dispatch L W m walk M node depth u = dispatch L W m walk' M node depth u" for node u
    by (rule dispatch_cong) (use assms(3) True in blast)
  ultimately show ?thesis by (simp add: walk_at_def split: prod.split sum.split)
next
  case False
  then obtain r st' where "enter_value L W m walk M v f depth tag st = (Inl r, st')"
      "enter_value L W m walk' M v f depth tag st = (Inl r, st')"
    using enter_value_deep [of m depth L W walk M v f tag st walk'] by auto
  then show ?thesis by (simp add: walk_at_def)
qed

definition levels_needed :: "go_env \<Rightarrow> masker \<Rightarrow> int \<Rightarrow> rvalue option \<Rightarrow> nat" where
  "levels_needed W m depth v = 2 * nat (max_depth (m_cfg m) + 1 - depth) + (if unwrapped W v then 1 else 2)"

lemma walk_fuel_Suc:
  assumes "env_ok W" and "levels_needed W m depth v \<le> n"
  shows "walk_fuel L W m (Suc n) M v f depth tag st = walk_fuel L W m n M v f depth tag st"
  using assms(2)
proof (induction n arbitrary: M v f depth tag st)
  case 0
  then show ?case by (simp add: levels_needed_def split: if_splits)
next
  case (Suc n)
  show ?case unfolding walk_fuel.simps
  proof (rule walk_at_cong [OF assms(1)])
    fix N x g u assume "depth \<le> max_depth (m_cfg m)" "\<not> unwrapped W v" "unwrapped W x"
    then show "walk_at L W m (walk_fuel L W m n) N x g depth tag u = walk_fuel L W m n N x g depth tag u"
      using Suc by (simp add: levels_needed_def flip: walk_fuel.simps(2))
  next
    fix N x g t u assume "depth \<le> max_depth (m_cfg m)"
    then have "levels_needed W m (depth + 1) x \<le> n" using Suc.prems by (auto simp: levels_needed_def split: if_splits)
    then show "walk_at L W m (walk_fuel L W m n) N x g (depth + 1) t u = walk_fuel L W m n N x g (depth + 1) t u"
      using Suc.IH by (simp flip: walk_fuel.simps(2))
  qed
qed

lemma walk_fuel_enough:
  assumes "env_ok W" and "levels_needed W m depth v \<le> n"
  shows "walk_fuel L W m n M v f depth tag st = walk_value L W m M v f depth tag st"
proof -
  have more: "walk_fuel L W m (k + levels_needed W m depth v) M v f depth tag st
      = walk_fuel L W m (levels_needed W m depth v) M v f depth tag st" for k
    by (induction k) (simp_all add: walk_fuel_Suc [OF assms(1)] del: walk_fuel.simps)
  have "levels_needed W m depth v \<le> walk_levels m depth" by (simp add: levels_needed_def walk_levels_def)
  then show ?thesis
    using more [of "n - levels_needed W m depth v"] more [of "walk_levels m depth - levels_needed W m depth v"] assms(2)
    by (simp add: walk_value_def)
qed

lemma walk_value_unfold:
  assumes "env_ok W"
  shows "walk_value L W m M v f depth tag st = walk_at L W m (walk_value L W m) M v f depth tag st"
proof -
  let ?n = "2 * nat (max_depth (m_cfg m) + 1 - depth) + 1"
  have "walk_value L W m M v f depth tag st = walk_at L W m (walk_fuel L W m ?n) M v f depth tag st"
    by (simp add: walk_value_def walk_levels_def)
  also have "\<dots> = walk_at L W m (walk_value L W m) M v f depth tag st"
    by (rule walk_at_cong [OF assms]) (auto intro!: walk_fuel_enough [OF assms] simp: levels_needed_def simp del: walk_fuel.simps)
  finally show ?thesis .
qed

text \<open>
  C7: Masking ends on every value of Go, also on pointers, maps and slices that reach
  themselves: with as many levels as the depth limit leaves, \<open>walk\<close> satisfies the
  equation of the recursive function of the source, and more levels change nothing.
\<close>

theorem walk_value_unfolds:
  assumes "env_ok W"
  shows "walk_value L W m M v f depth tag st = walk_at L W m (walk_value L W m) M v f depth tag st
    \<and> (walk_levels m depth \<le> n \<longrightarrow> walk_fuel L W m n M v f depth tag st = walk_value L W m M v f depth tag st)"
  using walk_value_unfold [OF assms] walk_fuel_enough [OF assms, of m depth v n]
  by (auto simp: levels_needed_def walk_levels_def)

lemma byte_env_ok: "env_ok byte_env"
  by (simp add: env_ok_def byte_env_def plain_env_def type_ref_def string_type_def plain_info_def)

theorem walk_value_unfolds_witness:
  "let m = \<lparr>m_policy = PolicyFunc (Some (\<lambda>f. Panics)), m_cfg = default_config\<rparr>;
       v = Some (value_of (SliceType plain_info 2) (SliceData 3 2 4))
   in \<forall>st. walk_value plain_library byte_env m byte_memory v zero_field 0 [] st
      = walk_at plain_library byte_env m (walk_value plain_library byte_env m) byte_memory v zero_field 0 [] st
    \<and> walk_fuel plain_library byte_env m 200 byte_memory v zero_field 0 [] st
      = walk_value plain_library byte_env m byte_memory v zero_field 0 [] st"
proof -
  let ?m = "\<lparr>m_policy = PolicyFunc (Some (\<lambda>f. Panics)), m_cfg = default_config\<rparr>"
  have "walk_levels ?m 0 \<le> 200" by (simp add: walk_levels_def default_config_def)
  then show ?thesis using walk_value_unfolds [OF byte_env_ok, of plain_library ?m, where n = 200] unfolding Let_def by blast
qed

section \<open>The bookkeeping of a walk\<close>

text \<open>
  Everything but the active identities: no failure is lost, the position is restored and
  the counters only grow.
\<close>

definition forward :: "walk_state \<Rightarrow> walk_state \<Rightarrow> bool" where
  "forward st st' \<longleftrightarrow> state_le (ws_ins st) (ws_ins st') \<and> ws_path st' = ws_path st \<and> ws_root_path st' = ws_root_path st
     \<and> ws_indirections st \<le> ws_indirections st' \<and> ws_bytes st \<le> ws_bytes st'"

definition kept :: "walk_state \<Rightarrow> walk_state \<Rightarrow> bool" where
  "kept st st' \<longleftrightarrow> forward st st' \<and> ws_active st' = ws_active st"

text \<open>Identities may have been added on top of the active ones.\<close>

definition tracked :: "walk_state \<Rightarrow> walk_state \<Rightarrow> bool" where
  "tracked st st' \<longleftrightarrow> forward st st' \<and> (\<exists>ids. ws_active st' = ids @ ws_active st)"

definition walker_ok :: "go_walker \<Rightarrow> bool" where
  "walker_ok walk \<longleftrightarrow> (\<forall>M v f depth tag st r st'. walk M v f depth tag st = (r, st') \<longrightarrow> kept st st')"

lemma forward_trans: "forward a b \<Longrightarrow> forward b c \<Longrightarrow> forward a c"
  using state_le_trans by (force simp: forward_def)

lemma kept_refl [simp]: "kept st st"
  by (simp add: kept_def forward_def)

lemma kept_trans: "kept a b \<Longrightarrow> kept b c \<Longrightarrow> kept a c"
  using forward_trans by (auto simp: kept_def)

lemma tracked_trans: "tracked a b \<Longrightarrow> tracked b c \<Longrightarrow> tracked a c"
  using forward_trans by (force simp: tracked_def)

lemma kept_tracked: "kept a b \<Longrightarrow> tracked a b"
  by (auto simp: kept_def tracked_def)

lemma kept_ins: "state_le (ws_ins st) ins \<Longrightarrow> kept st (st\<lparr>ws_ins := ins\<rparr>)"
  by (simp add: kept_def forward_def)

lemma released: "tracked st st' \<Longrightarrow> kept st (release_tracked (length (ws_active st)) st')"
  by (auto simp: tracked_def kept_def forward_def release_tracked_def)

lemma add_nodes_kept: "0 \<le> n \<Longrightarrow> kept st (add_nodes n st)"
  by (intro kept_ins state_nodes_le) simp

lemma walk_fail_kept: "kept st (walk_fail L c f d st)"
  unfolding walk_fail_def by (intro kept_ins fail_inspect_le)

lemma walk_rule_fail_kept: "kept st (walk_rule_fail L c f r st)"
  unfolding walk_rule_fail_def by (intro kept_ins state_errs_le add_rule_error_le)

lemma fail_conflict_kept: "kept st (fail_conflict L f c st)"
  unfolding fail_conflict_def Let_def using kept_ins [OF state_errs_le [OF add_mask_error_le]] by simp

lemma inspect_at_kept:
  "sorts_by m_key (sort_members L) \<Longrightarrow> inspect_at L m s f d st = (r, st') \<Longrightarrow> kept st st'"
proof -
  assume sorts: "sorts_by m_key (sort_members L)" and i: "inspect_at L m s f d st = (r, st')"
  obtain ins where ins: "inspect_string L m d s (locate_field st f) (ws_ins st) = (r, ins)" "st' = st\<lparr>ws_ins := ins\<rparr>"
    using i by (cases "inspect_string L m d s (locate_field st f) (ws_ins st)") (auto simp: inspect_at_def)
  then show ?thesis using inspect_string_ok [OF sorts, of m d] unfolding inspector_ok_def ins(2) by (blast intro: kept_ins)
qed

lemma charge_bytes_kept: "charge_bytes m n st = Some st' \<Longrightarrow> kept st st'"
  by (auto simp: charge_bytes_def kept_def forward_def split: if_splits)

lemma sensitive_bytes_kept:
  "sorts_by m_key (sort_members L) \<Longrightarrow> sensitive_bytes L m raw f d st = (b, st') \<Longrightarrow> kept st st'"
  using inspect_at_kept by (auto simp: sensitive_bytes_def split: if_splits prod.splits)

lemma track_tracked: "track L v f d st = (b, st') \<Longrightarrow> tracked st st' \<and> (b \<longrightarrow> st_nodes (ws_ins st') = st_nodes (ws_ins st))"
  using kept_tracked [OF walk_fail_kept] by (auto simp: track_def tracked_def forward_def split: option.splits if_splits)

lemma dereference_kept: "dereference L m f d st = (b, st') \<Longrightarrow> kept st st'"
  using kept_trans [OF _ walk_fail_kept, of st "st\<lparr>ws_indirections := ws_indirections st + 1\<rparr>"]
  by (auto simp: dereference_def Let_def kept_def forward_def split: if_splits)

lemma chase_tracked: "chase L W m M v f d st = (x, st') \<Longrightarrow> tracked st st'"
proof (induction L W m M v f d st arbitrary: x st' rule: chase.induct)
  case (1 L W m M v f d st)
  show ?case
  proof (cases "\<exists>i e p. rv_type v = PointerType i e \<and> rv_data v = PointerData p \<and> p \<noteq> 0")
    case True
    then obtain i e p where v: "rv_type v = PointerType i e" "rv_data v = PointerData p" "p \<noteq> 0" by blast
    obtain b st1 where t: "track L v f d st = (b, st1)" by (metis surj_pair)
    obtain c st2 where u: "dereference L m f d st1 = (c, st2)" by (metis surj_pair)
    have st1: "tracked st st1" using track_tracked [OF t] by blast
    then have st2: "tracked st st2" using tracked_trans kept_tracked [OF dereference_kept [OF u]] by blast
    show ?thesis
    proof (cases "b \<and> c \<and> unwrap_interfaces (pointer_elem W M v e p) \<noteq> None")
      case True
      then obtain y where y: "unwrap_interfaces (pointer_elem W M v e p) = Some y" by auto
      have "chase L W m M y f d st2 = (x, st')" using "1.prems" v t u y True by (subst (asm) chase.simps) simp
      then have "tracked st2 st'" by (rule "1.IH" [rotated -1]) (use v t u y True in auto)
      then show ?thesis using st2 tracked_trans by blast
    next
      case False
      then show ?thesis using "1.prems" v t u st1 st2 by (subst (asm) chase.simps) (auto split: bool.splits)
    qed
  next
    case False
    then have "st' = st"
      using "1.prems" by (subst (asm) chase.simps) (auto split: go_type.splits go_data.splits if_splits)
    then show ?thesis using kept_tracked [OF kept_refl] by simp
  qed
qed

text \<open>Facts to chain for the steps of one operation.\<close>

lemmas kept_steps = walk_fail_kept walk_rule_fail_kept fail_conflict_kept kept_refl

lemma render_text_kept:
  assumes sorts: "sorts_by m_key (sort_members L)" and "render_text L W m M v f d st = (r, st')"
  shows "kept st st'"
proof (cases "implements_text_marshaler W v")
  case True
  obtain x nodes where i: "isolated_receiver W m M v d (ws_nodes st) = (x, nodes)" by (metis surj_pair)
  let ?st = "st\<lparr>ws_ins := (ws_ins st)\<lparr>st_nodes := nodes\<rparr>\<rparr>"
  have "kept st ?st" using isolated_receiver_nodes [OF i] by (intro kept_ins state_nodes_le) simp
  then have "kept st ?st" "kept st (walk_fail L c f k ?st)" for c k using kept_trans walk_fail_kept by blast+
  then show ?thesis using assms(2) True i
    by (auto simp: render_text_def Let_def split: sum.splits prod.splits)
next
  case False
  show ?thesis
  proof (cases "value_bytes W M v")
    case None
    then show ?thesis using assms(2) False by (auto simp: render_text_def)
  next
    case raw: (Some raw)
    show ?thesis
    proof (cases "charge_bytes m (length raw) st")
      case None
      then show ?thesis using assms(2) False raw walk_fail_kept by (auto simp: render_text_def)
    next
      case (Some st1)
      obtain b st2 where s: "sensitive_bytes L m raw f d st1 = (b, st2)" by (metis surj_pair)
      have "kept st st2" using charge_bytes_kept [OF Some] sensitive_bytes_kept [OF sorts s] kept_trans by blast
      then show ?thesis using assms(2) False raw Some s by (auto simp: render_text_def split: bool.splits)
    qed
  qed
qed

lemma apply_text_rule_kept: "apply_text_rule L m r txt f st = (x, st') \<Longrightarrow> kept st st'"
  using walk_rule_fail_kept by (auto simp: apply_text_rule_def split: sum.splits)

lemma apply_value_rule_kept:
  assumes sorts: "sorts_by m_key (sort_members L)" and a: "apply_value_rule L W m M r v f d st = (x, st')"
  shows "kept st st'"
proof (cases "\<not> redacts_fully r \<and> textual_value W v")
  case True
  obtain t st1 where t: "render_text L W m M v f d st = (t, st1)" by (metis surj_pair)
  then show ?thesis using a True render_text_kept [OF sorts t] kept_trans [OF _ apply_text_rule_kept]
    by (auto simp: apply_value_rule_def split: rendered.splits)
next
  case False
  then show ?thesis using a apply_text_rule_kept by (auto simp: apply_value_rule_def split: if_splits)
qed

lemma decide_reflected_kept:
  assumes sorts: "sorts_by m_key (sort_members L)" and "decide_reflected L W m M v f tag d st = (x, st')"
  shows "kept st st'"
  using assms(2) apply_value_rule_kept [OF sorts] walk_fail_kept
  by (auto simp: decide_reflected_def Let_def split: if_splits option.splits sum.splits prod.splits)

lemma nil_value_kept: "nil_value L m f tag st = (x, st') \<Longrightarrow> kept st st'"
  using walk_fail_kept apply_text_rule_kept
  by (auto simp: nil_value_def nil_with_rule_def Let_def split: if_splits option.splits sum.splits prod.splits)

lemma decode_raw_kept: "decode_raw_message L W m M v f d st = (x, st') \<Longrightarrow> kept st st'"
  using charge_bytes_kept kept_trans [OF charge_bytes_kept walk_fail_kept] walk_fail_kept
  by (auto simp: decode_raw_message_def Let_def split: if_splits option.splits prod.splits)

text \<open>What entering a value leaves: everything as it was, or a node to be released.\<close>

definition entered :: "walk_state \<Rightarrow> (go_result option + walk_node) \<times> walk_state \<Rightarrow> bool" where
  "entered st x \<longleftrightarrow> (case x of
       (Inl r, st') \<Rightarrow> kept st st'
     | (Inr node, st') \<Rightarrow> tracked st st' \<and> wn_start node = length (ws_active st))"

lemma enter_reached_entered:
  assumes sorts: "sorts_by m_key (sort_members L)" and t: "tracked st0 st"
  shows "entered st0 (enter_reached L W m M (length (ws_active st0)) v f d tag st)"
proof -
  let ?f = "if textual_value W v then f\<lparr>f_kind := KindString\<rparr> else f"
  let ?t = "if \<not> textual_value W v \<and> (case rv_type v of MapType _ _ _ \<Rightarrow> True | SliceType _ _ \<Rightarrow> True | _ \<Rightarrow> False)
      then track L v ?f d st else (True, st)"
  let ?g = "if f_kind ?f = KindInvalid then ?f\<lparr>f_kind := kind_of_reflect W v\<rparr> else ?f"
  obtain b st1 where b: "?t = (b, st1)" by (metis surj_pair)
  have st1: "tracked st0 st1"
    using b track_tracked [of L v ?f d st b st1] t tracked_trans by (auto split: if_splits)
  obtain x st2 where d: "decide_reflected L W m M v ?g tag d st1 = (x, st2)" by (metis surj_pair)
  have st2: "tracked st0 st2" using st1 kept_tracked [OF decide_reflected_kept [OF sorts d]] tracked_trans by blast
  have fail: "tracked st0 (walk_fail L c g d st1)" for c g using st1 kept_tracked [OF walk_fail_kept] tracked_trans by blast
  show ?thesis unfolding enter_reached_def Let_def b
    using released [OF st1] released [OF st2] released [OF fail] st2 d
    by (auto simp: entered_def split: bool.splits option.splits)
qed

lemma state_le_refund: "state_le (add a) b \<Longrightarrow> add = (\<lambda>st. st\<lparr>st_nodes := st_nodes st + 1\<rparr>)
    \<Longrightarrow> state_le a (b\<lparr>st_nodes := st_nodes b + - 1\<rparr>)"
  by (auto simp: state_le_def)

lemma enter_value_entered:
  assumes sorts: "sorts_by m_key (sort_members L)" and walk: "walker_ok walk"
  shows "entered st (enter_value L W m walk M v f d tag st)"
proof -
  have fail: "kept st (walk_fail L c f d st)" "kept st (walk_fail L c f d (add_nodes 1 st))" for c
    using walk_fail_kept kept_trans [OF add_nodes_kept walk_fail_kept, of 1] by simp_all
  show ?thesis
  proof (cases "ws_stop st \<or> \<not> valid_utf8 (f_key f) \<or> max_depth (m_cfg m) < d \<or> max_nodes (m_cfg m) < ws_nodes st + 1")
    case True
    then show ?thesis using fail by (auto simp: enter_value_def Let_def entered_def)
  next
    case False
    let ?st = "add_nodes 1 st"
    have st: "kept st ?st" by (rule add_nodes_kept) simp
    have nil: "kept st st'" if "kept st st1" "nil_value L m f tag st1 = (r, st')" for r st1 st'
      using that nil_value_kept kept_trans by blast
    show ?thesis
    proof (cases "Option.bind v unwrap_interfaces")
      case None
      then show ?thesis using False nil [OF st]
        by (auto simp: enter_value_def Let_def entered_def split: prod.splits)
    next
      case (Some x)
      obtain c st1 where c: "chase L W m M x f d ?st = (c, st1)" by (metis surj_pair)
      have "tracked ?st st1" by (rule chase_tracked [OF c])
      then have st1: "tracked st st1" using tracked_trans [OF kept_tracked [OF st]] by blast
      let ?r = "release_tracked (length (ws_active st)) st1"
      have r: "kept st ?r" by (rule released [OF st1])
      have refund: "kept st (add_nodes (- 1) st2)" if "kept ?r st2" for st2
      proof -
        have "state_le ((\<lambda>st. st\<lparr>st_nodes := st_nodes st + 1\<rparr>) (ws_ins st)) (ws_ins st2)"
          using \<open>tracked ?st st1\<close> that state_le_trans by (fastforce simp: tracked_def kept_def forward_def release_tracked_def)
        from state_le_refund [OF this refl] show ?thesis
          using kept_trans [OF r that] by (simp add: kept_def forward_def)
      qed
      show ?thesis
      proof (cases c)
        case (Reached y)
        show ?thesis
        proof (cases "rv_type y = raw_message_type W")
          case True
          obtain z st2 where z: "decode_raw_message L W m M y f d ?r = (z, st2)" by (metis surj_pair)
          have st2: "kept ?r st2" by (rule decode_raw_kept [OF z])
          have "kept st st2" using r st2 kept_trans by blast
          moreover have "kept st st'" if "walk N u g d tag (add_nodes (- 1) st2) = (q, st')" for N u g q st'
            using refund [OF st2] that walk kept_trans unfolding walker_ok_def by blast
          ultimately show ?thesis using False Some c Reached True z
            by (auto simp: enter_value_def Let_def entered_def split: option.splits prod.splits)
        next
          case other: False
          then show ?thesis using False Some c Reached enter_reached_entered [OF sorts st1]
            by (simp add: enter_value_def Let_def)
        qed
      next
        case ReachedNil
        then show ?thesis using False Some c nil [OF r]
          by (auto simp: enter_value_def Let_def entered_def split: prod.splits)
      next
        case Blocked
        then show ?thesis using False Some c r by (simp add: enter_value_def Let_def entered_def)
      qed
    qed
  qed
qed

section \<open>Containers keep the bookkeeping\<close>

text \<open>A child is one segment further down, and the position is restored after it.\<close>

lemma walk_child_kept:
  assumes "\<And>u r u'. walk u = (r, u') \<Longrightarrow> kept u u'" and "walk_child seg walk st = (r, st')"
  shows "kept st st'"
proof -
  obtain u' where u: "walk (push_segment seg st) = (r, u')" "st' = pop_path u'"
    using assms(2) by (auto simp: walk_child_def split: prod.splits)
  show ?thesis using assms(1) [OF u(1)]
    by (simp add: u(2) kept_def forward_def push_segment_def pop_path_def)
qed

lemma walker_child_kept:
  "walker_ok walk \<Longrightarrow> walk_child seg (walk M v f d tag) st = (r, st') \<Longrightarrow> kept st st'"
  by (rule walk_child_kept) (auto simp: walker_ok_def)

lemma map_entries_kept:
  assumes "walker_ok walk" and "map_entries L W m walk M v e f d entries result st = (res, st')"
  shows "kept st st'"
  using assms(2)
proof (induction entries arbitrary: result st)
  case (Cons kd entries)
  obtain k x where kd: "kd = (k, x)" by (cases kd)
  show ?case
  proof (cases "ws_stop st")
    case False
    obtain r st1 where c: "walk_child (KeySegment (entry_key k))
        (walk M (Some (entry_value W v e x)) (map_child_field m f (entry_key k)) (d + 1) []) st = (r, st1)"
      by (metis surj_pair)
    have "kept st st1" by (rule walker_child_kept [OF assms(1) c])
    moreover have "st' = st1 \<or> kept st1 st'"
      using Cons.prems False c Cons.IH by (auto simp: kd Let_def split: if_splits)
    ultimately show ?thesis using kept_trans by blast
  qed (use Cons.prems in \<open>simp add: kd\<close>)
qed simp

lemma array_elements_kept:
  assumes "walker_ok walk" and "array_elements m walk M f d i vs result st = (res, st')"
  shows "kept st st'"
  using assms(2)
proof (induction vs arbitrary: i result st)
  case (Cons v vs)
  show ?case
  proof (cases "ws_stop st")
    case False
    obtain r st1 where c: "walk_child (IndexSegment i) (walk M (Some v) (array_child_field m f i) (d + 1) []) st = (r, st1)"
      by (metis surj_pair)
    have "kept st st1" by (rule walker_child_kept [OF assms(1) c])
    moreover have "st' = st1 \<or> kept st1 st'"
      using Cons.prems False c Cons.IH by (auto simp: Let_def split: if_splits)
    ultimately show ?thesis using kept_trans by blast
  qed (use Cons.prems in simp)
qed simp

lemma compiled_decision_kept:
  assumes sorts: "sorts_by m_key (sort_members L)" and c: "compiled_decision L W m M v f fm d st = (x, st')"
  shows "kept st st'"
proof (cases "fm_mask_tag fm = [] \<and> \<not> sd_known (fm_policy fm)")
  case True
  then show ?thesis using c decide_reflected_kept [OF sorts] by (simp add: compiled_decision_def)
next
  case False
  have "st' = st \<or> st' = walk_fail L CodeInvalidConfig f 0 st \<or> (\<exists>r y. apply_value_rule L W m M r v f d st = (y, st'))"
    using c False by (auto simp: compiled_decision_def Let_def split: if_splits option.splits prod.splits)
  then show ?thesis using apply_value_rule_kept [OF sorts] walk_fail_kept by auto
qed

lemma undecided_scalar_kept:
  "sorts_by m_key (sort_members L) \<Longrightarrow> undecided_scalar L W m v f d st = (x, st') \<Longrightarrow> kept st st'"
  using inspect_at_kept by (auto simp: undecided_scalar_def Let_def split: option.splits prod.splits)

lemma walk_flat_scalar_kept:
  assumes sorts: "sorts_by m_key (sort_members L)" and w: "walk_flat_scalar L W m M v f d fm st = (x, st')"
  shows "kept st st'"
proof -
  let ?st = "add_nodes 1 st"
  have st: "kept st ?st" by (rule add_nodes_kept) simp
  obtain y st1 where c: "compiled_decision L W m M v f fm d ?st = (y, st1)" by (metis surj_pair)
  have st1: "kept st st1" using st compiled_decision_kept [OF sorts c] kept_trans by blast
  have "st' = walk_fail L CodeDepthLimit f d st \<or> st' = walk_fail L CodeNodeLimit f d ?st
      \<or> st' = walk_fail L CodeInvalidUTF8 f d ?st \<or> st' = st1 \<or> (\<exists>r. undecided_scalar L W m v f d st1 = (r, st'))"
    using w c by (auto simp: walk_flat_scalar_def Let_def split: if_splits option.splits prod.splits)
  then show ?thesis
    using walk_fail_kept kept_trans [OF st walk_fail_kept] st1 undecided_scalar_kept [OF sorts] kept_trans by blast
qed

lemma flat_fields_kept:
  assumes sorts: "sorts_by m_key (sort_members L)" and "flat_fields L W m M v f d fms result st = (res, st')"
  shows "kept st st'"
  using assms(2)
proof (induction fms arbitrary: result st)
  case (Cons fm fms)
  show ?case
  proof (cases "ws_stop st \<or> fm_json_omit fm \<or> fm_mask_tag fm = ''omit'' \<or> field_step W v (hd (fm_index fm)) = None")
    case False
    then obtain x where x: "field_step W v (hd (fm_index fm)) = Some x" by auto
    obtain r st1 where c: "walk_child (KeySegment (fm_json_name fm))
        (walk_flat_scalar L W m M x (struct_child_field m f fm (fm_kind fm)) (d + 1) fm) st = (r, st1)" by (metis surj_pair)
    have "kept st st1" by (rule walk_child_kept [OF _ c]) (rule walk_flat_scalar_kept [OF sorts])
    moreover have "st' = st1 \<or> kept st1 st'" using Cons.prems False c x Cons.IH by (auto split: if_splits)
    ultimately show ?thesis using kept_trans by blast
  qed (use Cons in \<open>auto split: if_splits option.splits\<close>)
qed simp

lemma struct_fields_kept:
  assumes sorts: "sorts_by m_key (sort_members L)" and walk: "walker_ok walk"
    and "struct_fields L W m walk M v f d fms result st = (res, st')"
  shows "kept st st'"
  using assms(3)
proof (induction fms arbitrary: result st)
  case (Cons fm fms)
  show ?case
  proof (cases "ws_stop st \<or> field_by_index W M v (fm_index fm) = None \<or> fm_json_omit fm \<or> fm_mask_tag fm = ''omit''")
    case False
    then obtain x where x: "field_by_index W M v (fm_index fm) = Some x" by auto
    let ?walk = "if fm_flat_scalar fm
               then walk_flat_scalar L W m M x (struct_child_field m f fm (fm_kind fm)) (d + 1) fm
               else walk M (Some x) (struct_child_field m f fm KindInvalid) (d + 1) (fm_mask_tag fm)"
    obtain r st1 where c: "walk_child (KeySegment (fm_json_name fm)) ?walk st = (r, st1)" by (metis surj_pair)
    have "kept st st1"
      by (rule walk_child_kept [OF _ c]) (use walk_flat_scalar_kept [OF sorts] walk in \<open>auto simp: walker_ok_def split: if_splits\<close>)
    moreover have "kept st1 st'" using Cons.prems False c x Cons.IH by simp
    ultimately show ?thesis using kept_trans by blast
  qed (use Cons in \<open>auto split: if_splits option.splits\<close>)
qed simp

lemma report_conflict_kept: "kept st (report_conflict L m f c name st)"
proof -
  let ?f = "\<lparr>f_key = cm_field c, f_path = child_path m (path_for (f_path f) (cm_field c)), f_source = SourceStruct, f_kind = KindInvalid\<rparr>"
  have "walk_child (KeySegment (cm_field c)) (\<lambda>u. (None, fail_conflict L ?f name u)) st = (None, report_conflict L m f c name st)"
    by (simp add: walk_child_def report_conflict_def)
  from walk_child_kept [OF _ this] show ?thesis using fail_conflict_kept by auto
qed

lemma fold_kept: "(\<And>x st. kept st (g x st)) \<Longrightarrow> kept st (fold g xs st)"
proof (induction xs arbitrary: st)
  case (Cons x xs)
  then show ?case using kept_trans by simp blast
qed simp

lemma report_conflicts_kept: "kept st (report_conflicts L m f cs st)"
  unfolding report_conflicts_def by (intro fold_kept report_conflict_kept)

lemma struct_value_kept:
  assumes sorts: "sorts_by m_key (sort_members L)" and walk: "walker_ok walk"
    and "struct_value L W m walk M v f d st = (r, st')"
  shows "kept st st'"
  using assms(3) flat_fields_kept [OF sorts] kept_trans [OF report_conflicts_kept struct_fields_kept [OF sorts walk]]
  by (auto simp: struct_value_def Let_def split: if_splits prod.splits)

lemma dispatch_kept:
  assumes sorts: "sorts_by m_key (sort_members L)" and walk: "walker_ok walk"
    and d: "dispatch L W m walk M node d st = (r, st')"
  shows "kept st st'"
proof (cases "wn_textual node")
  case True
  obtain t st1 where t: "render_text L W m M (wn_value node) (wn_field node) d st = (t, st1)" by (metis surj_pair)
  have st1: "kept st st1" by (rule render_text_kept [OF sorts t])
  have "st' = st1 \<or> (\<exists>txt x. inspect_at L m txt (wn_field node) d st1 = (x, st'))"
    using d True t by (auto simp: dispatch_def Let_def split: rendered.splits if_splits prod.splits)
  then show ?thesis using st1 inspect_at_kept [OF sorts] kept_trans by blast
next
  case False
  show ?thesis
  proof (cases "is_basic_scalar (rv_type (wn_value node))")
    case True
    then show ?thesis using d False undecided_scalar_kept [OF sorts] by (simp add: dispatch_def Let_def)
  next
    case other: False
    have "map_value L W m walk M v f d st = (r, st') \<Longrightarrow> kept st st'" for v f
      using map_entries_kept [OF walk] walk_fail_kept
      by (auto simp: map_value_def split: go_type.splits go_data.splits scalar_kind.splits prod.splits)
    moreover have "array_value L W m walk M v f d st = (r, st') \<Longrightarrow> kept st st'" for v f
      using array_elements_kept [OF walk] by (auto simp: array_value_def split: prod.splits option.splits)
    moreover note struct_value_kept [OF sorts walk] walk_fail_kept
    ultimately show ?thesis using d False other
      by (cases "rv_type (wn_value node)") (auto simp: dispatch_def Let_def)
  qed
qed

lemma walk_at_ok:
  assumes sorts: "sorts_by m_key (sort_members L)" and walk: "walker_ok walk"
  shows "walker_ok (walk_at L W m walk)"
  unfolding walker_ok_def
proof (intro allI impI)
  fix M v f d tag st r st' assume w: "walk_at L W m walk M v f d tag st = (r, st')"
  obtain x st1 where e: "enter_value L W m walk M v f d tag st = (x, st1)" by (metis surj_pair)
  note ent = enter_value_entered [OF sorts walk, of st W m M v f d tag, unfolded e entered_def]
  show "kept st st'"
  proof (cases x)
    case (Inl y)
    then show ?thesis using w e ent by (simp add: walk_at_def)
  next
    case (Inr node)
    obtain y st2 where d: "dispatch L W m walk M node d st1 = (y, st2)" by (metis surj_pair)
    have "tracked st st2"
      using ent Inr kept_tracked [OF dispatch_kept [OF sorts walk d]] tracked_trans by auto
    from released [OF this] show ?thesis using w e ent Inr d by (auto simp: walk_at_def)
  qed
qed

lemma walk_fuel_ok: "sorts_by m_key (sort_members L) \<Longrightarrow> walker_ok (walk_fuel L W m n)"
proof (induction n)
  case 0
  then show ?case by (simp add: walker_ok_def)
next
  case (Suc n)
  have "walk_fuel L W m (Suc n) = walk_at L W m (walk_fuel L W m n)" by (intro ext) simp
  then show ?case using walk_at_ok [OF Suc.prems Suc.IH [OF Suc.prems]] by simp
qed

text \<open>
  C8: Walking a value leaves the walker as it was, whatever the value holds and whatever
  fails: the path and the set of active identities are restored and the budgets are only
  ever spent.  The failures recorded before stay where they are, but for the last of 64,
  which gives way to a limit; so what has failed stays failed, the list never grows past
  64, a limit that was recorded is never lost, and a walk that stops has recorded the
  limit that stopped it.
\<close>

theorem walk_restores_state:
  assumes "sorts_by m_key (sort_members L)" and "walk_value L W m M v f depth tag st = (r, st')"
  shows "ws_active st' = ws_active st \<and> ws_path st' = ws_path st \<and> ws_root_path st' = ws_root_path st
    \<and> ws_nodes st \<le> ws_nodes st' \<and> ws_indirections st \<le> ws_indirections st' \<and> ws_bytes st \<le> ws_bytes st'
    \<and> prefix (take 63 (st_errs (ws_ins st))) (st_errs (ws_ins st'))
    \<and> (st_errs (ws_ins st) \<noteq> [] \<longrightarrow> st_errs (ws_ins st') \<noteq> [])
    \<and> (length (st_errs (ws_ins st)) \<le> 64 \<longrightarrow> length (st_errs (ws_ins st')) \<le> 64)
    \<and> (has_limit (st_errs (ws_ins st)) \<longrightarrow> has_limit (st_errs (ws_ins st')))
    \<and> (ws_stop st' \<longrightarrow> ws_stop st \<or> has_limit (st_errs (ws_ins st')))"
  using walk_fuel_ok [OF assms(1)] assms(2) unfolding walk_value_def walker_ok_def
  by (fastforce simp: kept_def forward_def state_le_def failures_stay_def max_mask_errors_def)

theorem walk_restores_state_witness:
  "\<forall>st. let st' = snd (walk_value plain_library byte_env
       \<lparr>m_policy = PolicyFunc (Some (\<lambda>f. Panics)), m_cfg = default_config\<rparr>
       byte_memory (Some (value_of (SliceType plain_info 2) (SliceData 3 2 4))) zero_field 0 [] st)
     in ws_active st' = ws_active st \<and> ws_path st' = ws_path st \<and> ws_nodes st \<le> ws_nodes st'
       \<and> prefix (take 63 (st_errs (ws_ins st))) (st_errs (ws_ins st'))"
proof -
  have "sorts_by m_key (sort_members plain_library)" using plain_library_sorts by (simp add: sorts_ok_def)
  note kept = walk_restores_state [OF this prod.collapse [symmetric]]
  show ?thesis unfolding Let_def using kept by blast
qed

end
