(* ===== verification/WalkSafe.thy ===== *)
theory WalkSafe
  imports WalkSound
begin

text \<open>
  Safety of the reflection walker: what a full redaction hides, values that never end,
  the compiled path of scalar fields, and the operations on arbitrary values.
\<close>

section \<open>Full redaction hides the value\<close>

text \<open>A tag or the policy redacts every value at a key, whatever the rest of the field says.\<close>

definition redacted_at :: "golib \<Rightarrow> masker \<Rightarrow> bytes \<Rightarrow> bytes \<Rightarrow> bool" where
  "redacted_at L m tag key \<longleftrightarrow>
     (if tag \<noteq> [] then tag \<noteq> ''omit'' \<and> (\<exists>r. tag_rules (m_cfg m) tag = Some r \<and> redacts_fully r)
      else \<forall>f. f_key f = key \<longrightarrow> (\<exists>r. call_policy (tables L) (m_policy m) f = Inr (decide_rule r) \<and> redacts_fully r))"

lemma redacts_fully_not_nil: "redacts_fully r \<Longrightarrow> \<not> is_nil_rule r"
  by (auto simp: redacts_fully_def is_nil_rule_def)

lemma full_redacts: "redacts_fully (Builtin FullRule)"
  by (simp add: redacts_fully_def)

lemma redacted_policy:
  "redacted_at L m [] key \<Longrightarrow> f_key f = key \<Longrightarrow>
     \<exists>r. call_policy (tables L) (m_policy m) f = Inr (decide_rule r) \<and> redacts_fully r"
  by (simp add: redacted_at_def)

lemma nil_value_redacted:
  assumes "redacted_at L m tag (f_key f)"
  shows "fst (nil_value L m f tag st) = Some (marker_result m)"
proof (cases "tag = []")
  case True
  then obtain r where "call_policy (tables L) (m_policy m) (f\<lparr>f_kind := KindNil\<rparr>) = Inr (decide_rule r)" "redacts_fully r"
    using assms redacted_policy [of L m "f_key f" "f\<lparr>f_kind := KindNil\<rparr>"] by auto
  then show ?thesis using True redacts_fully_not_nil full_redacts
    by (simp add: nil_value_def nil_with_rule_def Let_def decide_rule_def)
next
  case False
  then show ?thesis using assms redacts_fully_not_nil full_redacts
    by (auto simp: redacted_at_def nil_value_def nil_with_rule_def Let_def)
qed

lemma decide_reflected_redacted:
  assumes "redacted_at L m tag (f_key f)"
  shows "fst (decide_reflected L W m M v f tag depth st) = Some (Some (marker_result m))"
proof (cases "tag = []")
  case True
  then obtain r where "call_policy (tables L) (m_policy m) f = Inr (decide_rule r)" "redacts_fully r"
    using assms by (auto simp: redacted_at_def)
  then show ?thesis using True redacts_fully_not_nil full_redacts
    by (simp add: decide_reflected_def apply_value_rule_def Let_def decide_rule_def)
next
  case False
  then show ?thesis using assms
    by (auto simp: redacted_at_def decide_reflected_def apply_value_rule_def Let_def)
qed

lemma enter_reached_redacted:
  assumes "redacted_at L m tag (f_key f)"
  shows "fst (enter_reached L W m M start v f depth tag st) = Inl (Some (marker_result m))"
proof -
  let ?f = "if textual_value W v then f\<lparr>f_kind := KindString\<rparr> else f"
  let ?g = "if f_kind ?f = KindInvalid then ?f\<lparr>f_kind := kind_of_reflect W v\<rparr> else ?f"
  obtain b st1 where t: "(if \<not> textual_value W v \<and> (case rv_type v of MapType _ _ _ \<Rightarrow> True | SliceType _ _ \<Rightarrow> True | _ \<Rightarrow> False)
      then track L v ?f depth st else (True, st)) = (b, st1)" by (metis surj_pair)
  have "fst (decide_reflected L W m M v ?g tag depth st1) = Some (Some (marker_result m))"
    by (rule decide_reflected_redacted) (use assms in simp)
  then obtain st2 where d: "decide_reflected L W m M v ?g tag depth st1 = (Some (Some (marker_result m)), st2)"
    by (cases "decide_reflected L W m M v ?g tag depth st1") auto
  show ?thesis unfolding enter_reached_def Let_def t using d by (cases b) simp_all
qed

lemma walk_at_redacted:
  assumes red: "redacted_at L m tag (f_key f)"
    and walk: "\<And>N x g u. f_key g = f_key f \<Longrightarrow> fst (walk N x g depth tag u) = Some (marker_result m)"
  shows "fst (walk_at L W m walk M v f depth tag st) = Some (marker_result m)"
proof -
  let ?json = "if f_source f \<noteq> SourceHeader then f\<lparr>f_source := SourceJSON\<rparr> else f"
  have nil: "fst (nil_value L m f tag u) = Some (marker_result m)" for u by (rule nil_value_redacted [OF red])
  have reached: "fst (enter_reached L W m M start x f depth tag u) = Inl (Some (marker_result m))" for start x u
    by (rule enter_reached_redacted [OF red])
  have inner: "fst (walk N x ?json depth tag u) = Some (marker_result m)" for N x u
    by (rule walk) simp
  have "fst (enter_value L W m walk M v f depth tag st) = Inl (Some (marker_result m))"
  proof (cases "ws_stop st \<or> \<not> valid_utf8 (f_key f) \<or> max_depth (m_cfg m) < depth \<or> max_nodes (m_cfg m) < ws_nodes st + 1")
    case True
    then show ?thesis by (auto simp: enter_value_def Let_def)
  next
    case False
    show ?thesis
    proof (cases "Option.bind v unwrap_interfaces")
      case None
      then show ?thesis using False nil by (simp add: enter_value_def Let_def case_prod_unfold)
    next
      case (Some x)
      obtain c st1 where c: "chase L W m M x f depth (add_nodes 1 st) = (c, st1)" by (metis surj_pair)
      show ?thesis
      proof (cases c)
        case (Reached y)
        obtain z st2 where "decode_raw_message L W m M y f depth (release_tracked (length (ws_active st)) st1) = (z, st2)"
          by (metis surj_pair)
        then show ?thesis using False Some c Reached reached inner
          by (cases z) (auto simp: enter_value_def Let_def case_prod_unfold)
      qed (use False Some c nil in \<open>simp_all add: enter_value_def Let_def case_prod_unfold\<close>)
    qed
  qed
  then show ?thesis by (cases "enter_value L W m walk M v f depth tag st") (simp add: walk_at_def)
qed

text \<open>
  C5: What a tag or the policy redacts fully at a key stays hidden, whatever the value
  is: nil, a scalar, a container, a cycle, a type that renders itself, a raw JSON message
  or anything the walker fails on; the result is the marker in every case.
\<close>

theorem full_redaction_hides:
  assumes "redacted_at L m tag (f_key f)"
  shows "fst (walk_value L W m M v f depth tag st) = Some (marker_result m)"
proof -
  have "f_key g = f_key f \<Longrightarrow> fst (walk_fuel L W m n M v g depth tag st) = Some (marker_result m)" for n M v g st
  proof (induction n arbitrary: M v g st)
    case (Suc n)
    show ?case unfolding walk_fuel.simps
      by (rule walk_at_redacted) (use assms Suc in simp_all)
  qed simp
  then show ?thesis by (simp add: walk_value_def)
qed

theorem full_redaction_hides_witness:
  "\<forall>st. fst (walk_value plain_library byte_env
     \<lparr>m_policy = PolicyFunc (Some (\<lambda>f. Panics)), m_cfg = default_config\<rparr>
     byte_memory (Some (value_of (SliceType plain_info 0) (SliceData 7 1 2))) zero_field 0 ''password'' st)
   = Some (ResultString ''[REDACTED]'')"
proof -
  have "redacted_at plain_library \<lparr>m_policy = PolicyFunc (Some (\<lambda>f. Panics)), m_cfg = default_config\<rparr> ''password'' (f_key zero_field)"
    by (simp add: redacted_at_def default_config_def builtin_tag_rules_def redacts_fully_def)
  from full_redaction_hides [OF this] show ?thesis
    by (simp add: marker_result_def default_config_def default_redaction_marker_def)
qed

section \<open>Pointers that never end\<close>

text \<open>The value \<open>n\<close> pointers further, and a value all whose pointers lead to pointers.\<close>

fun follow_pointers :: "go_env \<Rightarrow> memory \<Rightarrow> nat \<Rightarrow> rvalue \<Rightarrow> rvalue option" where
  "follow_pointers W M 0 v = Some v"
| "follow_pointers W M (Suc n) v = (case (rv_type v, rv_data v) of
       (PointerType _ e, PointerData p) \<Rightarrow>
         if p = 0 then None else Option.bind (unwrap_interfaces (pointer_elem W M v e p)) (follow_pointers W M n)
     | _ \<Rightarrow> None)"

definition endless :: "go_env \<Rightarrow> memory \<Rightarrow> rvalue \<Rightarrow> bool" where
  "endless W M v \<longleftrightarrow> (\<forall>n. follow_pointers W M n v \<noteq> None)"

lemma endless_step:
  assumes "endless W M v"
  shows "\<exists>i e p y. rv_type v = PointerType i e \<and> rv_data v = PointerData p \<and> p \<noteq> 0
    \<and> unwrap_interfaces (pointer_elem W M v e p) = Some y \<and> endless W M y"
proof -
  have "follow_pointers W M (Suc 0) v \<noteq> None" using assms unfolding endless_def by blast
  then obtain i e p y where v: "rv_type v = PointerType i e" "rv_data v = PointerData p" "p \<noteq> 0"
      "unwrap_interfaces (pointer_elem W M v e p) = Some y"
    by (auto simp: bind_eq_Some_conv split: go_type.splits go_data.splits if_splits)
  have "follow_pointers W M n y \<noteq> None" for n
    using assms v unfolding endless_def by (auto dest: spec [of _ "Suc n"])
  then show ?thesis using v unfolding endless_def by blast
qed

lemma walk_fail_records: "\<not> ws_stop st \<Longrightarrow> st_errs (ws_ins (walk_fail L c f d st)) \<noteq> []"
  by (auto simp: walk_fail_def fail_inspect_def add_priority_mask_error_def add_field_error_def add_mask_error_def
      max_mask_errors_def)

lemma chase_endless:
  "endless W M v \<Longrightarrow> \<not> ws_stop st \<Longrightarrow>
     \<exists>st'. chase L W m M v f d st = (Blocked, st') \<and> st_errs (ws_ins st') \<noteq> []"
proof (induction L W m M v f d st rule: chase.induct)
  case (1 L W m M v f d st)
  obtain i e p y where v: "rv_type v = PointerType i e" "rv_data v = PointerData p" "p \<noteq> 0"
      "unwrap_interfaces (pointer_elem W M v e p) = Some y" "endless W M y"
    using endless_step [OF "1.prems"(1)] by blast
  obtain b st1 where t: "track L v f d st = (b, st1)" by (metis surj_pair)
  show ?case
  proof (cases b)
    case False
    have "st1 = walk_fail L CodeCycle f d st" using t False by (auto simp: track_def split: option.splits if_splits)
    then show ?thesis using v t False walk_fail_records [OF "1.prems"(2)] by (subst chase.simps) simp
  next
    case True
    have run: "\<not> ws_stop st1" using t True "1.prems"(2) by (auto simp: track_def split: option.splits if_splits)
    obtain c st2 where u: "dereference L m f d st1 = (c, st2)" by (metis surj_pair)
    show ?thesis
    proof (cases c)
      case False
      have "st_errs (ws_ins st2) \<noteq> []"
        using u False run walk_fail_records by (auto simp: dereference_def Let_def split: if_splits)
      then show ?thesis using v t True u False by (subst chase.simps) simp
    next
      case c: True
      have "\<not> ws_stop st2" using u c run by (auto simp: dereference_def Let_def split: if_splits)
      then have "\<exists>st'. chase L W m M y f d st2 = (Blocked, st') \<and> st_errs (ws_ins st') \<noteq> []"
        by (intro "1.IH" [rotated -2]) (use v t True u c in auto)
      then show ?thesis using v t True u c by (subst chase.simps) simp
    qed
  qed
qed

lemma walk_value_Suc: "walk_value L W m = (\<lambda>M v f d. walk_at L W m (walk_fuel L W m (2 * nat (max_depth (m_cfg m) + 1 - d) + 1)) M v f d)"
  by (intro ext) (simp add: walk_value_def walk_levels_def)

text \<open>
  C9: \<open>MaskAny\<close> answers also on a pointer that leads on to pointers for ever, through a
  cycle of any length or past the budget: it returns the marker and an error.
\<close>

theorem endless_pointer_is_reported:
  assumes "config_ok (m_cfg m)" and "Option.bind v unwrap_interfaces = Some x" and "endless W M x"
  shows "\<exists>e. mask_any L W (Some m) M v = (marker_result m, Some e)"
proof -
  let ?f = "\<lparr>f_key = [], f_path = ''$'', f_source = SourceAny, f_kind = KindInvalid\<rparr>"
  let ?st = "\<lparr>ws_ins = \<lparr>st_nodes = 0, st_errs = [], st_stop = False\<rparr>, ws_active = [], ws_root_path = ''$'',
         ws_path = [], ws_indirections = 0, ws_bytes = 0\<rparr>"
  have cfg: "0 \<le> max_depth (m_cfg m)" "1 \<le> max_nodes (m_cfg m)" using assms(1) by (auto simp: config_ok_def)
  obtain st1 where c: "chase L W m M x ?f 0 (add_nodes 1 ?st) = (Blocked, st1)" "st_errs (ws_ins st1) \<noteq> []"
    using chase_endless [OF assms(3), of "add_nodes 1 ?st" L m ?f 0] by auto
  have "valid_utf8 []" by (rule valid_utf8_ascii) simp
  then have "enter_value L W m walk M v ?f 0 [] ?st = (Inl (Some (marker_result m)), release_tracked 0 st1)" for walk
    using cfg c(1) assms(2) by (simp add: enter_value_def Let_def)
  then have "walk_value L W m M v ?f 0 [] ?st = (Some (marker_result m), release_tracked 0 st1)"
    by (simp add: walk_value_Suc walk_at_def)
  then show ?thesis using c(2) by (simp add: mask_any_def mask_root_def aggregate_errors_def release_tracked_def)
qed

theorem endless_pointer_is_reported_witness:
  "\<exists>e. mask_any plain_library (plain_env [PointerType plain_info 0])
     (Some \<lparr>m_policy = PolicyFunc (Some (\<lambda>f. Panics)), m_cfg = default_config\<rparr>)
     \<lparr>mem_cell = (\<lambda>a t. PointerData 1), mem_entries = (\<lambda>a t. []), mem_top = 2\<rparr>
     (Some (value_of (PointerType plain_info 0) (PointerData 1))) = (ResultString ''[REDACTED]'', Some e)"
proof -
  let ?W = "plain_env [PointerType plain_info 0]"
  let ?M = "\<lparr>mem_cell = (\<lambda>a t. PointerData 1), mem_entries = (\<lambda>a t. []), mem_top = 2\<rparr>"
  have "follow_pointers ?W ?M n x \<noteq> None" if "rv_type x = PointerType plain_info 0" "rv_data x = PointerData 1" for n x
    using that
  proof (induction n arbitrary: x)
    case (Suc n)
    then show ?case
      by (simp add: unwrap_interfaces_def pointer_elem_def plain_env_def type_ref_def)
  qed simp
  then have e: "endless ?W ?M (value_of (PointerType plain_info 0) (PointerData 1))"
    by (simp add: endless_def value_of_def)
  let ?m = "\<lparr>m_policy = PolicyFunc (Some (\<lambda>f. Panics)), m_cfg = default_config\<rparr>"
  have c: "config_ok (m_cfg ?m)" by (simp add: default_config_ok)
  have u: "Option.bind (Some (value_of (PointerType plain_info 0) (PointerData 1))) unwrap_interfaces
      = Some (value_of (PointerType plain_info 0) (PointerData 1))"
    by (simp add: unwrap_interfaces_def value_of_def)
  have "marker_result ?m = ResultString ''[REDACTED]''"
    by (simp add: marker_result_def default_config_def default_redaction_marker_def)
  then show ?thesis using endless_pointer_is_reported [OF c u e, of plain_library] by (simp only:)
qed

section \<open>The compiled path of scalar fields\<close>

lemma walk_fail_key: "f_key f = f_key g \<Longrightarrow> f_path f = f_path g \<Longrightarrow> walk_fail L c f d st = walk_fail L c g d st"
  by (simp add: walk_fail_def fail_inspect_def add_field_error_def new_field_error_def locate_field_def)

lemma basic_scalar_kind:
  assumes "env_ok W" and "is_basic_scalar (rv_type v)"
  shows "kind_of_reflect W v = kind_of_type W (rv_type v)"
  using assms by (cases "rv_type v") (auto simp: kind_of_reflect_def kind_of_type_def env_ok_def split: scalar_kind.splits)

lemma basic_scalar_plain:
  assumes "env_ok W" and "is_basic_scalar (rv_type v)"
  shows "\<not> is_interface (rv_type v)" and "\<not> is_pointer (rv_type v)" and "rv_type v \<noteq> raw_message_type W"
    and "\<not> byte_slice_value W v"
    and "(case rv_type v of MapType _ _ _ \<Rightarrow> True | SliceType _ _ \<Rightarrow> True | _ \<Rightarrow> False) = False"
  using assms by (cases "rv_type v"; auto simp: env_ok_def byte_slice_value_def)+

lemma compiled_is_decided:
  assumes fm: "fm = build_field_metadata (tables L) W (struct_tag (m_cfg m)) (tag_rules (m_cfg m)) (m_policy m) c"
    and f: "f_key f = fm_json_name fm" "f_source f = SourceStruct"
  shows "compiled_decision L W m M v f fm d st = decide_reflected L W m M v f (fm_mask_tag fm) d st"
proof (cases "fm_mask_tag fm = []")
  case True
  show ?thesis
  proof (cases "is_static_key_policy (m_policy m)")
    case static: True
    let ?k = "kind_of_type W (fc_type c)"
    have p: "fm_policy fm = static_policy_decision (tables L) (m_policy m) (fm_json_name fm) ?k"
      using True static by (simp add: fm build_field_metadata_def Let_def case_prod_unfold split: if_splits)
    note known = static_policy_decision_known [OF static, where u = "tables L" and key = "fm_json_name fm" and kind = ?k]
    show ?thesis using True known(1) known(2) [OF f(1)] f(2)
      by (simp add: compiled_decision_def decide_reflected_def p Let_def)
  next
    case False
    then have "\<not> sd_known (fm_policy fm)"
      by (simp add: fm build_field_metadata_def no_static_decision_def Let_def case_prod_unfold)
    then show ?thesis using True by (simp add: compiled_decision_def)
  qed
next
  case False
  have "fm_mask_tag fm \<noteq> ''omit'' \<Longrightarrow> fm_tag_rule fm = tag_rules (m_cfg m) (fm_mask_tag fm)"
    using False by (simp add: fm build_field_metadata_def Let_def case_prod_unfold)
  then show ?thesis using False by (simp add: compiled_decision_def decide_reflected_def Let_def)
qed

lemma decide_reflected_keeps_active:
  "sorts_by m_key (sort_members L) \<Longrightarrow> decide_reflected L W m M v f tag d st = (x, st') \<Longrightarrow> ws_active st' = ws_active st"
  using decide_reflected_kept by (simp add: kept_def)

text \<open>What entering a plain scalar field comes to, under the field of the compiled path.\<close>

lemma enter_flat_scalar:
  assumes "env_ok W" and c: "is_flat_scalar_field c"
    and fm: "fm = build_field_metadata (tables L) W (struct_tag (m_cfg m)) (tag_rules (m_cfg m)) (m_policy m) c"
    and v: "rv_type v = fc_type c"
  shows "enter_reached L W m M start v (struct_child_field m f fm KindInvalid) d tag u =
      (if (case (rv_type v, rv_data v) of (ScalarType _ StringKind, StringData s) \<Rightarrow> \<not> valid_utf8 s | _ \<Rightarrow> False)
       then (Inl (Some (marker_result m)),
         release_tracked start (walk_fail L CodeInvalidUTF8 (struct_child_field m f fm (fm_kind fm)) d u))
       else case decide_reflected L W m M v (struct_child_field m f fm (fm_kind fm)) tag d u of
         (Some result, u) \<Rightarrow> (Inl result, release_tracked start u)
       | (None, u) \<Rightarrow> (Inr \<lparr>wn_value = v, wn_field = struct_child_field m f fm (fm_kind fm), wn_textual = False, wn_start = start\<rparr>, u))"
proof -
  let ?g = "struct_child_field m f fm KindInvalid"
  have basic: "is_basic_scalar (rv_type v)" using c by (simp add: v is_flat_scalar_field_def)
  note plain = basic_scalar_plain [OF assms(1) basic]
  have kind: "fm_kind fm = kind_of_reflect W v"
    by (simp add: basic_scalar_kind [OF assms(1) basic] v fm build_field_metadata_def Let_def case_prod_unfold)
  have g: "f_kind ?g = KindInvalid" "?g\<lparr>f_kind := kind_of_reflect W v\<rparr> = struct_child_field m f fm (fm_kind fm)"
    by (simp_all add: struct_child_field_def kind)
  have textual: "\<not> textual_value W v"
    using c plain(4) by (auto simp: textual_value_def implements_text_marshaler_def v is_flat_scalar_field_def)
  show ?thesis unfolding enter_reached_def Let_def using textual plain(5) g(1)
    by (simp only: g(2) if_False if_True simp_thms prod.case bool.case)
qed

text \<open>
  C11: The compiled path a plain scalar field takes is the walk itself: for every field
  compiled from its struct, walking its value directly with the decision compiled for its
  key gives the result, the failures and the state \<open>walk\<close> gives with its tag, whether the
  policy was compiled or has to be called.
\<close>

theorem flat_scalar_is_walk:
  assumes "env_ok W" and sorts: "sorts_by m_key (sort_members L)"
    and c: "is_flat_scalar_field c"
    and fm: "fm = build_field_metadata (tables L) W (struct_tag (m_cfg m)) (tag_rules (m_cfg m)) (m_policy m) c"
    and v: "rv_type v = fc_type c" and "\<not> ws_stop st" and "valid_utf8 (fm_json_name fm)"
  shows "walk_flat_scalar L W m M v (struct_child_field m f fm (fm_kind fm)) d fm st
    = walk_value L W m M (Some v) (struct_child_field m f fm KindInvalid) d (fm_mask_tag fm) st"
proof -
  let ?f = "struct_child_field m f fm (fm_kind fm)" and ?g = "struct_child_field m f fm KindInvalid"
  let ?bad = "case (rv_type v, rv_data v) of (ScalarType _ StringKind, StringData s) \<Rightarrow> \<not> valid_utf8 s | _ \<Rightarrow> False"
  have basic: "is_basic_scalar (rv_type v)" using c by (simp add: v is_flat_scalar_field_def)
  note plain = basic_scalar_plain [OF assms(1) basic]
  have key: "f_key ?f = fm_json_name fm" "f_source ?f = SourceStruct" "f_key ?g = fm_json_name fm"
    by (simp_all add: struct_child_field_def)
  have same: "walk_fail L e ?g k u = walk_fail L e ?f k u" for e k u
    by (rule walk_fail_key) (simp_all add: struct_child_field_def)
  note enter = enter_flat_scalar [OF assms(1) c fm v]
  let ?st = "add_nodes 1 st" and ?n = "2 * nat (max_depth (m_cfg m) + 1 - d) + 1"
  have walk: "walk_value L W m M (Some v) ?g d (fm_mask_tag fm) st
      = walk_at L W m (walk_fuel L W m ?n) M (Some v) ?g d (fm_mask_tag fm) st" by (simp add: walk_value_Suc)
  show ?thesis
  proof (cases "max_depth (m_cfg m) < d \<or> max_nodes (m_cfg m) < ws_nodes st + 1")
    case True
    then show ?thesis unfolding walk
      by (auto simp: walk_at_def enter_value_def walk_flat_scalar_def Let_def assms(6,7) key same)
  next
    case False
    have ent: "enter_value L W m (walk_fuel L W m ?n) M (Some v) ?g d (fm_mask_tag fm) st
        = enter_reached L W m M (length (ws_active st)) v ?g d (fm_mask_tag fm) ?st"
      using False plain by (simp add: enter_value_def Let_def assms(6,7) key unwrap_interfaces_def chase_unwrapped)
    have released: "release_tracked (length (ws_active st)) u = u" if "ws_active u = ws_active st" for u
      using that by (simp add: release_tracked_def)
    show ?thesis
    proof (cases ?bad)
      case True
      have "ws_active (walk_fail L CodeInvalidUTF8 ?f d ?st) = ws_active st" by (simp add: walk_fail_def)
      then show ?thesis using False True unfolding walk walk_at_def ent enter
        by (simp add: walk_flat_scalar_def Let_def released)
    next
      case good: False
      obtain x st1 where dec: "decide_reflected L W m M v ?f (fm_mask_tag fm) d ?st = (x, st1)" by (metis surj_pair)
      have a1: "ws_active st1 = ws_active st" using decide_reflected_keeps_active [OF sorts dec] by simp
      have flat: "walk_flat_scalar L W m M v ?f d fm st = (case x of Some result \<Rightarrow> (result, st1)
          | None \<Rightarrow> (case undecided_scalar L W m v ?f d st1 of (r, st) \<Rightarrow> (Some r, st)))"
        using False good dec compiled_is_decided [OF fm key(1,2)] by (simp add: walk_flat_scalar_def Let_def)
      show ?thesis
      proof (cases x)
        case None
        obtain r st2 where r: "undecided_scalar L W m v ?f d st1 = (r, st2)" by (metis surj_pair)
        have "ws_active st2 = ws_active st" using undecided_scalar_kept [OF sorts r] a1 by (simp add: kept_def)
        then show ?thesis unfolding flat walk walk_at_def ent enter
          using good dec None r basic by (simp add: dispatch_def Let_def released)
      next
        case (Some y)
        then show ?thesis unfolding flat walk walk_at_def ent enter
          using good dec a1 by (simp add: released)
      qed
    qed
  qed
qed

theorem flat_scalar_is_walk_witness:
  "let m = \<lparr>m_policy = PolicyFunc (Some (\<lambda>f. Panics)), m_cfg = default_config\<rparr>;
       c = \<lparr>fc_field = \<lparr>sf_name = ''Age'', sf_pkg_path = [], sf_anonymous = False, sf_tag = []\<rparr>,
            fc_type = ScalarType plain_info (IntKind 64), fc_index = [0], fc_depth = 0, fc_tagged = False\<rparr>;
       fm = build_field_metadata (tables plain_library) byte_env (struct_tag (m_cfg m)) (tag_rules (m_cfg m)) (m_policy m) c;
       v = value_of (ScalarType plain_info (IntKind 64)) (IntData 42);
       st = \<lparr>ws_ins = \<lparr>st_nodes = 0, st_errs = [], st_stop = False\<rparr>, ws_active = [], ws_root_path = ''$'',
         ws_path = [], ws_indirections = 0, ws_bytes = 0\<rparr>
   in walk_flat_scalar plain_library byte_env m byte_memory v (struct_child_field m zero_field fm (fm_kind fm)) 1 fm st
    = walk_value plain_library byte_env m byte_memory (Some v) (struct_child_field m zero_field fm KindInvalid) 1 (fm_mask_tag fm) st"
proof -
  have ok: "env_ok byte_env" "sorts_by m_key (sort_members plain_library)"
    using byte_env_ok plain_library_sorts by (simp_all add: sorts_ok_def)
  have "valid_utf8 ''Age''" by (rule valid_utf8_ascii) simp
  then show ?thesis unfolding Let_def
    by (intro flat_scalar_is_walk [OF ok _ refl])
       (simp_all add: is_flat_scalar_field_def plain_info_def value_of_def build_field_metadata_def json_field_name_def Let_def)
qed

section \<open>Operations fail closed\<close>

text \<open>
  C12: \<open>MaskAny\<close> fails closed: with an error it returns the marker alone, and a result
  without one is what the walk built of the whole value, with no failure recorded and no
  limit hit on the way.
\<close>

theorem mask_any_fails_closed:
  assumes "sorts_by m_key (sort_members L)" and "mask_any L W (Some m) M v = (r, e)"
  shows "case e of
     Some _ \<Rightarrow> r = marker_result m
   | None \<Rightarrow> \<exists>x st. walk_value L W m M v \<lparr>f_key = [], f_path = ''$'', f_source = SourceAny, f_kind = KindInvalid\<rparr> 0 []
         \<lparr>ws_ins = \<lparr>st_nodes = 0, st_errs = [], st_stop = False\<rparr>, ws_active = [], ws_root_path = ''$'',
          ws_path = [], ws_indirections = 0, ws_bytes = 0\<rparr> = (x, st)
       \<and> r = (case x of None \<Rightarrow> ResultNil | Some r \<Rightarrow> r) \<and> st_errs (ws_ins st) = [] \<and> \<not> ws_stop st"
proof -
  let ?f = "\<lparr>f_key = [], f_path = ''$'', f_source = SourceAny, f_kind = KindInvalid\<rparr>"
  let ?st = "\<lparr>ws_ins = \<lparr>st_nodes = 0, st_errs = [], st_stop = False\<rparr>, ws_active = [], ws_root_path = ''$'',
          ws_path = [], ws_indirections = 0, ws_bytes = 0\<rparr>"
  obtain x st where w: "walk_value L W m M v ?f 0 [] ?st = (x, st)" by (metis surj_pair)
  then have "kept ?st st"
    using walk_fuel_ok [OF assms(1)] unfolding walk_value_def walker_ok_def by blast
  then have "st_errs (ws_ins st) = [] \<Longrightarrow> \<not> ws_stop st"
    by (auto simp: kept_def forward_def state_le_def has_limit_def)
  then show ?thesis using assms(2) w
    by (auto simp: mask_any_def mask_root_def aggregate_errors_def split: if_splits)
qed

theorem mask_any_fails_closed_witness:
  "let m = \<lparr>m_policy = PolicyFunc (Some (\<lambda>f. Returns no_opinion)), m_cfg = default_config\<rparr>
   in \<exists>x st. walk_value plain_library byte_env m byte_memory None
         \<lparr>f_key = [], f_path = ''$'', f_source = SourceAny, f_kind = KindInvalid\<rparr> 0 []
         \<lparr>ws_ins = \<lparr>st_nodes = 0, st_errs = [], st_stop = False\<rparr>, ws_active = [], ws_root_path = ''$'',
          ws_path = [], ws_indirections = 0, ws_bytes = 0\<rparr> = (x, st)
       \<and> ResultNil = (case x of None \<Rightarrow> ResultNil | Some r \<Rightarrow> r) \<and> st_errs (ws_ins st) = [] \<and> \<not> ws_stop st"
proof -
  let ?m = "\<lparr>m_policy = PolicyFunc (Some (\<lambda>f. Returns no_opinion)), m_cfg = default_config\<rparr>"
  have sorts: "sorts_by m_key (sort_members plain_library)" using plain_library_sorts by (simp add: sorts_ok_def)
  have "valid_utf8 []" by (rule valid_utf8_ascii) simp
  then have "mask_any plain_library byte_env (Some ?m) byte_memory None = (ResultNil, None)"
    by (simp add: mask_any_def mask_root_def walk_value_Suc walk_at_def enter_value_def Let_def default_config_def
        nil_value_def nil_with_rule_def call_policy_def no_opinion_def is_nil_rule_def aggregate_errors_def)
  from mask_any_fails_closed [OF sorts this] show ?thesis by (simp add: Let_def)
qed

end
