(* ===== verification/WalkTypes.thy ===== *)
theory WalkTypes
  imports WalkSound
begin

text \<open>
  Type soundness of the reflection walker: over a well-typed memory it reads every value
  at its own type, never makes a call of \<open>reflect\<close> that panics, and hands back well-typed
  scalars in maps whose keys are distinct.
\<close>

section \<open>Results\<close>

fun result_ok :: "go_result \<Rightarrow> bool" where
  "result_ok (ResultMap ms) \<longleftrightarrow> distinct (map fst ms) \<and> list_all (\<lambda>kr. result_ok (snd kr)) ms"
| "result_ok (ResultSlice rs) = list_all result_ok rs"
| "result_ok (ResultScalar t d) \<longleftrightarrow> is_basic_scalar t \<and> conforms t d"
| "result_ok ResultPanic = False"
| "result_ok _ = True"


definition optional_ok :: "go_result option \<Rightarrow> bool" where
  "optional_ok r \<longleftrightarrow> (case r of None \<Rightarrow> True | Some r \<Rightarrow> result_ok r)"

lemma optional_ok_simps [simp]: "optional_ok None" "optional_ok (Some r) = result_ok r"
  by (simp_all add: optional_ok_def)

lemma marker_ok [simp]: "result_ok (marker_result m)"
  by (simp add: marker_result_def)



section \<open>Reaching values\<close>




section \<open>Decoded documents\<close>








section \<open>Decisions and scalars\<close>











section \<open>Containers\<close>





section \<open>Structs\<close>








section \<open>The walk\<close>















end
