(* ===== verification/JsonValue.thy ===== *)
theory JsonValue
  imports WalkSound Json
begin

text \<open>
  \<open>MaskJSONValue\<close> (\<open>json_value.go\<close>): the emitter runs the walker's checks and decisions
  and writes the JSON of a Go value into a buffer as it goes.  The pool of emitters carries
  no data between calls; the buffer and the walker's state are threaded through.
\<close>

section \<open>Scalars as JSON\<close>

text \<open>
  Floats by their bit pattern: without the sign bit the patterns are ordered as the
  magnitudes are, so \<open>1e-6\<close> and \<open>1e21\<close> are compared as patterns, rounded to \<open>float32\<close> where
  the code compares at that precision.
\<close>

definition float_magnitude :: "nat \<Rightarrow> nat" where
  "float_magnitude x = x mod 2 ^ 63"

definition finite_float :: "nat \<Rightarrow> bool" where
  "finite_float x \<longleftrightarrow> float_magnitude x < 9218868437227405312"

definition exponent_format :: "nat \<Rightarrow> nat \<Rightarrow> bool" where
  "exponent_format x bits \<longleftrightarrow> float_magnitude x \<noteq> 0
     \<and> (if bits = 64 then float_magnitude x < 4517329193108106637 \<or> 4921056587992461136 \<le> float_magnitude x
        else float_magnitude x < 4517329193096183808 \<or> 4921056588145360896 \<le> float_magnitude x)"

text \<open>\<open>e-09\<close> becomes \<open>e-9\<close>, at the end of the whole buffer.\<close>

definition clean_exponent :: "bytes \<Rightarrow> bytes" where
  "clean_exponent dst =
     (let n = length dst in
      if 4 \<le> n \<and> dst ! (n - 4) = CHR ''e'' \<and> dst ! (n - 3) = CHR ''-'' \<and> dst ! (n - 2) = CHR ''0''
      then take (n - 1) (dst[n - 2 := dst ! (n - 1)]) else dst)"

definition append_json_float :: "go_env \<Rightarrow> bytes \<Rightarrow> nat \<Rightarrow> nat \<Rightarrow> bytes option" where
  "append_json_float W dst x bits =
     (if \<not> finite_float x then None
      else if exponent_format x bits then Some (clean_exponent (dst @ format_float W (CHR ''e'') x bits))
      else Some (dst @ format_float W (CHR ''f'') x bits))"

text \<open>A number that is kept is written as it is, else in quotes.\<close>

definition number_or_text :: "bool \<Rightarrow> bytes \<Rightarrow> bytes \<Rightarrow> bytes" where
  "number_or_text preserve number buf = (if preserve then buf @ number else buf @ quote_char # number @ [quote_char])"

definition append_safe_scalar ::
    "golib \<Rightarrow> go_env \<Rightarrow> masker \<Rightarrow> rvalue option \<Rightarrow> field \<Rightarrow> int \<Rightarrow> walk_state \<Rightarrow> bytes \<Rightarrow> bytes \<times> walk_state" where
  "append_safe_scalar L W m v f depth st buf = (case v of
       None \<Rightarrow> (buf @ ''null'', st)
     | Some v \<Rightarrow>
         (let preserve = preserve_safe (m_cfg m) in
          case (rv_type v, rv_data v) of
            (ScalarType _ StringKind, StringData s) \<Rightarrow>
              if rv_type v = number_type W then
                (if valid_json_number s then (buf @ s, st)
                 else (buf @ ''null'', walk_fail L CodeInvalidJSON f depth st))
              else (append_json_string buf s, st)
          | (ScalarType _ BoolKind, BoolData b) \<Rightarrow>
              (number_or_text preserve (if b then ''true'' else ''false'') buf, st)
          | (ScalarType _ (IntKind _), IntData i) \<Rightarrow> (number_or_text preserve (itoa i) buf, st)
          | (ScalarType _ (UintKind _), UintData n) \<Rightarrow> (number_or_text preserve (itoa (int n)) buf, st)
          | (ScalarType _ UintptrKind, UintData n) \<Rightarrow> (number_or_text preserve (itoa (int n)) buf, st)
          | (ScalarType _ (FloatKind bits), FloatData x) \<Rightarrow>
              if preserve then
                (case append_json_float W buf x bits of
                   None \<Rightarrow> (buf @ ''null'', walk_fail L CodeUnsupportedType f depth st)
                 | Some encoded \<Rightarrow> (encoded, st))
              else (number_or_text False (format_float W (CHR ''g'') x bits) buf, st)
          | _ \<Rightarrow> (append_json_string buf (marker (m_cfg m)), st)))"

section \<open>Results of the walker\<close>

text \<open>
  The tree the encoder makes of a result; \<open>None\<close> where \<open>jsonTreeEncoder.appendValue\<close> meets a
  value that is none of the types it knows.
\<close>

fun result_tree :: "go_env \<Rightarrow> go_result \<Rightarrow> json_tree option" where
  "result_tree W ResultNil = Some JsonNull"
| "result_tree W ResultPanic = None"
| "result_tree W (ResultString s) = Some (JsonString s)"
| "result_tree W (ResultScalar t d) = (case d of
       BoolData b \<Rightarrow> if t = bool_type then Some (JsonBool b) else None
     | StringData n \<Rightarrow> if t = number_type W then Some (JsonNumber n) else None
     | _ \<Rightarrow> None)"
| "result_tree W (ResultMap ms) = map_option JsonObject (all_some (map (\<lambda>(k, r). map_option (Pair k) (result_tree W r)) ms))"
| "result_tree W (ResultSlice rs) = map_option JsonArray (all_some (map (result_tree W) rs))"

definition encode_result :: "go_env \<Rightarrow> go_result \<Rightarrow> bytes option" where
  "encode_result W r = Option.bind (result_tree W r) encode_tree"

text \<open>
  \<open>appendResult\<close>: whether the value is omitted, the buffer and the state.  What the encoder
  had written before it failed is left out: it stands only in output that is discarded.
\<close>

definition append_result ::
    "golib \<Rightarrow> go_env \<Rightarrow> masker \<Rightarrow> go_result option \<Rightarrow> field \<Rightarrow> int \<Rightarrow> walk_state \<Rightarrow> bytes \<Rightarrow> bool \<times> bytes \<times> walk_state" where
  "append_result L W m r f depth st buf = (case r of
       None \<Rightarrow> (True, buf, st)
     | Some r \<Rightarrow>
         (case r of
            ResultScalar t d \<Rightarrow>
              if t \<noteq> bool_type \<and> t \<noteq> number_type W then (False, append_safe_scalar L W m (Some (value_of t d)) f depth st buf)
              else (case encode_result W r of
                  None \<Rightarrow> (False, buf @ ''null'', walk_fail L CodeInvalidJSON f depth st)
                | Some out \<Rightarrow> (False, buf @ out, st))
          | _ \<Rightarrow> (case encode_result W r of
                None \<Rightarrow> (False, buf @ ''null'', walk_fail L CodeInvalidJSON f depth st)
              | Some out \<Rightarrow> (False, buf @ out, st))))"

section \<open>The emitter\<close>

type_synonym go_emitter =
  "memory \<Rightarrow> rvalue option \<Rightarrow> field \<Rightarrow> int \<Rightarrow> bytes \<Rightarrow> walk_state \<Rightarrow> bytes \<Rightarrow> bool \<times> bytes \<times> walk_state"

definition emit_scalar ::
    "golib \<Rightarrow> go_env \<Rightarrow> masker \<Rightarrow> rvalue \<Rightarrow> field \<Rightarrow> int \<Rightarrow> walk_state \<Rightarrow> bytes \<Rightarrow> bytes \<times> walk_state" where
  "emit_scalar L W m v f depth st buf = (case inspectable_scalar W m v of
       None \<Rightarrow> append_safe_scalar L W m (Some v) f depth st buf
     | Some s \<Rightarrow> (case inspect_at L m s f depth st of
           ((masked, True), st) \<Rightarrow> (append_json_string buf masked, st)
         | ((masked, False), st) \<Rightarrow> append_safe_scalar L W m (Some v) f depth st buf))"

text \<open>
  One member of an object, behind \<open>done\<close> members or none: its key and value are taken back
  when the value is omitted.
\<close>

definition emit_member ::
    "bytes \<Rightarrow> (walk_state \<Rightarrow> bytes \<Rightarrow> bool \<times> bytes \<times> walk_state) \<Rightarrow> bool \<Rightarrow> walk_state \<Rightarrow> bytes \<Rightarrow> bool \<times> bytes \<times> walk_state" where
  "emit_member key emit wrote st buf =
     (case emit (push_segment (KeySegment key) st) (append_json_string (if wrote then buf @ '','' else buf) key @ '':'') of
        (omitted, out, st) \<Rightarrow>
          if omitted then (wrote, take (length buf) out, pop_path st) else (True, out, pop_path st))"

fun emit_entries ::
    "masker \<Rightarrow> go_emitter \<Rightarrow> memory \<Rightarrow> field \<Rightarrow> int \<Rightarrow> bool \<Rightarrow> (bytes \<times> rvalue) list \<Rightarrow> walk_state \<Rightarrow> bytes \<Rightarrow> bytes \<times> walk_state" where
  "emit_entries m emit M f depth wrote [] st buf = (buf, st)"
| "emit_entries m emit M f depth wrote ((key, v) # entries) st buf =
     (if ws_stop st then (buf, st)
      else (case emit_member key (emit M (Some v) (map_child_field m f key) (depth + 1) []) wrote st buf of
        (wrote, buf, st) \<Rightarrow> emit_entries m emit M f depth wrote entries st buf))"

text \<open>The keys of a map are distinct, so it does not matter how the sort orders equal keys.\<close>

definition sorted_entries :: "go_env \<Rightarrow> memory \<Rightarrow> rvalue \<Rightarrow> type_id \<Rightarrow> nat \<Rightarrow> (bytes \<times> rvalue) list" where
  "sorted_entries W M v e p =
     sort_key fst (map (\<lambda>(k, d). (entry_key k, entry_value W v e d)) (if p = 0 then [] else mem_entries M p (rv_type v)))"

definition emit_map ::
    "golib \<Rightarrow> go_env \<Rightarrow> masker \<Rightarrow> go_emitter \<Rightarrow> memory \<Rightarrow> rvalue \<Rightarrow> field \<Rightarrow> int \<Rightarrow> walk_state \<Rightarrow> bytes \<Rightarrow> bytes \<times> walk_state" where
  "emit_map L W m emit M v f depth st buf =
     (let failed = (\<lambda>code. (append_json_string buf (marker (m_cfg m)), walk_fail L code f depth st)) in
      case (rv_type v, rv_data v) of
        (MapType i k e, MapData p) \<Rightarrow>
          (case type_ref W k of
             ScalarType _ StringKind \<Rightarrow>
               (let entries = sorted_entries W M v e p in
                if max_nodes (m_cfg m) - ws_nodes st < int (length entries) then failed CodeNodeLimit
                else (case emit_entries m emit M f depth False entries st (buf @ ''{'') of
                  (buf, st) \<Rightarrow> (buf @ ''}'', st)))
           | _ \<Rightarrow> failed CodeUnsupportedKey)
      | _ \<Rightarrow> failed CodeUnsupportedKey)"

fun emit_elements ::
    "masker \<Rightarrow> go_emitter \<Rightarrow> memory \<Rightarrow> field \<Rightarrow> int \<Rightarrow> nat \<Rightarrow> rvalue list \<Rightarrow> walk_state \<Rightarrow> bytes \<Rightarrow> bytes \<times> walk_state" where
  "emit_elements m emit M f depth i [] st buf = (buf, st)"
| "emit_elements m emit M f depth i (v # vs) st buf =
     (if ws_stop st then (buf, st)
      else (case emit M (Some v) (array_child_field m f i) (depth + 1) [] (push_segment (IndexSegment i) st)
            (if 0 < i then buf @ '','' else buf) of
        (omitted, buf, st) \<Rightarrow>
          emit_elements m emit M f depth (Suc i) vs (pop_path st) (if omitted then buf @ ''null'' else buf)))"

text \<open>A panic of \<open>reflect\<close>, which the operation recovers from, is recorded as its failure.\<close>

definition emit_array ::
    "golib \<Rightarrow> go_env \<Rightarrow> masker \<Rightarrow> go_emitter \<Rightarrow> memory \<Rightarrow> rvalue \<Rightarrow> field \<Rightarrow> int \<Rightarrow> walk_state \<Rightarrow> bytes \<Rightarrow> bytes \<times> walk_state" where
  "emit_array L W m emit M v f depth st buf =
     (case element_values W M v of
        None \<Rightarrow> (append_json_string buf (marker (m_cfg m)), walk_fail L CodePanic f depth st)
      | Some vs \<Rightarrow> (case emit_elements m emit M f depth 0 vs st (buf @ ''['') of
          (buf, st) \<Rightarrow> (buf @ '']'', st)))"

definition emit_flat_scalar ::
    "golib \<Rightarrow> go_env \<Rightarrow> masker \<Rightarrow> memory \<Rightarrow> rvalue \<Rightarrow> field \<Rightarrow> int \<Rightarrow> field_metadata \<Rightarrow> walk_state \<Rightarrow> bytes
      \<Rightarrow> bool \<times> bytes \<times> walk_state" where
  "emit_flat_scalar L W m M v f depth fm st buf =
     (let failed = (\<lambda>code st. (False, append_json_string buf (marker (m_cfg m)), walk_fail L code f depth st)) in
      if max_depth (m_cfg m) < depth then failed CodeDepthLimit st
      else (let st = add_nodes 1 st in
        if max_nodes (m_cfg m) < ws_nodes st then failed CodeNodeLimit st
        else if (case (rv_type v, rv_data v) of (ScalarType _ StringKind, StringData s) \<Rightarrow> \<not> valid_utf8 s | _ \<Rightarrow> False)
        then failed CodeInvalidUTF8 st
        else (case compiled_decision L W m M v f fm depth st of
            (Some result, st) \<Rightarrow> append_result L W m result f depth st buf
          | (None, st) \<Rightarrow> (False, emit_scalar L W m v f depth st buf))))"

fun emit_fields ::
    "golib \<Rightarrow> go_env \<Rightarrow> masker \<Rightarrow> go_emitter \<Rightarrow> memory \<Rightarrow> rvalue \<Rightarrow> field \<Rightarrow> int \<Rightarrow> bool \<Rightarrow> field_metadata list
      \<Rightarrow> walk_state \<Rightarrow> bytes \<Rightarrow> bytes \<times> walk_state" where
  "emit_fields L W m emit M v f depth wrote [] st buf = (buf, st)"
| "emit_fields L W m emit M v f depth wrote (fm # fms) st buf =
     (if ws_stop st then (buf, st)
      else case field_by_index W M v (fm_index fm) of
        None \<Rightarrow> emit_fields L W m emit M v f depth wrote fms st buf
      | Some x \<Rightarrow>
          if fm_json_omit fm \<or> fm_mask_tag fm = ''omit'' then emit_fields L W m emit M v f depth wrote fms st buf
          else (case emit_member (fm_json_name fm)
              (if fm_flat_scalar fm
               then emit_flat_scalar L W m M x (struct_child_field m f fm (fm_kind fm)) (depth + 1) fm
               else emit M (Some x) (struct_child_field m f fm KindInvalid) (depth + 1) (fm_mask_tag fm)) wrote st buf of
            (wrote, buf, st) \<Rightarrow> emit_fields L W m emit M v f depth wrote fms st buf))"

definition emit_struct ::
    "golib \<Rightarrow> go_env \<Rightarrow> masker \<Rightarrow> go_emitter \<Rightarrow> memory \<Rightarrow> rvalue \<Rightarrow> field \<Rightarrow> int \<Rightarrow> walk_state \<Rightarrow> bytes \<Rightarrow> bytes \<times> walk_state" where
  "emit_struct L W m emit M v f depth st buf =
     (let sm = build_struct_metadata (tables L) W (rv_type v) (struct_tag (m_cfg m)) (tag_rules (m_cfg m)) (m_policy m);
          st = (if sm_flat_scalar sm then st else report_conflicts L m f (sm_conflicts sm) st) in
      case emit_fields L W m emit M v f depth False (sm_sorted sm) st (buf @ ''{'') of
        (buf, st) \<Rightarrow> (buf @ ''}'', st))"

text \<open>The part of \<open>emit\<close> that renders the shape of a node, before its identities are released.\<close>

definition emit_node ::
    "golib \<Rightarrow> go_env \<Rightarrow> masker \<Rightarrow> go_emitter \<Rightarrow> memory \<Rightarrow> walk_node \<Rightarrow> int \<Rightarrow> walk_state \<Rightarrow> bytes
      \<Rightarrow> bool \<times> bytes \<times> walk_state" where
  "emit_node L W m emit M node depth st buf =
     (let v = wn_value node; f = wn_field node in
      if wn_textual node then
        (False, case render_text L W m M v f depth st of
           (RenderFailed, st) \<Rightarrow> (append_json_string buf (marker (m_cfg m)), st)
         | (RenderPanic, st) \<Rightarrow> (append_json_string buf (marker (m_cfg m)), walk_fail L CodePanic f depth st)
         | (Rendered txt, st) \<Rightarrow>
             (let safe = (\<lambda>st. append_safe_scalar L W m (Some (value_of string_type (StringData txt))) f depth st buf) in
              if implements_text_marshaler W v \<and> inspectable m txt then
                (case inspect_at L m txt f depth st of
                   ((masked, True), st) \<Rightarrow> (append_json_string buf masked, st)
                 | ((masked, False), st) \<Rightarrow> safe st)
              else safe st))
      else if is_basic_scalar (rv_type v) then (False, emit_scalar L W m v f depth st buf)
      else case rv_type v of
        MapType _ _ _ \<Rightarrow> (False, emit_map L W m emit M v f depth st buf)
      | SliceType _ _ \<Rightarrow> (False, emit_array L W m emit M v f depth st buf)
      | ArrayType _ _ _ \<Rightarrow> (False, emit_array L W m emit M v f depth st buf)
      | StructType _ _ \<Rightarrow> (False, emit_struct L W m emit M v f depth st buf)
      | _ \<Rightarrow> (case dispatch L W m (walk_value L W m) M node depth st of
            (r, st) \<Rightarrow> append_result L W m (Some r) f depth st buf))"

definition emit_at :: "golib \<Rightarrow> go_env \<Rightarrow> masker \<Rightarrow> go_emitter \<Rightarrow> go_emitter" where
  "emit_at L W m emit M v f depth tag st buf =
     (case enter_value L W m (walk_value L W m) M v f depth tag st of
        (Inl result, st) \<Rightarrow> append_result L W m result f depth st buf
      | (Inr node, st) \<Rightarrow> (case emit_node L W m emit M node depth st buf of
          (omitted, buf, st) \<Rightarrow> (omitted, buf, release_tracked (wn_start node) st)))"

text \<open>Every child is one deeper, and the depth limit bounds the levels.\<close>

fun emit_fuel :: "golib \<Rightarrow> go_env \<Rightarrow> masker \<Rightarrow> nat \<Rightarrow> go_emitter" where
  "emit_fuel L W m 0 M v f depth tag st buf = (False, append_json_string buf (marker (m_cfg m)), st)"
| "emit_fuel L W m (Suc n) M v f depth tag st buf = emit_at L W m (emit_fuel L W m n) M v f depth tag st buf"

definition emit_levels :: "masker \<Rightarrow> int \<Rightarrow> nat" where
  "emit_levels m depth = nat (max_depth (m_cfg m) + 1 - depth) + 1"

definition emit_value :: "golib \<Rightarrow> go_env \<Rightarrow> masker \<Rightarrow> go_emitter" where
  "emit_value L W m M v f depth tag st buf = emit_fuel L W m (emit_levels m depth) M v f depth tag st buf"

definition start_walk :: "bytes \<Rightarrow> walk_state" where
  "start_walk path = \<lparr>ws_ins = \<lparr>st_nodes = 0, st_errs = [], st_stop = False\<rparr>, ws_active = [], ws_root_path = path,
     ws_path = [], ws_indirections = 0, ws_bytes = 0\<rparr>"

definition mask_json_value :: "golib \<Rightarrow> go_env \<Rightarrow> masker option \<Rightarrow> memory \<Rightarrow> rvalue option \<Rightarrow> bytes \<times> go_error option" where
  "mask_json_value L W m M v = (case m of
       None \<Rightarrow> (quote_char # default_redaction_marker @ [quote_char], Some (Wrapped CodeInvalidConfig))
     | Some m \<Rightarrow>
         (case emit_value L W m M v \<lparr>f_key = [], f_path = ''$'', f_source = SourceAny, f_kind = KindInvalid\<rparr> 0 []
             (start_walk ''$'') [] of
            (omitted, buf, st) \<Rightarrow>
              (case aggregate_errors (st_errs (ws_ins st)) of
                 Some e \<Rightarrow> (safe_json_fallback m, Some e)
               | None \<Rightarrow> (if omitted then ''null'' else buf, None))))"

end
