(* ===== verification/EmitSound.thy ===== *)
theory EmitSound
  imports JsonValue
begin

text \<open>
  What the emitter of \<open>json_value.go\<close> guarantees: it satisfies the equation of the source,
  and what it writes is JSON.
\<close>

section \<open>Numbers are written as JSON numbers\<close>

lemma digit_char: "d < 10 \<Longrightarrow> json_digit (chr (48 + d))" "0 < d \<Longrightarrow> d < 10 \<Longrightarrow> CHR ''1'' \<le> chr (48 + d) \<and> chr (48 + d) \<le> CHR ''9''"
  by (simp_all add: json_digit_def char_le_byte)

lemma digits_of_head:
  "n \<noteq> 0 \<Longrightarrow> \<exists>d ds. digits_of n = d # ds \<and> CHR ''1'' \<le> d \<and> d \<le> CHR ''9'' \<and> list_all json_digit ds"
proof (induction n rule: digits_of.induct)
  case (1 n)
  show ?case
  proof (cases "n < 10")
    case True
    then show ?thesis using digit_char(2) [of n] "1.prems" by (subst digits_of.simps) simp
  next
    case False
    then have "n div 10 \<noteq> 0" by simp
    from "1.IH" [OF False this] show ?thesis using False digit_char(1) [of "n mod 10"]
      by (subst digits_of.simps) auto
  qed
qed

lemma digits_of_int_part: "int_part (digits_of n)"
proof (cases "n = 0")
  case True
  then show ?thesis by (subst digits_of.simps) (simp add: int_part_def char_eq_byte)
next
  case False
  then show ?thesis using digits_of_head [of n] by (simp add: int_part_def)
qed

lemma int_part_number: "int_part i \<Longrightarrow> sg = [] \<or> sg = ''-'' \<Longrightarrow> json_number_grammar (sg @ i)"
  unfolding json_number_grammar_def
  by (rule exI [of _ sg], rule exI [of _ i], rule exI [of _ "[]"], rule exI [of _ "[]"])
     (simp add: frac_part_def exp_part_def)

lemma itoa_number: "json_number_grammar (itoa i)"
  using int_part_number [OF digits_of_int_part, of "[]"] int_part_number [OF digits_of_int_part, of "''-''"]
  by (simp add: itoa_def)

text \<open>Text that needs no escape: it is its own encoding.\<close>

definition plain_text :: "bytes \<Rightarrow> bool" where
  "plain_text s \<longleftrightarrow> list_all (\<lambda>c. byte c < 128 \<and> json_plain c) s"

lemma escape_plain_text: "plain_text s \<Longrightarrow> escape_json s = s"
  by (induction s) (simp_all add: plain_text_def escape_json.simps)

lemma plain_text_written: "plain_text s \<Longrightarrow> written (quote_char # s @ [quote_char])"
  using encoded_written [of s] by (simp add: append_json_string_def escape_plain_text)

lemma itoa_plain: "plain_text (itoa i)"
proof -
  have "byte c < 128 \<and> json_plain c" if "CHR ''0'' \<le> c" "c \<le> CHR ''9''" for c
    using that by (auto simp: json_plain_def char_le_byte)
  then have "list_all (\<lambda>c. byte c < 128 \<and> json_plain c) (digits_of n)" for n
    using digits_of_range unfolding list_all_iff by blast
  then show ?thesis by (simp add: plain_text_def itoa_def json_plain_def char_le_byte)
qed

text \<open>
  What \<open>strconv.FormatFloat\<close> documents: \<open>'f'\<close> prints \<open>-ddd.ddd\<close>, \<open>'e'\<close> prints \<open>-d.ddde\<plusminus>dd\<close> with at
  least two digits in the exponent, and \<open>'g'\<close> letters, digits, signs and a point.
\<close>

definition exponent_text :: "bytes \<Rightarrow> bool" where
  "exponent_text t \<longleftrightarrow> (\<exists>sg i f s ds. t = sg @ i @ f @ CHR ''e'' # s # ds \<and> (sg = [] \<or> sg = ''-'')
     \<and> int_part i \<and> frac_part f \<and> (s = CHR ''+'' \<or> s = CHR ''-'') \<and> list_all json_digit ds \<and> 2 \<le> length ds)"

definition fixed_text :: "bytes \<Rightarrow> bool" where
  "fixed_text t \<longleftrightarrow> (\<exists>sg i f. t = sg @ i @ f \<and> (sg = [] \<or> sg = ''-'') \<and> int_part i \<and> frac_part f)"

definition floats_ok :: "go_env \<Rightarrow> bool" where
  "floats_ok W \<longleftrightarrow> (\<forall>x bits. finite_float x \<longrightarrow>
       exponent_text (format_float W (CHR ''e'') x bits) \<and> fixed_text (format_float W (CHR ''f'') x bits))
     \<and> (\<forall>x bits. plain_text (format_float W (CHR ''g'') x bits))"

lemma exponent_number:
  assumes "sg = [] \<or> sg = ''-''" and "int_part i" and "frac_part f" and "s = CHR ''+'' \<or> s = CHR ''-''"
    and "list_all json_digit ds" and "ds \<noteq> []"
  shows "json_number_grammar (sg @ i @ f @ CHR ''e'' # s # ds)"
proof -
  have "exp_part (CHR ''e'' # s # ds)" unfolding exp_part_def
    by (rule disjI2, rule exI [of _ "CHR ''e''"], rule exI [of _ "[s]"], rule exI [of _ ds])
       (use assms(4-6) in \<open>auto simp: json_digits_def\<close>)
  then show ?thesis unfolding json_number_grammar_def
    by (intro exI [of _ sg] exI [of _ i] exI [of _ f] exI [of _ "CHR ''e'' # s # ds"]) (use assms(1-3) in simp)
qed

lemma fixed_number: "fixed_text t \<Longrightarrow> json_number_grammar t"
  unfolding fixed_text_def json_number_grammar_def by (metis append_Nil2 exp_part_def)

lemma clean_exponent_number:
  assumes "exponent_text t"
  shows "\<exists>u. clean_exponent (dst @ t) = dst @ u \<and> json_number_grammar u"
proof -
  obtain sg i f s ds where t: "t = sg @ i @ f @ CHR ''e'' # s # ds"
    and parts: "sg = [] \<or> sg = ''-''" "int_part i" "frac_part f" "s = CHR ''+'' \<or> s = CHR ''-''" "list_all json_digit ds"
    and len: "2 \<le> length ds"
    using assms unfolding exponent_text_def by blast
  have "json_number_grammar t" unfolding t by (rule exponent_number [OF parts]) (use len in auto)
  moreover have "\<exists>u. clean_exponent (dst @ t) = dst @ u \<and> json_number_grammar u" if "clean_exponent (dst @ t) \<noteq> dst @ t"
  proof -
    obtain a where a: "dst @ t = a @ CHR ''e'' # s # ds" "a = dst @ sg @ i @ f" by (simp add: t)
    have n: "length (dst @ t) = length a + 2 + length ds" unfolding a(1) by simp
    have minus: "(dst @ t) ! (length (dst @ t) - 3) = CHR ''-''" "(dst @ t) ! (length (dst @ t) - 2) = CHR ''0''"
      using that by (auto simp: clean_exponent_def Let_def split: if_splits)
    have "length ds = 2"
    proof (rule ccontr)
      assume "length ds \<noteq> 2"
      then have "3 \<le> length ds" using len by simp
      then have "(dst @ t) ! (length (dst @ t) - 3) = ds ! (length ds - 3)" "length ds - 3 < length ds"
        unfolding n unfolding a(1) by (auto simp: nth_append nth_Cons' numeral_3_eq_3)
      then have "json_digit (CHR ''-'')" using minus(1) parts(5) by (metis list_all_length)
      then show False by (simp add: json_digit_def char_le_byte)
    qed
    then obtain p q where ds: "ds = [p, q]" by (auto simp: numeral_2_eq_2 length_Suc_conv)
    have "clean_exponent (dst @ t) = a @ [CHR ''e'', s, q]"
      using that unfolding a(1) ds
      by (auto simp: clean_exponent_def Let_def nth_append list_update_append split: if_splits)
    moreover have "json_number_grammar (sg @ i @ f @ [CHR ''e'', s, q])"
      by (rule exponent_number [OF parts(1-4)]) (use parts(5) ds in simp_all)
    ultimately show ?thesis unfolding a(2) by auto
  qed
  ultimately show ?thesis by blast
qed

section \<open>What the emitter writes\<close>

definition emitted :: "bytes \<Rightarrow> bool \<Rightarrow> bytes \<Rightarrow> bool" where
  "emitted buf omitted out \<longleftrightarrow> (\<exists>t. out = buf @ t \<and> (if omitted then t = [] else written t))"

lemma emitted_text: "written t \<Longrightarrow> emitted buf False (buf @ t)"
  by (simp add: emitted_def)

lemma emitted_string: "emitted buf False (append_json_string buf s)"
  using emitted_text [OF encoded_written, of buf s] append_json_string_dst [of buf s] by simp

lemma number_or_text_emitted:
  assumes "preserve \<longrightarrow> written s" and "plain_text s"
  shows "emitted buf False (number_or_text preserve s buf)"
  using assms plain_text_written [of s] emitted_text by (auto simp: number_or_text_def)

lemma append_json_float_emitted:
  "floats_ok W \<Longrightarrow> append_json_float W buf x bits = Some out \<Longrightarrow> emitted buf False out"
  using clean_exponent_number [of _ buf] fixed_number number_written
  by (fastforce simp: append_json_float_def floats_ok_def emitted_def split: if_splits)

lemma append_safe_scalar_emitted:
  assumes "floats_ok W" and "append_safe_scalar L W m v f d st buf = (out, st')"
  shows "emitted buf False out"
proof -
  note number = number_or_text_emitted [OF impI [OF number_written [OF itoa_number]] itoa_plain]
  have bool: "emitted buf False (number_or_text p ''true'' buf)" "emitted buf False (number_or_text p ''false'' buf)" for p
    by (rule number_or_text_emitted; auto intro!: literal_written simp: plain_text_def json_plain_def char_le_byte)+
  have float: "emitted buf False (number_or_text False (format_float W (CHR ''g'') x bits) buf)" for x bits
    using assms(1) by (intro number_or_text_emitted) (simp_all add: floats_ok_def)
  note texts = emitted_text [OF null_written] emitted_text [OF number_written] emitted_string number bool float
    append_json_float_emitted [OF assms(1)]
  show ?thesis
  proof (cases v)
    case None
    then show ?thesis using assms(2) texts(1) [of buf] by (auto simp: append_safe_scalar_def)
  next
    case (Some x)
    show ?thesis
    proof (cases "\<exists>i k. rv_type x = ScalarType i k")
      case True
      then obtain i k where "rv_type x = ScalarType i k" by blast
      then show ?thesis using assms(2) texts Some valid_json_number_iff
        by (cases k; cases "rv_data x") (auto simp: append_safe_scalar_def Let_def split: if_splits option.splits)
    next
      case False
      then show ?thesis using assms(2) texts Some
        by (cases "rv_type x") (auto simp: append_safe_scalar_def Let_def)
    qed
  qed
qed

lemma append_result_emitted:
  assumes "floats_ok W" and "append_result L W m r f d st buf = (omitted, out, st')"
  shows "emitted buf omitted out"
proof (cases r)
  case None
  then show ?thesis using assms(2) by (auto simp: append_result_def emitted_def)
next
  case (Some x)
  have enc: "emitted buf omitted out" if "(case encode_result W x of None \<Rightarrow> (False, buf @ ''null'', walk_fail L CodeInvalidJSON f d st)
      | Some u \<Rightarrow> (False, buf @ u, st)) = (omitted, out, st')"
    using that emitted_text [OF null_written] emitted_text [OF encode_tree_written]
    by (auto simp: encode_result_def bind_eq_Some_conv split: option.splits)
  show ?thesis
  proof (cases "\<exists>t d. x = ResultScalar t d \<and> t \<noteq> bool_type \<and> t \<noteq> number_type W")
    case True
    then show ?thesis using assms(2) Some append_safe_scalar_emitted [OF assms(1)] by (auto simp: append_result_def)
  next
    case False
    then show ?thesis using assms(2) Some enc by (cases x) (auto simp: append_result_def)
  qed
qed

lemma emit_scalar_emitted:
  "floats_ok W \<Longrightarrow> emit_scalar L W m v f d st buf = (out, st') \<Longrightarrow> emitted buf False out"
  using append_safe_scalar_emitted emitted_string
  by (auto simp: emit_scalar_def split: option.splits prod.splits bool.splits)

definition emitter_ok :: "go_emitter \<Rightarrow> bool" where
  "emitter_ok emit \<longleftrightarrow> (\<forall>M v f d tag st buf omitted out st'. emit M v f d tag st buf = (omitted, out, st') \<longrightarrow> emitted buf omitted out)"

lemma emitter_okD: "emitter_ok emit \<Longrightarrow> emit M v f d tag st buf = (omitted, out, st') \<Longrightarrow> emitted buf omitted out"
  unfolding emitter_ok_def by blast

lemma emit_flat_scalar_emitted:
  assumes "floats_ok W" and "emit_flat_scalar L W m M v f d fm st buf = (omitted, out, st')"
  shows "emitted buf omitted out"
  using assms(2) append_result_emitted [OF assms(1)] emit_scalar_emitted [OF assms(1)] emitted_string
  by (auto simp: emit_flat_scalar_def Let_def split: if_splits prod.splits option.splits)

text \<open>The members that were written behind the buffer, behind a comma when there were some before.\<close>

definition members_emitted :: "bytes \<Rightarrow> bool \<Rightarrow> bytes \<Rightarrow> bool" where
  "members_emitted buf wrote out \<longleftrightarrow> (\<exists>kvs. (\<forall>kv \<in> set kvs. written (snd kv))
     \<and> out = buf @ (if kvs \<noteq> [] \<and> wrote then '','' else []) @ join '','' (map encode_member kvs))"

lemma members_emitted_none: "members_emitted buf wrote buf"
  unfolding members_emitted_def by (rule exI [of _ "[]"]) simp

lemma join_Cons: "join sep (p # ps) = p @ (if ps = [] then [] else sep @ join sep ps)"
  by (cases ps) simp_all

lemma emit_member_emitted:
  assumes "\<And>st buf omitted out st'. emit st buf = (omitted, out, st') \<Longrightarrow> emitted buf omitted out"
    and "emit_member key emit wrote st buf = (wrote', buf', st')" and "members_emitted buf' wrote' out"
  shows "members_emitted buf wrote out"
proof -
  let ?head = "append_json_string (if wrote then buf @ '','' else buf) key @ '':''"
  obtain omitted o' u where e: "emit (push_segment (KeySegment key) st) ?head = (omitted, o', u)" by (metis prod_cases3)
  obtain t where t: "o' = ?head @ t" "if omitted then t = [] else written t"
    using assms(1) [OF e] by (auto simp: emitted_def)
  have head: "?head = buf @ (if wrote then '','' else []) @ append_json_string [] key @ '':''"
    by (subst append_json_string_dst) simp
  show ?thesis
  proof (cases omitted)
    case True
    then have "buf' = buf" "wrote' = wrote" using assms(2) e t(1) head by (auto simp: emit_member_def)
    then show ?thesis using assms(3) by simp
  next
    case False
    then have w: "wrote'" "buf' = buf @ (if wrote then '','' else []) @ encode_member (key, t)"
      using assms(2) e t(1) head by (auto simp: emit_member_def encode_member_def)
    obtain kvs where "\<forall>kv \<in> set kvs. written (snd kv)"
        "out = buf' @ (if kvs \<noteq> [] then '','' else []) @ join '','' (map encode_member kvs)"
      using assms(3) w(1) by (auto simp: members_emitted_def)
    then show ?thesis using w(2) t(2) False unfolding members_emitted_def
      by (intro exI [of _ "(key, t) # kvs"]) (auto simp: join_Cons)
  qed
qed

lemma emit_entries_emitted:
  assumes "emitter_ok emit"
  shows "emit_entries m emit M f d wrote entries st buf = (out, st') \<Longrightarrow> members_emitted buf wrote out"
proof (induction entries arbitrary: wrote st buf)
  case (Cons kv entries)
  obtain key v where kv: "kv = (key, v)" by (cases kv)
  obtain w b u where e: "emit_member key (emit M (Some v) (map_child_field m f key) (d + 1) []) wrote st buf = (w, b, u)"
    by (metis prod_cases3)
  show ?case
  proof (cases "ws_stop st")
    case True
    then show ?thesis using Cons.prems members_emitted_none by (simp add: kv)
  next
    case False
    then have rest: "members_emitted b w out" using Cons.prems e Cons.IH by (simp add: kv)
    show ?thesis by (rule emit_member_emitted [OF _ e rest]) (rule emitter_okD [OF assms])
  qed
qed (auto intro: members_emitted_none)

lemma emit_fields_emitted:
  assumes "emitter_ok emit" and "floats_ok W"
  shows "emit_fields L W m emit M v f d wrote fms st buf = (out, st') \<Longrightarrow> members_emitted buf wrote out"
proof (induction fms arbitrary: wrote st buf)
  case (Cons fm fms)
  show ?case
  proof (cases "ws_stop st \<or> field_by_index W M v (fm_index fm) = None \<or> fm_json_omit fm \<or> fm_mask_tag fm = ''omit''")
    case True
    then show ?thesis using Cons members_emitted_none by (auto split: if_splits option.splits)
  next
    case False
    then obtain x where x: "field_by_index W M v (fm_index fm) = Some x" by auto
    let ?emit = "if fm_flat_scalar fm
               then emit_flat_scalar L W m M x (struct_child_field m f fm (fm_kind fm)) (d + 1) fm
               else emit M (Some x) (struct_child_field m f fm KindInvalid) (d + 1) (fm_mask_tag fm)"
    obtain w b u where e: "emit_member (fm_json_name fm) ?emit wrote st buf = (w, b, u)" by (metis prod_cases3)
    then have rest: "members_emitted b w out" using Cons.prems False x Cons.IH by simp
    show ?thesis
      by (rule emit_member_emitted [OF _ e rest])
         (use emitter_okD [OF assms(1)] emit_flat_scalar_emitted [OF assms(2)] in \<open>simp split: if_splits\<close>)
  qed
qed (auto intro: members_emitted_none)

lemma object_emitted: "members_emitted (buf @ ''{'') False out \<Longrightarrow> emitted buf False (out @ ''}'')"
  using object_text_written by (auto simp: members_emitted_def emitted_def)

lemma emit_elements_emitted:
  assumes "emitter_ok emit"
  shows "emit_elements m emit M f d i vs st buf = (out, st') \<Longrightarrow>
    \<exists>ts. (\<forall>t \<in> set ts. written t) \<and> out = buf @ (if ts \<noteq> [] \<and> 0 < i then '','' else []) @ join '','' ts"
proof (induction vs arbitrary: i st buf)
  case Nil
  then show ?case by (intro exI [of _ "[]"]) simp
next
  case (Cons v vs)
  let ?buf = "if 0 < i then buf @ '','' else buf"
  obtain om b u where e: "emit M (Some v) (array_child_field m f i) (d + 1) [] (push_segment (IndexSegment i) st) ?buf = (om, b, u)"
    by (metis prod_cases3)
  show ?case
  proof (cases "ws_stop st")
    case True
    then show ?thesis using Cons.prems by (intro exI [of _ "[]"]) simp
  next
    case False
    let ?b = "if om then b @ ''null'' else b"
    have "emitted ?buf om b" by (rule emitter_okD [OF assms e])
    then obtain t where t: "?b = ?buf @ t" "written t" using null_written by (cases om) (auto simp: emitted_def)
    have "emit_elements m emit M f d (Suc i) vs (pop_path u) ?b = (out, st')" using Cons.prems False e by simp
    from Cons.IH [OF this] obtain ts where "\<forall>t \<in> set ts. written t" "out = ?b @ (if ts \<noteq> [] then '','' else []) @ join '','' ts"
      by auto
    then show ?thesis using t by (intro exI [of _ "t # ts"]) (auto simp: join_Cons)
  qed
qed

lemma emit_map_emitted:
  assumes "emitter_ok emit" and "emit_map L W m emit M v f d st buf = (out, st')"
  shows "emitted buf False out"
  using assms(2) object_emitted emit_entries_emitted [OF assms(1)] emitted_string
  by (auto simp: emit_map_def Let_def split: go_type.splits go_data.splits scalar_kind.splits if_splits prod.splits)

lemma emit_array_emitted:
  assumes "emitter_ok emit" and "emit_array L W m emit M v f d st buf = (out, st')"
  shows "emitted buf False out"
proof (cases "element_values W M v")
  case None
  then show ?thesis using assms(2) emitted_string by (auto simp: emit_array_def)
next
  case (Some xs)
  obtain b where b: "emit_elements m emit M f d 0 xs st (buf @ ''['') = (b, st')" "out = b @ '']''"
    using assms(2) Some by (auto simp: emit_array_def split: prod.splits)
  from emit_elements_emitted [OF assms(1) b(1)] obtain ts where "\<forall>t \<in> set ts. written t" "b = buf @ ''['' @ join '','' ts" by auto
  then show ?thesis using array_text_written by (auto simp: emitted_def b(2))
qed

lemma emit_struct_emitted:
  "emitter_ok emit \<Longrightarrow> floats_ok W \<Longrightarrow> emit_struct L W m emit M v f d st buf = (out, st') \<Longrightarrow> emitted buf False out"
  using object_emitted emit_fields_emitted by (auto simp: emit_struct_def Let_def split: prod.splits)

lemma emit_node_emitted:
  assumes "emitter_ok emit" and "floats_ok W" and n: "emit_node L W m emit M node d st buf = (omitted, out, st')"
  shows "emitted buf omitted out"
proof (cases "wn_textual node")
  case True
  then show ?thesis using n append_safe_scalar_emitted [OF assms(2)] emitted_string
    by (auto simp: emit_node_def Let_def split: prod.splits rendered.splits if_splits bool.splits)
next
  case False
  show ?thesis
  proof (cases "is_basic_scalar (rv_type (wn_value node))")
    case True
    then show ?thesis using n False emit_scalar_emitted [OF assms(2)] by (auto simp: emit_node_def Let_def)
  next
    case other: False
    then show ?thesis using n False emit_map_emitted [OF assms(1)] emit_array_emitted [OF assms(1)]
        emit_struct_emitted [OF assms(1,2)] append_result_emitted [OF assms(2)]
      by (cases "rv_type (wn_value node)") (auto simp: emit_node_def Let_def split: prod.splits)
  qed
qed

lemma emit_at_ok:
  assumes "emitter_ok emit" and "floats_ok W"
  shows "emitter_ok (emit_at L W m emit)"
  unfolding emitter_ok_def
proof (intro allI impI)
  fix M v f d tag st buf omitted out st' assume e: "emit_at L W m emit M v f d tag st buf = (omitted, out, st')"
  obtain x u where x: "enter_value L W m (walk_value L W m) M v f d tag st = (x, u)" by (metis surj_pair)
  show "emitted buf omitted out"
    using e x append_result_emitted [OF assms(2)] emit_node_emitted [OF assms]
    by (cases x) (auto simp: emit_at_def split: prod.splits)
qed

lemma emit_fuel_ok: "floats_ok W \<Longrightarrow> emitter_ok (emit_fuel L W m n)"
proof (induction n)
  case 0
  then show ?case using emitted_string by (simp add: emitter_ok_def)
next
  case (Suc n)
  have "emit_fuel L W m (Suc n) = emit_at L W m (emit_fuel L W m n)" by (intro ext) simp
  then show ?case using emit_at_ok Suc by simp
qed

section \<open>Enough levels\<close>

lemma emit_entries_cong:
  assumes "\<And>N x g t u b. emit N x g (depth + 1) t u b = emit' N x g (depth + 1) t u b"
  shows "emit_entries m emit M f depth wrote entries st buf = emit_entries m emit' M f depth wrote entries st buf"
proof (induction entries arbitrary: wrote st buf)
  case (Cons kv entries)
  obtain k v where "kv = (k, v)" by (cases kv)
  then show ?case by (simp add: Cons.IH assms emit_member_def split: prod.split)
qed simp

lemma emit_elements_cong:
  assumes "\<And>N x g t u b. emit N x g (depth + 1) t u b = emit' N x g (depth + 1) t u b"
  shows "emit_elements m emit M f depth i vs st buf = emit_elements m emit' M f depth i vs st buf"
proof (induction vs arbitrary: i st buf)
  case (Cons v vs)
  show ?case by (simp add: Cons.IH assms split: prod.split)
qed simp

lemma emit_fields_cong:
  assumes "\<And>N x g t u b. emit N x g (depth + 1) t u b = emit' N x g (depth + 1) t u b"
  shows "emit_fields L W m emit M v f depth wrote fms st buf = emit_fields L W m emit' M v f depth wrote fms st buf"
proof (induction fms arbitrary: wrote st buf)
  case (Cons fm fms)
  show ?case by (simp add: Cons.IH assms emit_member_def split: prod.split option.split)
qed simp

lemma emit_at_cong:
  assumes "\<And>N x g t u b. depth \<le> max_depth (m_cfg m) \<Longrightarrow> emit N x g (depth + 1) t u b = emit' N x g (depth + 1) t u b"
  shows "emit_at L W m emit M v f depth tag st buf = emit_at L W m emit' M v f depth tag st buf"
proof (cases "depth \<le> max_depth (m_cfg m)")
  case True
  note same = assms [OF True]
  have "emit_node L W m emit M node depth u buf = emit_node L W m emit' M node depth u buf" for node u
    unfolding emit_node_def emit_map_def emit_array_def emit_struct_def
      emit_entries_cong [where emit = emit and emit' = emit', OF same]
      emit_elements_cong [where emit = emit and emit' = emit', OF same]
      emit_fields_cong [where emit = emit and emit' = emit', OF same] ..
  then show ?thesis by (simp add: emit_at_def split: prod.split sum.split)
next
  case False
  then obtain r st' where "enter_value L W m (walk_value L W m) M v f depth tag st = (Inl r, st')"
    using enter_value_deep [of m depth] by (metis not_le)
  then show ?thesis by (simp add: emit_at_def)
qed

lemma emit_fuel_enough:
  "nat (max_depth (m_cfg m) + 1 - depth) + 1 \<le> n \<Longrightarrow>
     emit_fuel L W m (Suc n) M v f depth tag st buf = emit_fuel L W m n M v f depth tag st buf"
proof (induction n arbitrary: M v f depth tag st buf)
  case (Suc n)
  show ?case unfolding emit_fuel.simps
  proof (rule emit_at_cong)
    fix N x g t u b assume "depth \<le> max_depth (m_cfg m)"
    then have "nat (max_depth (m_cfg m) + 1 - (depth + 1)) + 1 \<le> n" using Suc.prems by simp
    then show "emit_at L W m (emit_fuel L W m n) N x g (depth + 1) t u b = emit_fuel L W m n N x g (depth + 1) t u b"
      using Suc.IH by (simp flip: emit_fuel.simps(2))
  qed
qed simp

text \<open>The emitter satisfies the equation of the recursive function of the source.\<close>

lemma emit_value_unfold:
  "emit_value L W m M v f depth tag st buf = emit_at L W m (emit_value L W m) M v f depth tag st buf"
proof -
  let ?n = "nat (max_depth (m_cfg m) + 1 - depth)"
  have "emit_value L W m M v f depth tag st buf = emit_at L W m (emit_fuel L W m ?n) M v f depth tag st buf"
    by (simp add: emit_value_def emit_levels_def)
  also have "\<dots> = emit_at L W m (emit_value L W m) M v f depth tag st buf"
  proof (rule emit_at_cong)
    fix N x g t u b assume "depth \<le> max_depth (m_cfg m)"
    then have "?n = emit_levels m (depth + 1)" by (simp add: emit_levels_def)
    then show "emit_fuel L W m ?n N x g (depth + 1) t u b = emit_value L W m N x g (depth + 1) t u b"
      by (simp only: emit_value_def)
  qed
  finally show ?thesis .
qed

section \<open>The operation returns JSON\<close>

text \<open>
  C4: \<open>MaskJSONValue\<close> returns one JSON value in valid UTF-8 and on one line for every Go
  value, also when it fails: then it is the marker as a JSON string, and without an error
  no failure was recorded on the way.
\<close>

theorem mask_json_value_returns_json:
  assumes "floats_ok W" and "mask_json_value L W m M v = (out, e)"
  shows "written out \<and> (case (m, e) of
       (None, None) \<Rightarrow> False
     | (None, Some _) \<Rightarrow> out = quote_char # default_redaction_marker @ [quote_char]
     | (Some m, Some _) \<Rightarrow> out = safe_json_fallback m
     | (Some m, None) \<Rightarrow> \<exists>omitted buf st. st_errs (ws_ins st) = [] \<and> out = (if omitted then ''null'' else buf)
         \<and> emit_value L W m M v \<lparr>f_key = [], f_path = ''$'', f_source = SourceAny, f_kind = KindInvalid\<rparr> 0 []
             (start_walk ''$'') [] = (omitted, buf, st))"
proof (cases m)
  case None
  have "written (quote_char # default_redaction_marker @ [quote_char])"
    by (rule plain_text_written) (simp add: plain_text_def default_redaction_marker_def json_plain_def char_le_byte)
  then show ?thesis using assms(2) None by (auto simp: mask_json_value_def)
next
  case (Some k)
  let ?f = "\<lparr>f_key = [], f_path = ''$'', f_source = SourceAny, f_kind = KindInvalid\<rparr>"
  obtain omitted buf st where r: "emit_value L W k M v ?f 0 [] (start_walk ''$'') [] = (omitted, buf, st)" by (metis prod_cases3)
  have "emitted [] omitted buf"
    using emitter_okD [OF emit_fuel_ok [OF assms(1)]] r unfolding emit_value_def by blast
  moreover have "written (safe_json_fallback k)" by (simp add: safe_json_fallback_def json_marshal_string_def encoded_written)
  ultimately show ?thesis using assms(2) r Some null_written
    by (auto simp: mask_json_value_def emitted_def aggregate_errors_def split: if_splits)
qed

lemma byte_env_floats: "floats_ok byte_env"
proof -
  have "exponent_text ''0e+00''" unfolding exponent_text_def
    by (rule exI [of _ "[]"], rule exI [of _ "''0''"], rule exI [of _ "[]"], rule exI [of _ "CHR ''+''"], rule exI [of _ "''00''"])
       (simp add: int_part_def frac_part_def json_digit_def char_le_byte)
  moreover have "fixed_text ''0''" unfolding fixed_text_def
    by (rule exI [of _ "[]"], rule exI [of _ "''0''"], rule exI [of _ "[]"]) (simp add: int_part_def frac_part_def)
  ultimately show ?thesis
    by (simp add: floats_ok_def byte_env_def plain_env_def plain_text_def json_plain_def char_le_byte)
qed

theorem mask_json_value_returns_json_witness:
  "let r = mask_json_value plain_library byte_env
       (Some \<lparr>m_policy = PolicyFunc (Some (\<lambda>f. Returns no_opinion)), m_cfg = default_config\<rparr>) byte_memory
       (Some (value_of (ScalarType plain_info (IntKind 64)) (IntData 42)))
   in r = (''\"42\"'', None) \<and> written (fst r)"
proof -
  let ?m = "\<lparr>m_policy = PolicyFunc (Some (\<lambda>f. Returns no_opinion)), m_cfg = default_config\<rparr>"
  let ?v = "value_of (ScalarType plain_info (IntKind 64)) (IntData 42)"
  have "valid_utf8 []" by (rule valid_utf8_ascii) simp
  moreover have "itoa 42 = ''42''" by code_simp
  ultimately have r: "mask_json_value plain_library byte_env (Some ?m) byte_memory (Some ?v) = (''\"42\"'', None)"
    unfolding mask_json_value_def option.case
    by (subst emit_value_unfold) (simp add: emit_at_def enter_value_def Let_def default_config_def
        unwrap_interfaces_def chase_unwrapped value_of_def byte_env_def plain_env_def enter_reached_def textual_value_def
        implements_text_marshaler_def byte_slice_value_def plain_info_def kind_of_reflect_def decide_reflected_def
        call_policy_def no_opinion_def is_nil_rule_def start_walk_def emit_node_def emit_scalar_def inspectable_scalar_def
        append_safe_scalar_def number_or_text_def aggregate_errors_def release_tracked_def)
  from mask_json_value_returns_json [OF byte_env_floats r] show ?thesis unfolding Let_def r by simp
qed

end
