(* ===== verification/EmitKept.thy ===== *)
theory EmitKept
  imports EmitSound
begin

section \<open>The emitter keeps the bookkeeping\<close>

text \<open>As the walk it is the twin of, the emitter restores the state and loses no failure.\<close>

lemma append_safe_scalar_state:
  "append_safe_scalar L W m v f d st buf = (out, st') \<Longrightarrow> st' = st \<or> (\<exists>code. st' = walk_fail L code f d st)"
  by (cases v; cases "rv_type (the v)"; cases "rv_data (the v)")
     (auto simp: append_safe_scalar_def Let_def split: if_splits option.splits scalar_kind.splits)

lemma append_safe_scalar_kept: "append_safe_scalar L W m v f d st buf = (out, st') \<Longrightarrow> kept st st'"
  using append_safe_scalar_state walk_fail_kept kept_refl by metis

lemma append_result_kept:
  assumes "append_result L W m r f d st buf = (omitted, out, st')"
  shows "kept st st'"
proof -
  have "st' = st \<or> st' = walk_fail L CodeInvalidJSON f d st
      \<or> (\<exists>t e. append_safe_scalar L W m (Some (value_of t e)) f d st buf = (out, st'))"
    using assms by (auto simp: append_result_def split: option.splits go_result.splits if_splits)
  then show ?thesis using append_safe_scalar_kept walk_fail_kept kept_refl by metis
qed

lemma emit_scalar_kept:
  assumes "sorts_by m_key (sort_members L)" and "emit_scalar L W m v f d st buf = (out, st')"
  shows "kept st st'"
proof (cases "inspectable_scalar W m v")
  case None
  then show ?thesis using assms(2) append_safe_scalar_kept by (simp add: emit_scalar_def)
next
  case (Some s)
  obtain masked changed u where u: "inspect_at L m s f d st = ((masked, changed), u)" by (metis surj_pair)
  have "kept st u" by (rule inspect_at_kept [OF assms(1) u])
  moreover have "st' = u \<or> kept u st'"
    using assms(2) Some u append_safe_scalar_kept by (cases changed) (auto simp: emit_scalar_def)
  ultimately show ?thesis using kept_trans by blast
qed

definition emitter_keeps :: "go_emitter \<Rightarrow> bool" where
  "emitter_keeps emit \<longleftrightarrow> (\<forall>M v f d tag st buf omitted out st'. emit M v f d tag st buf = (omitted, out, st') \<longrightarrow> kept st st')"

lemma emitter_keepsD: "emitter_keeps emit \<Longrightarrow> emit M v f d tag st buf = (omitted, out, st') \<Longrightarrow> kept st st'"
  unfolding emitter_keeps_def by blast

lemma emit_flat_scalar_kept:
  assumes sorts: "sorts_by m_key (sort_members L)" and e: "emit_flat_scalar L W m M v f d fm st buf = (omitted, out, st')"
  shows "kept st st'"
proof -
  let ?st = "add_nodes 1 st"
  have st: "kept st ?st" by (rule add_nodes_kept) simp
  obtain y st1 where c: "compiled_decision L W m M v f fm d ?st = (y, st1)" by (metis surj_pair)
  have st1: "kept st st1" using st compiled_decision_kept [OF sorts c] kept_trans by blast
  have "st' = walk_fail L CodeDepthLimit f d st \<or> st' = walk_fail L CodeNodeLimit f d ?st
      \<or> st' = walk_fail L CodeInvalidUTF8 f d ?st \<or> (\<exists>r. append_result L W m r f d st1 buf = (omitted, out, st'))
      \<or> emit_scalar L W m v f d st1 buf = (out, st')"
    using e c by (auto simp: emit_flat_scalar_def Let_def split: if_splits option.splits prod.splits)
  then show ?thesis
  proof (elim disjE exE)
    fix r assume "append_result L W m r f d st1 buf = (omitted, out, st')"
    then show ?thesis using kept_trans [OF st1] append_result_kept by blast
  next
    assume "emit_scalar L W m v f d st1 buf = (out, st')"
    then show ?thesis using kept_trans [OF st1] emit_scalar_kept [OF sorts] by blast
  qed (use walk_fail_kept kept_trans [OF st walk_fail_kept] in simp_all)
qed

lemma emit_member_kept:
  assumes "\<And>u b om out u'. emit u b = (om, out, u') \<Longrightarrow> kept u u'" and "emit_member key emit wrote st buf = (w, b, st')"
  shows "kept st st'"
proof -
  let ?head = "append_json_string (if wrote then buf @ '','' else buf) key @ '':''"
  obtain om o' u where e: "emit (push_segment (KeySegment key) st) ?head = (om, o', u)" by (metis prod_cases3)
  then have "st' = pop_path u" using assms(2) by (auto simp: emit_member_def split: if_splits)
  then show ?thesis using assms(1) [OF e] by (simp add: kept_def forward_def push_segment_def pop_path_def)
qed

lemma emit_entries_kept:
  assumes "emitter_keeps emit"
  shows "emit_entries m emit M f d wrote entries st buf = (out, st') \<Longrightarrow> kept st st'"
proof (induction entries arbitrary: wrote st buf)
  case (Cons kv entries)
  obtain key v where kv: "kv = (key, v)" by (cases kv)
  obtain w b u where e: "emit_member key (emit M (Some v) (map_child_field m f key) (d + 1) []) wrote st buf = (w, b, u)"
    by (metis prod_cases3)
  have "kept st u" by (rule emit_member_kept [OF _ e]) (rule emitter_keepsD [OF assms])
  moreover have "st' = st \<or> kept u st'" using Cons e by (auto simp: kv split: if_splits)
  ultimately show ?case using kept_trans kept_refl by metis
qed (simp add: kept_refl)

lemma emit_fields_kept:
  assumes "sorts_by m_key (sort_members L)" and "emitter_keeps emit"
  shows "emit_fields L W m emit M v f d wrote fms st buf = (out, st') \<Longrightarrow> kept st st'"
proof (induction fms arbitrary: wrote st buf)
  case (Cons fm fms)
  show ?case
  proof (cases "ws_stop st \<or> field_by_index W M v (fm_index fm) = None \<or> fm_json_omit fm \<or> fm_mask_tag fm = ''omit''")
    case True
    then show ?thesis using Cons kept_refl by (auto split: if_splits option.splits)
  next
    case False
    then obtain x where x: "field_by_index W M v (fm_index fm) = Some x" by auto
    let ?emit = "if fm_flat_scalar fm
               then emit_flat_scalar L W m M x (struct_child_field m f fm (fm_kind fm)) (d + 1) fm
               else emit M (Some x) (struct_child_field m f fm KindInvalid) (d + 1) (fm_mask_tag fm)"
    obtain w b u where e: "emit_member (fm_json_name fm) ?emit wrote st buf = (w, b, u)" by (metis prod_cases3)
    have "kept st u"
      by (rule emit_member_kept [OF _ e])
         (use emitter_keepsD [OF assms(2)] emit_flat_scalar_kept [OF assms(1)] in \<open>simp split: if_splits\<close>)
    moreover have "kept u st'" using Cons.prems False x Cons.IH e by simp
    ultimately show ?thesis using kept_trans by blast
  qed
qed (simp add: kept_refl)

lemma emit_elements_kept:
  assumes "emitter_keeps emit"
  shows "emit_elements m emit M f d i vs st buf = (out, st') \<Longrightarrow> kept st st'"
proof (induction vs arbitrary: i st buf)
  case (Cons v vs)
  obtain om b u where e: "emit M (Some v) (array_child_field m f i) (d + 1) [] (push_segment (IndexSegment i) st)
      (if 0 < i then buf @ '','' else buf) = (om, b, u)" by (metis prod_cases3)
  have "kept st (pop_path u)"
    using emitter_keepsD [OF assms e] by (simp add: kept_def forward_def push_segment_def pop_path_def)
  moreover have "st' = st \<or> kept (pop_path u) st'" using Cons e by (auto split: if_splits)
  ultimately show ?case using kept_trans kept_refl by metis
qed (simp add: kept_refl)

lemma emit_map_kept:
  "emitter_keeps emit \<Longrightarrow> emit_map L W m emit M v f d st buf = (out, st') \<Longrightarrow> kept st st'"
  using emit_entries_kept walk_fail_kept
  by (auto simp: emit_map_def Let_def split: go_type.splits go_data.splits scalar_kind.splits if_splits prod.splits)

lemma emit_array_kept: "emitter_keeps emit \<Longrightarrow> emit_array L W m emit M v f d st buf = (out, st') \<Longrightarrow> kept st st'"
  using emit_elements_kept walk_fail_kept by (auto simp: emit_array_def split: prod.splits option.splits)

lemma emit_struct_kept:
  assumes "sorts_by m_key (sort_members L)" and "emitter_keeps emit" and "emit_struct L W m emit M v f d st buf = (out, st')"
  shows "kept st st'"
  using assms(3) emit_fields_kept [OF assms(1,2)] kept_trans [OF report_conflicts_kept emit_fields_kept [OF assms(1,2)]]
  by (auto simp: emit_struct_def Let_def split: prod.splits if_splits)

lemma emit_textual_kept:
  assumes sorts: "sorts_by m_key (sort_members L)" and "wn_textual node"
    and e: "emit_node L W m emit M node d st buf = (omitted, out, st')"
  shows "kept st st'"
proof -
  let ?v = "wn_value node" and ?f = "wn_field node"
  obtain t st1 where t: "render_text L W m M ?v ?f d st = (t, st1)" by (metis surj_pair)
  have st1: "kept st st1" by (rule render_text_kept [OF sorts t])
  have "kept st1 st'"
  proof (cases t)
    case (Rendered x)
    have "st' = st1 \<or> (\<exists>u x. (u = st1 \<or> (\<exists>txt y. inspect_at L m txt ?f d st1 = (y, u)))
        \<and> (st' = u \<or> append_safe_scalar L W m (Some x) ?f d u buf = (out, st')))"
      using e assms(2) t Rendered
      by (auto simp: emit_node_def Let_def split: if_splits prod.splits bool.splits)
    then show ?thesis using inspect_at_kept [OF sorts] append_safe_scalar_kept kept_trans kept_refl by metis
  qed (use e assms(2) t walk_fail_kept in \<open>auto simp: emit_node_def Let_def\<close>)
  then show ?thesis using st1 kept_trans by blast
qed

lemma emit_node_kept:
  assumes sorts: "sorts_by m_key (sort_members L)" and "emitter_keeps emit"
    and e: "emit_node L W m emit M node d st buf = (omitted, out, st')"
  shows "kept st st'"
proof (cases "wn_textual node")
  case True
  show ?thesis by (rule emit_textual_kept [OF sorts True e])
next
  case False
  show ?thesis
  proof (cases "is_basic_scalar (rv_type (wn_value node))")
    case True
    then show ?thesis using e False emit_scalar_kept [OF sorts] by (auto simp: emit_node_def Let_def)
  next
    case other: False
    have walk: "walker_ok (walk_value L W m)"
      using walk_fuel_ok [OF sorts] unfolding walk_value_def walker_ok_def by blast
    have "kept st st'" if "dispatch L W m (walk_value L W m) M node d st = (r, u)"
        "append_result L W m x f d u buf = (omitted, out, st')" for r u x f
      using dispatch_kept [OF sorts walk that(1)] append_result_kept [OF that(2)] kept_trans by blast
    then show ?thesis using e False other emit_map_kept [OF assms(2)] emit_array_kept [OF assms(2)]
        emit_struct_kept [OF sorts assms(2)]
      by (cases "rv_type (wn_value node)") (auto simp: emit_node_def Let_def split: prod.splits)
  qed
qed

lemma emit_at_keeps:
  assumes sorts: "sorts_by m_key (sort_members L)" and "emitter_keeps emit"
  shows "emitter_keeps (emit_at L W m emit)"
  unfolding emitter_keeps_def
proof (intro allI impI)
  fix M v f d tag st buf omitted out st' assume e: "emit_at L W m emit M v f d tag st buf = (omitted, out, st')"
  obtain x u where x: "enter_value L W m (walk_value L W m) M v f d tag st = (x, u)" by (metis surj_pair)
  have walk: "walker_ok (walk_value L W m)"
    using walk_fuel_ok [OF sorts] unfolding walk_value_def walker_ok_def by blast
  note ent = enter_value_entered [OF sorts walk, of st W m M v f d tag, unfolded x entered_def]
  show "kept st st'"
  proof (cases x)
    case (Inl y)
    then have "kept u st'" using e x append_result_kept by (simp add: emit_at_def)
    then show ?thesis using ent Inl kept_trans by auto
  next
    case (Inr node)
    obtain om o' st2 where n: "emit_node L W m emit M node d u buf = (om, o', st2)" by (metis prod_cases3)
    have "tracked st st2"
      using ent Inr kept_tracked [OF emit_node_kept [OF sorts assms(2) n]] tracked_trans by auto
    from released [OF this] show ?thesis using e x ent Inr n by (auto simp: emit_at_def)
  qed
qed

lemma emit_fuel_keeps: "sorts_by m_key (sort_members L) \<Longrightarrow> emitter_keeps (emit_fuel L W m n)"
proof (induction n)
  case 0
  then show ?case by (simp add: emitter_keeps_def kept_refl)
next
  case (Suc n)
  have "emit_fuel L W m (Suc n) = emit_at L W m (emit_fuel L W m n)" by (intro ext) simp
  then show ?case using emit_at_keeps [OF Suc.prems Suc.IH [OF Suc.prems]] by simp
qed

lemma emit_value_keeps: "sorts_by m_key (sort_members L) \<Longrightarrow> emitter_keeps (emit_value L W m)"
  using emit_fuel_keeps unfolding emitter_keeps_def emit_value_def by blast

end
